(* ===== verification/Prelude.thy ===== *)
theory Prelude
  imports Complex_Main "HOL-Library.Word" "HOL-Library.Multiset"
begin

text \<open>
  Shared vocabulary of the development: the machine types of the C code, the
  \<open>ereport\<close>/\<open>elog\<close> errors as values, the error monad, and the theory of
  three-way comparison functions (the \<open>int (*cmp)(a, b)\<close> convention every
  component of the range subsystem relies on).
\<close>

unbundle bit_operations_syntax

named_theorems flag_defs \<open>the bit masks of the range flags byte\<close>
named_theorems strat_defs \<open>the operator strategy numbers of the index operator classes\<close>
named_theorems cls_defs \<open>the class numbers of ranges in the GiST operator class\<close>
named_theorems res_simps \<open>evaluation of the error monad\<close>

section \<open>Machine types\<close>

type_synonym Oid = "32 word"
type_synonym Datum = "64 word"
type_synonym char8 = "8 word"

section \<open>Errors as values\<close>

text \<open>
  One constructor per \<open>ereport(ERROR, ...)\<close> / \<open>elog(ERROR, ...)\<close> of the modelled
  code; the constructor stands for the message text. \<open>Division_by_zero\<close> is the trap of
  an integer division, \<open>Undefined_behavior\<close> a read through a pointer that was never
  set.
\<close>

datatype pg_error =
    Range_types_do_not_match
  | Lower_bound_above_upper
  | Difference_not_contiguous
  | Union_not_contiguous
  | Unexpected_case_in_range_minus
  | Not_a_range_type Oid
  | Flags_argument_null
  | Invalid_bound_flags
  | No_hash_function Oid
  | Integer_out_of_range
  | Bigint_out_of_range
  | Date_out_of_range
  | Junk_after_empty
  | Missing_left_paren
  | Missing_comma
  | Too_many_commas
  | Junk_after_right_paren
  | Unexpected_end_of_input
  | Invalid_input_syntax string
  | Value_out_of_range string
  | No_binary_input Oid
  | No_binary_output Oid
  | Cache_lookup_failed Oid
  | No_data_left
  | Insufficient_data
  | Unsupported_integer_size int
  | Invalid_message_format
  | Unrecognized_strategy nat
  | Unexpected_operator Oid
  | Unknown_range_operator Oid
  | Invalid_empty_fraction
  | Histogram_has_empty_range
  | Join_values_in_range
  | Join_overlap_not_found
  | Division_by_zero
  | Undefined_behavior
  | Invalid_memory_alloc

type_synonym 'a res = "pg_error + 'a"

definition rbind :: "'a res \<Rightarrow> ('a \<Rightarrow> 'b res) \<Rightarrow> 'b res" where
  "rbind m f = (case m of Inl e \<Rightarrow> Inl e | Inr x \<Rightarrow> f x)"

lemma rbind_simps [simp, res_simps]:
  "rbind (Inl e) f = Inl e"
  "rbind (Inr x) f = f x"
  by (simp_all add: rbind_def)

lemma rbind_Inr_iff: "rbind m f = Inr y \<longleftrightarrow> (\<exists>x. m = Inr x \<and> f x = Inr y)"
  by (cases m) simp_all

lemma rbind_Inl_iff: "rbind m f = Inl e \<longleftrightarrow> m = Inl e \<or> (\<exists>x. m = Inr x \<and> f x = Inl e)"
  by (cases m) simp_all

lemma rbindE [elim]:
  assumes "rbind m f = Inr y"
  obtains x where "m = Inr x" and "f x = Inr y"
  using assms by (auto simp: rbind_Inr_iff)

section \<open>Three-way comparison functions\<close>

text \<open>
  A comparison function returns a negative, zero or positive integer. The laws a
  b-tree support function has to satisfy (the operator class requirements of the
  index access method) say that its sign is that of a total preorder; values that
  compare equal need not be identical.
\<close>

definition cle :: "('b \<Rightarrow> 'b \<Rightarrow> int) \<Rightarrow> 'b \<Rightarrow> 'b \<Rightarrow> bool" where
  "cle c a b \<longleftrightarrow> c a b \<le> 0"

locale cmp_preorder =
  fixes c :: "'b \<Rightarrow> 'b \<Rightarrow> int"
  assumes cmp_swap: "c a b < 0 \<longleftrightarrow> 0 < c b a"
    and cmp_trans: "c x y \<le> 0 \<Longrightarrow> c y z \<le> 0 \<Longrightarrow> c x z \<le> 0"
begin

lemma neg_iff: "c a b < 0 \<longleftrightarrow> \<not> cle c b a"
  using cmp_swap [of a b] by (auto simp: cle_def)

lemma pos_iff: "0 < c a b \<longleftrightarrow> \<not> cle c a b"
  by (auto simp: cle_def)

lemma nonpos_iff: "c a b \<le> 0 \<longleftrightarrow> cle c a b"
  by (simp add: cle_def)

lemma nonneg_iff: "0 \<le> c a b \<longleftrightarrow> cle c b a"
  using neg_iff [of a b] by linarith

lemma zero_iff: "c a b = 0 \<longleftrightarrow> cle c a b \<and> cle c b a"
  using nonneg_iff [of a b] nonpos_iff [of a b] by linarith

lemmas cmp_signs = neg_iff pos_iff nonpos_iff nonneg_iff zero_iff

lemma cle_total: "cle c a b \<or> cle c b a"
  using nonneg_iff [of a b] by (auto simp: cle_def)

lemma cle_refl [simp]: "cle c a a"
  using cle_total by blast

lemma cle_trans: "cle c x y \<Longrightarrow> cle c y z \<Longrightarrow> cle c x z"
  unfolding cle_def by (rule cmp_trans)

lemma cmp_refl [simp]: "c a a = 0"
  by (simp add: zero_iff)

lemma cmp_eq_sym: "c a b = 0 \<Longrightarrow> c b a = 0"
  by (simp add: zero_iff)

lemma sorted_wrt_nth:
  "sorted_wrt (cle c) xs \<Longrightarrow> i \<le> j \<Longrightarrow> j < length xs \<Longrightarrow> cle c (xs ! i) (xs ! j)"
  by (cases "i = j") (auto simp: sorted_wrt_iff_nth_less)

end

text \<open>Comparing through a key inherits the laws.\<close>

lemma cmp_preorder_key:
  assumes "cmp_preorder c"
  shows "cmp_preorder (\<lambda>a b. c (f a) (f b))"
proof -
  from assms have s: "\<And>a b. c a b < 0 \<longleftrightarrow> 0 < c b a"
    by (rule cmp_preorder.cmp_swap)
  from assms have t: "\<And>x y z. c x y \<le> 0 \<Longrightarrow> c y z \<le> 0 \<Longrightarrow> c x z \<le> 0"
    by (rule cmp_preorder.cmp_trans)
  show ?thesis
    by unfold_locales (use s t in blast)+
qed

end
