(* ===== verification/Float8.thy ===== *)
theory Float8
  imports Prelude
begin

text \<open>
  The \<open>float8\<close> (C \<open>double\<close>) values the range code computes with: finite values,
  the two infinities and NaN, with the IEEE rules for the special values and for
  comparisons. Finite arithmetic is exact real arithmetic: rounding, overflow to
  infinity and the sign of zero are not modelled (a division of a non-zero value by
  zero is taken with a positive zero, which is what \<open>x - x\<close> yields in the default
  rounding mode).
\<close>

datatype float8 = Fin real | PInf | MInf | NaN

fun isnan :: "float8 \<Rightarrow> bool" where
  "isnan NaN = True"
| "isnan _ = False"

fun isinf :: "float8 \<Rightarrow> bool" where
  "isinf PInf = True"
| "isinf MInf = True"
| "isinf _ = False"

fun f_lt :: "float8 \<Rightarrow> float8 \<Rightarrow> bool" where
  "f_lt (Fin a) (Fin b) = (a < b)"
| "f_lt (Fin a) PInf = True"
| "f_lt MInf (Fin b) = True"
| "f_lt MInf PInf = True"
| "f_lt _ _ = False"

fun f_eq :: "float8 \<Rightarrow> float8 \<Rightarrow> bool" where
  "f_eq (Fin a) (Fin b) = (a = b)"
| "f_eq PInf PInf = True"
| "f_eq MInf MInf = True"
| "f_eq _ _ = False"

definition f_le :: "float8 \<Rightarrow> float8 \<Rightarrow> bool" where
  "f_le x y \<longleftrightarrow> f_lt x y \<or> f_eq x y"

fun f_neg :: "float8 \<Rightarrow> float8" where
  "f_neg (Fin a) = Fin (- a)"
| "f_neg PInf = MInf"
| "f_neg MInf = PInf"
| "f_neg NaN = NaN"

fun f_add :: "float8 \<Rightarrow> float8 \<Rightarrow> float8" where
  "f_add (Fin a) (Fin b) = Fin (a + b)"
| "f_add NaN _ = NaN"
| "f_add _ NaN = NaN"
| "f_add PInf MInf = NaN"
| "f_add MInf PInf = NaN"
| "f_add PInf _ = PInf"
| "f_add _ PInf = PInf"
| "f_add MInf _ = MInf"
| "f_add _ MInf = MInf"

definition f_sub :: "float8 \<Rightarrow> float8 \<Rightarrow> float8" where
  "f_sub x y = f_add x (f_neg y)"

definition f_inf_mul :: "real \<Rightarrow> float8" where
  "f_inf_mul a = (if a = 0 then NaN else if 0 < a then PInf else MInf)"

fun f_mul :: "float8 \<Rightarrow> float8 \<Rightarrow> float8" where
  "f_mul (Fin a) (Fin b) = Fin (a * b)"
| "f_mul NaN _ = NaN"
| "f_mul _ NaN = NaN"
| "f_mul (Fin a) PInf = f_inf_mul a"
| "f_mul (Fin a) MInf = f_inf_mul (- a)"
| "f_mul PInf (Fin b) = f_inf_mul b"
| "f_mul MInf (Fin b) = f_inf_mul (- b)"
| "f_mul PInf PInf = PInf"
| "f_mul PInf MInf = MInf"
| "f_mul MInf PInf = MInf"
| "f_mul MInf MInf = PInf"

fun f_div :: "float8 \<Rightarrow> float8 \<Rightarrow> float8" where
  "f_div (Fin a) (Fin b) = (if b = 0 then f_inf_mul a else Fin (a / b))"
| "f_div NaN _ = NaN"
| "f_div _ NaN = NaN"
| "f_div (Fin a) _ = Fin 0"
| "f_div PInf (Fin b) = (if 0 \<le> b then PInf else MInf)"
| "f_div MInf (Fin b) = (if 0 \<le> b then MInf else PInf)"
| "f_div _ _ = NaN"

text \<open>The \<open>Max\<close> and \<open>Min\<close> macros of \<open>c.h\<close>, at type \<open>float8\<close>.\<close>

definition f_max :: "float8 \<Rightarrow> float8 \<Rightarrow> float8" where
  "f_max x y = (if f_lt y x then x else y)"

definition f_min :: "float8 \<Rightarrow> float8 \<Rightarrow> float8" where
  "f_min x y = (if f_lt x y then x else y)"

text \<open>\<open>CLAMP_PROBABILITY\<close> of \<open>utils/selfuncs.h\<close>.\<close>

definition CLAMP_PROBABILITY :: "float8 \<Rightarrow> float8" where
  "CLAMP_PROBABILITY p =
     (if f_lt p (Fin 0) then Fin 0 else if f_lt (Fin 1) p then Fin 1 else p)"

lemma f_sub_Fin [simp]: "f_sub (Fin a) (Fin b) = Fin (a - b)"
  by (simp add: f_sub_def)

lemma f_le_Fin [simp]: "f_le (Fin a) (Fin b) \<longleftrightarrow> a \<le> b"
  by (auto simp: f_le_def)

lemma f_le_refl [simp]: "f_le x x \<longleftrightarrow> x \<noteq> NaN"
  by (cases x) (auto simp: f_le_def)

lemma f_lt_irrefl [simp]: "\<not> f_lt x x"
  by (cases x) auto

lemma f_lt_asym: "f_lt x y \<Longrightarrow> \<not> f_lt y x"
  by (cases x; cases y) auto

lemma f_le_trans: "f_le x y \<Longrightarrow> f_le y z \<Longrightarrow> f_le x z"
  by (cases x; cases y; cases z) (auto simp: f_le_def)

text \<open>A probability is a finite value in the unit interval.\<close>

definition is_prob :: "float8 \<Rightarrow> bool" where
  "is_prob p \<longleftrightarrow> (\<exists>x. p = Fin x \<and> 0 \<le> x \<and> x \<le> 1)"

lemma is_prob_Fin [simp]: "is_prob (Fin x) \<longleftrightarrow> 0 \<le> x \<and> x \<le> 1"
  by (simp add: is_prob_def)

lemma CLAMP_PROBABILITY_prob: "\<not> isnan p \<Longrightarrow> is_prob (CLAMP_PROBABILITY p)"
  by (cases p) (auto simp: CLAMP_PROBABILITY_def)

lemma CLAMP_PROBABILITY_id: "is_prob p \<Longrightarrow> CLAMP_PROBABILITY p = p"
  by (auto simp: is_prob_def CLAMP_PROBABILITY_def)

end
