(* ===== verification/Range_Data.thy ===== *)
theory Range_Data
  imports Float8
begin

text \<open>
  The range value itself: the flags byte and the bounds of
  \<open>include/utils/rangetypes.h\<close>, the type cache entry the range code reads, and the
  support functions of \<open>rangetypes.c\<close> that build, take apart and compare range
  bounds (\<open>range_serialize\<close>, \<open>range_deserialize\<close>, \<open>make_range\<close>, \<open>range_cmp_bounds\<close>,
  \<open>range_cmp_bound_values\<close>, \<open>make_empty_range\<close>, \<open>range_get_flags\<close>,
  \<open>range_set_contain_empty\<close>, \<open>range_get_typcache\<close>).

  A \<open>Datum\<close> is a value of a type with a zero (\<open>(Datum) 0\<close> is \<open>0\<close>). The stored
  representation of a range is its type OID, the zero to two stored bound values in
  order, and the flags byte, as the struct comment of \<open>RangeType\<close> describes it.
\<close>

section \<open>The flags byte\<close>

definition RANGE_EMPTY :: char8 where [flag_defs]: "RANGE_EMPTY = 0x01"
definition RANGE_LB_INC :: char8 where [flag_defs]: "RANGE_LB_INC = 0x02"
definition RANGE_UB_INC :: char8 where [flag_defs]: "RANGE_UB_INC = 0x04"
definition RANGE_LB_INF :: char8 where [flag_defs]: "RANGE_LB_INF = 0x08"
definition RANGE_UB_INF :: char8 where [flag_defs]: "RANGE_UB_INF = 0x10"
definition RANGE_LB_NULL :: char8 where [flag_defs]: "RANGE_LB_NULL = 0x20"
definition RANGE_UB_NULL :: char8 where [flag_defs]: "RANGE_UB_NULL = 0x40"
definition RANGE_CONTAIN_EMPTY :: char8 where [flag_defs]: "RANGE_CONTAIN_EMPTY = 0x80"

definition RANGE_HAS_LBOUND :: "char8 \<Rightarrow> bool" where
  "RANGE_HAS_LBOUND flags \<longleftrightarrow>
     flags AND (RANGE_EMPTY OR RANGE_LB_NULL OR RANGE_LB_INF) = 0"

definition RANGE_HAS_UBOUND :: "char8 \<Rightarrow> bool" where
  "RANGE_HAS_UBOUND flags \<longleftrightarrow>
     flags AND (RANGE_EMPTY OR RANGE_UB_NULL OR RANGE_UB_INF) = 0"

section \<open>Bounds, ranges and the type cache\<close>

record 'a RangeBound =
  rb_val :: 'a
  rb_infinite :: bool
  rb_inclusive :: bool
  rb_lower :: bool

record 'a RangeType =
  rangetypid :: Oid
  rbounds :: "'a list"
  rflags :: char8

text \<open>
  The part of a \<open>TypeCacheEntry\<close> the range code uses. \<open>rngelemtype\<close> is \<open>None\<close>
  when the type is not a range type; \<open>rng_canonical\<close> and \<open>rng_subdiff\<close> are \<open>None\<close>
  when the respective function OID is invalid.
\<close>

record 'a ElemTypeEntry =
  elem_type_id :: Oid
  hash_proc :: "('a \<Rightarrow> 32 word) option"
  hash_extended_proc :: "('a \<Rightarrow> 64 word \<Rightarrow> 64 word) option"

record 'a TypeCacheEntry =
  type_id :: Oid
  rngelemtype :: "'a ElemTypeEntry option"
  rng_cmp_proc :: "'a \<Rightarrow> 'a \<Rightarrow> int"
  rng_canonical :: "('a RangeType \<Rightarrow> 'a RangeType res) option"
  rng_subdiff :: "('a \<Rightarrow> 'a \<Rightarrow> float8) option"

definition range_get_flags :: "'a RangeType \<Rightarrow> char8" where
  "range_get_flags r = rflags r"

definition range_set_contain_empty :: "'a RangeType \<Rightarrow> 'a RangeType" where
  "range_set_contain_empty r = r\<lparr>rflags := rflags r OR RANGE_CONTAIN_EMPTY\<rparr>"

definition RangeIsEmpty :: "'a RangeType \<Rightarrow> bool" where
  "RangeIsEmpty r \<longleftrightarrow> range_get_flags r AND RANGE_EMPTY \<noteq> 0"

definition RangeIsOrContainsEmpty :: "'a RangeType \<Rightarrow> bool" where
  "RangeIsOrContainsEmpty r \<longleftrightarrow>
     range_get_flags r AND (RANGE_EMPTY OR RANGE_CONTAIN_EMPTY) \<noteq> 0"

text \<open>
  \<open>range_get_typcache\<close>: \<open>fn_extra\<close> is the cached entry of the call site, and
  \<open>lookup_type_cache\<close> the catalog lookup; the result is the entry and the new
  contents of \<open>fn_extra\<close>.
\<close>

definition range_get_typcache ::
  "(Oid \<Rightarrow> 'a TypeCacheEntry) \<Rightarrow> 'a TypeCacheEntry option \<Rightarrow> Oid
     \<Rightarrow> ('a TypeCacheEntry \<times> 'a TypeCacheEntry option) res" where
  "range_get_typcache lookup_type_cache fn_extra rngtypid =
     (let miss = (let typcache = lookup_type_cache rngtypid in
                  if rngelemtype typcache = None then Inl (Not_a_range_type rngtypid)
                  else Inr (typcache, Some typcache))
      in case fn_extra of
           None \<Rightarrow> miss
         | Some typcache \<Rightarrow>
             if type_id typcache \<noteq> rngtypid then miss else Inr (typcache, fn_extra))"

section \<open>Comparing bounds\<close>

definition range_cmp_bounds ::
  "'a TypeCacheEntry \<Rightarrow> 'a RangeBound \<Rightarrow> 'a RangeBound \<Rightarrow> int" where
  "range_cmp_bounds typcache b1 b2 =
     (if rb_infinite b1 \<and> rb_infinite b2 then
        (if rb_lower b1 = rb_lower b2 then 0 else if rb_lower b1 then -1 else 1)
      else if rb_infinite b1 then (if rb_lower b1 then -1 else 1)
      else if rb_infinite b2 then (if rb_lower b2 then 1 else -1)
      else
        let result = rng_cmp_proc typcache (rb_val b1) (rb_val b2) in
        if result = 0 then
          (if \<not> rb_inclusive b1 \<and> \<not> rb_inclusive b2 then
             (if rb_lower b1 = rb_lower b2 then 0 else if rb_lower b1 then 1 else -1)
           else if \<not> rb_inclusive b1 then (if rb_lower b1 then 1 else -1)
           else if \<not> rb_inclusive b2 then (if rb_lower b2 then -1 else 1)
           else 0)
        else result)"

definition range_cmp_bound_values ::
  "'a TypeCacheEntry \<Rightarrow> 'a RangeBound \<Rightarrow> 'a RangeBound \<Rightarrow> int" where
  "range_cmp_bound_values typcache b1 b2 =
     (if rb_infinite b1 \<and> rb_infinite b2 then
        (if rb_lower b1 = rb_lower b2 then 0 else if rb_lower b1 then -1 else 1)
      else if rb_infinite b1 then (if rb_lower b1 then -1 else 1)
      else if rb_infinite b2 then (if rb_lower b2 then 1 else -1)
      else rng_cmp_proc typcache (rb_val b1) (rb_val b2))"

section \<open>Building and taking apart range values\<close>

text \<open>The flags \<open>range_serialize\<close> computes, or the error it raises.\<close>

definition range_serialize_flags ::
  "'a TypeCacheEntry \<Rightarrow> 'a RangeBound \<Rightarrow> 'a RangeBound \<Rightarrow> bool \<Rightarrow> char8 res" where
  "range_serialize_flags typcache lower upper emp =
     (if emp then Inr RANGE_EMPTY
      else
        let cmp = range_cmp_bound_values typcache lower upper in
        if cmp > 0 then Inl Lower_bound_above_upper
        else if cmp = 0 \<and> \<not> (rb_inclusive lower \<and> rb_inclusive upper) then Inr RANGE_EMPTY
        else
          Inr ((if rb_infinite lower then RANGE_LB_INF
                else if rb_inclusive lower then RANGE_LB_INC else 0)
               OR
               (if rb_infinite upper then RANGE_UB_INF
                else if rb_inclusive upper then RANGE_UB_INC else 0)))"

definition range_serialize ::
  "'a TypeCacheEntry \<Rightarrow> 'a RangeBound \<Rightarrow> 'a RangeBound \<Rightarrow> bool \<Rightarrow> 'a RangeType res" where
  "range_serialize typcache lower upper emp =
     rbind (range_serialize_flags typcache lower upper emp) (\<lambda>flags.
       Inr \<lparr>rangetypid = type_id typcache,
            rbounds = (if RANGE_HAS_LBOUND flags then [rb_val lower] else [])
                      @ (if RANGE_HAS_UBOUND flags then [rb_val upper] else []),
            rflags = flags\<rparr>)"

text \<open>Reading the stored value at the data pointer (\<open>fetch_att\<close>).\<close>

definition fetch_att :: "('a::zero) list \<Rightarrow> 'a" where
  "fetch_att ptr = (case ptr of [] \<Rightarrow> 0 | v # _ \<Rightarrow> v)"

definition range_deserialize ::
  "('a::zero) TypeCacheEntry \<Rightarrow> 'a RangeType \<Rightarrow> 'a RangeBound \<times> 'a RangeBound \<times> bool" where
  "range_deserialize typcache r =
     (let flags = rflags r;
          ptr = rbounds r;
          lbound = (if RANGE_HAS_LBOUND flags then fetch_att ptr else 0);
          ptr' = (if RANGE_HAS_LBOUND flags then tl ptr else ptr);
          ubound = (if RANGE_HAS_UBOUND flags then fetch_att ptr' else 0)
      in (\<lparr>rb_val = lbound,
           rb_infinite = (flags AND RANGE_LB_INF \<noteq> 0),
           rb_inclusive = (flags AND RANGE_LB_INC \<noteq> 0),
           rb_lower = True\<rparr>,
          \<lparr>rb_val = ubound,
           rb_infinite = (flags AND RANGE_UB_INF \<noteq> 0),
           rb_inclusive = (flags AND RANGE_UB_INC \<noteq> 0),
           rb_lower = False\<rparr>,
          flags AND RANGE_EMPTY \<noteq> 0))"

definition make_range ::
  "'a TypeCacheEntry \<Rightarrow> 'a RangeBound \<Rightarrow> 'a RangeBound \<Rightarrow> bool \<Rightarrow> 'a RangeType res" where
  "make_range typcache lower upper emp =
     rbind (range_serialize typcache lower upper emp) (\<lambda>r.
       case rng_canonical typcache of
         None \<Rightarrow> Inr r
       | Some canonical \<Rightarrow> if \<not> RangeIsEmpty r then canonical r else Inr r)"

definition make_empty_range :: "('a::zero) TypeCacheEntry \<Rightarrow> 'a RangeType res" where
  "make_empty_range typcache =
     make_range typcache
       \<lparr>rb_val = 0, rb_infinite = False, rb_inclusive = False, rb_lower = True\<rparr>
       \<lparr>rb_val = 0, rb_infinite = False, rb_inclusive = False, rb_lower = False\<rparr>
       True"

text \<open>\<open>range_contains_elem_internal\<close>: the set of elements a range value denotes.\<close>

definition range_contains_elem_internal ::
  "('a::zero) TypeCacheEntry \<Rightarrow> 'a RangeType \<Rightarrow> 'a \<Rightarrow> bool" where
  "range_contains_elem_internal typcache r v =
     (case range_deserialize typcache r of (lower, upper, emp) \<Rightarrow>
        if emp then False
        else if \<not> rb_infinite lower \<and>
          (let cmp = rng_cmp_proc typcache (rb_val lower) v in
           cmp > 0 \<or> (cmp = 0 \<and> \<not> rb_inclusive lower)) then False
        else if \<not> rb_infinite upper \<and>
          (let cmp = rng_cmp_proc typcache (rb_val upper) v in
           cmp < 0 \<or> (cmp = 0 \<and> \<not> rb_inclusive upper)) then False
        else True)"

section \<open>The order on bounds\<close>

text \<open>
  A bound is a point of the line that the element values span: minus infinity, a
  value, just below or just above a value, plus infinity. \<open>bnd_cls\<close> and \<open>bnd_off\<close>
  give the coordinates, and \<open>range_cmp_bounds\<close> is the lexicographic comparison.
\<close>

definition bnd_cls :: "'a RangeBound \<Rightarrow> int" where
  "bnd_cls b = (if rb_infinite b then if rb_lower b then -1 else 1 else 0)"

definition bnd_off :: "'a RangeBound \<Rightarrow> int" where
  "bnd_off b = (if rb_inclusive b then 0 else if rb_lower b then 1 else -1)"

locale range_opclass = cmp_preorder "rng_cmp_proc tc"
  for tc :: "('a::zero) TypeCacheEntry"
begin

lemma cmp_bounds_le_iff:
  "cle (range_cmp_bounds tc) b1 b2 \<longleftrightarrow>
     bnd_cls b1 < bnd_cls b2 \<or>
     bnd_cls b1 = bnd_cls b2 \<and>
       (bnd_cls b1 = 0 \<longrightarrow>
          cle (rng_cmp_proc tc) (rb_val b1) (rb_val b2) \<and>
          (cle (rng_cmp_proc tc) (rb_val b2) (rb_val b1) \<longrightarrow> bnd_off b1 \<le> bnd_off b2))"
proof (cases "rb_infinite b1 \<or> rb_infinite b2")
  case True
  then show ?thesis
    by (auto simp: range_cmp_bounds_def bnd_cls_def cle_def)
next
  case False
  then show ?thesis
    using zero_iff [of "rb_val b1" "rb_val b2"]
    by (auto simp: range_cmp_bounds_def bnd_cls_def bnd_off_def Let_def cle_def)
qed

lemma cmp_bounds_neg_iff:
  "range_cmp_bounds tc b1 b2 < 0 \<longleftrightarrow> \<not> cle (range_cmp_bounds tc) b2 b1"
proof (cases "rb_infinite b1 \<or> rb_infinite b2")
  case True
  then show ?thesis
    by (auto simp: range_cmp_bounds_def cle_def)
next
  case False
  then show ?thesis
    using zero_iff [of "rb_val b1" "rb_val b2"] zero_iff [of "rb_val b2" "rb_val b1"]
      neg_iff [of "rb_val b1" "rb_val b2"]
    by (auto simp: range_cmp_bounds_def Let_def cle_def)
qed

lemma cmp_bounds_trans:
  assumes "cle (range_cmp_bounds tc) x y" and "cle (range_cmp_bounds tc) y z"
  shows "cle (range_cmp_bounds tc) x z"
proof (cases "bnd_cls x = 0 \<and> bnd_cls y = 0 \<and> bnd_cls z = 0")
  case True
  with assms show ?thesis
    unfolding cmp_bounds_le_iff
    using cle_trans [of "rb_val x" "rb_val y" "rb_val z"]
      cle_trans [of "rb_val z" "rb_val x" "rb_val y"] cle_trans [of "rb_val y" "rb_val z" "rb_val x"]
    by force
next
  case False
  with assms show ?thesis
    unfolding cmp_bounds_le_iff by auto
qed

end

sublocale range_opclass \<subseteq> bnd: cmp_preorder "range_cmp_bounds tc"
proof
  show "range_cmp_bounds tc a b < 0 \<longleftrightarrow> 0 < range_cmp_bounds tc b a" for a b
    by (auto simp: cmp_bounds_neg_iff cle_def)
  show "range_cmp_bounds tc x y \<le> 0 \<Longrightarrow> range_cmp_bounds tc y z \<le> 0
    \<Longrightarrow> range_cmp_bounds tc x z \<le> 0" for x y z
    using cmp_bounds_trans [of x y z] by (simp add: cle_def)
qed

section \<open>Flag bits\<close>

lemma flag_bits:
  "flags AND RANGE_EMPTY = 0 \<longleftrightarrow> \<not> bit flags 0"
  "flags AND RANGE_LB_INC = 0 \<longleftrightarrow> \<not> bit flags 1"
  "flags AND RANGE_UB_INC = 0 \<longleftrightarrow> \<not> bit flags 2"
  "flags AND RANGE_LB_INF = 0 \<longleftrightarrow> \<not> bit flags 3"
  "flags AND RANGE_UB_INF = 0 \<longleftrightarrow> \<not> bit flags 4"
  "flags AND RANGE_LB_NULL = 0 \<longleftrightarrow> \<not> bit flags 5"
  "flags AND RANGE_UB_NULL = 0 \<longleftrightarrow> \<not> bit flags 6"
  "flags AND RANGE_CONTAIN_EMPTY = 0 \<longleftrightarrow> \<not> bit flags 7"
  using and_exp_eq_0_iff_not_bit [of flags 0] and_exp_eq_0_iff_not_bit [of flags 1]
    and_exp_eq_0_iff_not_bit [of flags 2] and_exp_eq_0_iff_not_bit [of flags 3]
    and_exp_eq_0_iff_not_bit [of flags 4] and_exp_eq_0_iff_not_bit [of flags 5]
    and_exp_eq_0_iff_not_bit [of flags 6] and_exp_eq_0_iff_not_bit [of flags 7]
  by (simp_all add: flag_defs)

lemma flag_or_zero:
  "(flags::char8) AND (a OR b) = 0 \<longleftrightarrow> flags AND a = 0 \<and> flags AND b = 0"
  by (simp add: bit.conj_disj_distrib or_eq_0_iff)

lemma char8_bit_exp: "m < 8 \<Longrightarrow> bit (2 ^ m :: char8) n \<longleftrightarrow> n = m"
  by (auto simp: bit_exp_iff)

lemma flag_const_bits:
  "bit RANGE_EMPTY n \<longleftrightarrow> n = 0" "bit RANGE_LB_INC n \<longleftrightarrow> n = 1"
  "bit RANGE_UB_INC n \<longleftrightarrow> n = 2" "bit RANGE_LB_INF n \<longleftrightarrow> n = 3"
  "bit RANGE_UB_INF n \<longleftrightarrow> n = 4" "bit RANGE_LB_NULL n \<longleftrightarrow> n = 5"
  "bit RANGE_UB_NULL n \<longleftrightarrow> n = 6" "bit RANGE_CONTAIN_EMPTY n \<longleftrightarrow> n = 7"
  using char8_bit_exp [of 0 n] char8_bit_exp [of 1 n] char8_bit_exp [of 2 n]
    char8_bit_exp [of 3 n] char8_bit_exp [of 4 n] char8_bit_exp [of 5 n]
    char8_bit_exp [of 6 n] char8_bit_exp [of 7 n]
  by (simp_all add: flag_defs)

lemmas flag_simps = flag_bits flag_or_zero flag_const_bits bit_or_iff
  RANGE_HAS_LBOUND_def RANGE_HAS_UBOUND_def

lemma char8_bits_eqI:
  fixes a b :: char8
  assumes "bit a 0 = bit b 0" "bit a 1 = bit b 1" "bit a 2 = bit b 2" "bit a 3 = bit b 3"
    "bit a 4 = bit b 4" "bit a 5 = bit b 5" "bit a 6 = bit b 6" "bit a 7 = bit b 7"
  shows "a = b"
proof (rule bit_word_eqI)
  fix n assume "n < LENGTH(8)"
  then have "n = 0 \<or> n = 1 \<or> n = 2 \<or> n = 3 \<or> n = 4 \<or> n = 5 \<or> n = 6 \<or> n = 7"
    by auto
  then show "bit a n = bit b n" using assms by (elim disjE) (simp_all only:)
qed

lemma RangeIsEmpty_bit: "RangeIsEmpty r \<longleftrightarrow> bit (rflags r) 0"
  by (simp add: RangeIsEmpty_def range_get_flags_def flag_bits)

lemma RangeIsOrContainsEmpty_bit:
  "RangeIsOrContainsEmpty r \<longleftrightarrow> bit (rflags r) 0 \<or> bit (rflags r) 7"
  by (auto simp: RangeIsOrContainsEmpty_def range_get_flags_def flag_or_zero flag_bits)

section \<open>Well-formed ranges and the serialization round trip\<close>

text \<open>
  The invariant of a stored range value: the type OID is that of the type, an empty
  range has no other flag and no bound, a non-empty one has no unused flag, no bound
  both infinite and inclusive, exactly the finite bounds stored, and a lower bound
  that is not above the upper bound.
\<close>

definition range_wf :: "('a::zero) TypeCacheEntry \<Rightarrow> 'a RangeType \<Rightarrow> bool" where
  "range_wf tc r \<longleftrightarrow>
     rangetypid r = type_id tc \<and>
     (if RangeIsEmpty r then rflags r = RANGE_EMPTY \<and> rbounds r = []
      else rflags r AND (RANGE_LB_NULL OR RANGE_UB_NULL OR RANGE_CONTAIN_EMPTY) = 0 \<and>
        (rflags r AND RANGE_LB_INF = 0 \<or> rflags r AND RANGE_LB_INC = 0) \<and>
        (rflags r AND RANGE_UB_INF = 0 \<or> rflags r AND RANGE_UB_INC = 0) \<and>
        length (rbounds r) = (if RANGE_HAS_LBOUND (rflags r) then 1 else 0)
                             + (if RANGE_HAS_UBOUND (rflags r) then 1 else 0) \<and>
        (case range_deserialize tc r of (l, u, _) \<Rightarrow> range_cmp_bounds tc l u \<le> 0))"

text \<open>What an infinite bound keeps of its fields, and the stored form of two bounds.\<close>

definition norm_bound :: "('a::zero) RangeBound \<Rightarrow> 'a RangeBound" where
  "norm_bound b = (if rb_infinite b then b\<lparr>rb_val := 0, rb_inclusive := False\<rparr> else b)"

definition empty_bound :: "bool \<Rightarrow> ('a::zero) RangeBound" where
  "empty_bound low =
     \<lparr>rb_val = 0, rb_infinite = False, rb_inclusive = False, rb_lower = low\<rparr>"

definition empty_repr :: "'a TypeCacheEntry \<Rightarrow> 'a RangeType" where
  "empty_repr tc = \<lparr>rangetypid = type_id tc, rbounds = [], rflags = RANGE_EMPTY\<rparr>"

definition range_repr ::
  "'a TypeCacheEntry \<Rightarrow> 'a RangeBound \<Rightarrow> 'a RangeBound \<Rightarrow> 'a RangeType" where
  "range_repr tc l u =
     \<lparr>rangetypid = type_id tc,
      rbounds = (if rb_infinite l then [] else [rb_val l])
                @ (if rb_infinite u then [] else [rb_val u]),
      rflags = (if rb_infinite l then RANGE_LB_INF
                else if rb_inclusive l then RANGE_LB_INC else 0)
               OR (if rb_infinite u then RANGE_UB_INF
                   else if rb_inclusive u then RANGE_UB_INC else 0)\<rparr>"

lemma norm_bound_sel [simp]:
  "rb_infinite (norm_bound b) = rb_infinite b" "rb_lower (norm_bound b) = rb_lower b"
  by (simp_all add: norm_bound_def)

lemma empty_bound_sel [simp]:
  "rb_infinite (empty_bound x) = False" "rb_lower (empty_bound x) = x"
  "rb_inclusive (empty_bound x) = False"
  by (simp_all add: empty_bound_def)

lemma cmp_bounds_norm [simp]:
  "range_cmp_bounds tc (norm_bound a) b = range_cmp_bounds tc a b"
  "range_cmp_bounds tc a (norm_bound b) = range_cmp_bounds tc a b"
  by (auto simp: range_cmp_bounds_def norm_bound_def)

lemma cle_norm [simp]:
  "cle (range_cmp_bounds tc) (norm_bound a) b = cle (range_cmp_bounds tc) a b"
  "cle (range_cmp_bounds tc) a (norm_bound b) = cle (range_cmp_bounds tc) a b"
  by (simp_all add: cle_def)

lemma deserialize_fields:
  assumes "range_deserialize tc r = (l, u, e)"
  shows "rb_lower l" "\<not> rb_lower u" "e = RangeIsEmpty r"
    "rb_infinite l = bit (rflags r) 3" "rb_infinite u = bit (rflags r) 4"
    "rb_inclusive l = bit (rflags r) 1" "rb_inclusive u = bit (rflags r) 2"
  using assms
  by (auto simp: range_deserialize_def Let_def RangeIsEmpty_bit flag_bits)

lemma serialize_empty [simp]: "range_serialize tc l u True = Inr (empty_repr tc)"
  by (simp add: range_serialize_def range_serialize_flags_def flag_simps empty_repr_def)

lemma deserialize_empty_repr [simp]:
  "range_deserialize tc (empty_repr tc') = (empty_bound True, empty_bound False, True)"
  by (simp add: range_deserialize_def Let_def flag_simps empty_bound_def empty_repr_def)

lemma RangeIsEmpty_empty_repr [simp]: "RangeIsEmpty (empty_repr tc)"
  by (simp add: RangeIsEmpty_bit empty_repr_def flag_simps)

lemma wf_empty_repr [simp]: "range_wf tc (empty_repr tc)"
  by (simp add: range_wf_def RangeIsEmpty_bit empty_repr_def flag_simps)

lemma make_empty_range_eq [simp]: "make_empty_range tc = Inr (empty_repr tc)"
  by (simp add: make_empty_range_def make_range_def split: option.split)

lemma deserialize_range_repr:
  "rb_lower l \<Longrightarrow> \<not> rb_lower u \<Longrightarrow>
     range_deserialize tc (range_repr tc' l u) = (norm_bound l, norm_bound u, False)"
  by (cases l; cases u)
    (auto simp: range_repr_def range_deserialize_def Let_def norm_bound_def flag_simps fetch_att_def)

lemma RangeIsEmpty_range_repr [simp]: "\<not> RangeIsEmpty (range_repr tc l u)"
  by (simp add: RangeIsEmpty_bit range_repr_def flag_simps)

context range_opclass
begin

lemma serialize_cases:
  "rb_lower l \<Longrightarrow> \<not> rb_lower u \<Longrightarrow>
   range_serialize tc l u False =
     (if range_cmp_bound_values tc l u > 0 then Inl Lower_bound_above_upper
      else if \<not> cle (range_cmp_bounds tc) l u then Inr (empty_repr tc)
      else Inr (range_repr tc l u))"
  by (auto simp: range_serialize_def range_serialize_flags_def range_cmp_bound_values_def
      range_cmp_bounds_def cle_def Let_def flag_simps empty_repr_def range_repr_def)

lemma wf_range_repr:
  assumes "rb_lower l" and "\<not> rb_lower u" and "cle (range_cmp_bounds tc) l u"
  shows "range_wf tc (range_repr tc l u)"
  unfolding range_wf_def deserialize_range_repr [OF assms(1,2)] using assms
  by (simp add: range_repr_def RangeIsEmpty_bit flag_simps bnd.nonpos_iff)

lemma cle_values:
  assumes "cle (range_cmp_bounds tc) l u" and "rb_lower l" and "\<not> rb_lower u"
  shows "range_cmp_bound_values tc l u \<le> 0"
  using assms
  by (auto simp: range_cmp_bound_values_def range_cmp_bounds_def cle_def Let_def
      split: if_split_asm)

lemma deserialize_serialize:
  assumes "range_serialize tc l u e = Inr r" and "rb_lower l" and "\<not> rb_lower u"
  shows "range_deserialize tc r =
    (if e \<or> \<not> cle (range_cmp_bounds tc) l u then (empty_bound True, empty_bound False, True)
     else (norm_bound l, norm_bound u, False))"
  using assms by (cases e) (auto simp: serialize_cases deserialize_range_repr split: if_split_asm)

lemma serialize_wf:
  assumes "range_serialize tc l u e = Inr r" and "rb_lower l" and "\<not> rb_lower u"
  shows "range_wf tc r"
  using assms by (cases e) (auto simp: serialize_cases wf_range_repr split: if_split_asm)

lemma serialize_error_iff:
  assumes "rb_lower l" and "\<not> rb_lower u"
  shows "range_serialize tc l u e = Inl x \<longleftrightarrow>
    \<not> e \<and> range_cmp_bound_values tc l u > 0 \<and> x = Lower_bound_above_upper"
  using assms by (cases e) (auto simp: serialize_cases)

lemma wf_repr_eq:
  assumes "range_wf tc r" and "range_deserialize tc r = (l, u, False)"
  shows "r = range_repr tc l u"
proof -
  note d = deserialize_fields [OF assms(2)]
  have "rflags r = rflags (range_repr tc l u)"
    using assms(1) d
    by (intro char8_bits_eqI) (auto simp: range_repr_def range_wf_def flag_simps RangeIsEmpty_bit)
  moreover have "rbounds r = rbounds (range_repr tc l u)"
    using assms d
    by (auto simp: range_repr_def range_wf_def range_deserialize_def Let_def flag_simps
        RangeIsEmpty_bit fetch_att_def length_Suc_conv)
  ultimately show ?thesis
    using assms(1) by (cases r) (simp add: range_wf_def range_repr_def)
qed

lemma wf_le:
  assumes "range_wf tc r" and "range_deserialize tc r = (l, u, False)"
  shows "cle (range_cmp_bounds tc) l u"
  using assms deserialize_fields [OF assms(2)] by (simp add: range_wf_def cle_def)

lemma wf_empty_eq:
  assumes "range_wf tc r" and "range_deserialize tc r = (l, u, True)"
  shows "r = empty_repr tc"
  using assms deserialize_fields [OF assms(2)]
  by (cases r) (simp add: range_wf_def empty_repr_def)

lemma serialize_deserialize:
  assumes "range_wf tc r" and "range_deserialize tc r = (l, u, e)"
  shows "range_serialize tc l u e = Inr r"
proof (cases e)
  case True
  with assms show ?thesis using wf_empty_eq [OF assms(1)] by simp
next
  case False
  note d = deserialize_fields [OF assms(2)]
  have le: "cle (range_cmp_bounds tc) l u"
    using wf_le [OF assms(1)] assms(2) False by simp
  with False d(1,2) cle_values [OF le d(1,2)] show ?thesis
    using wf_repr_eq [OF assms(1)] assms(2) by (simp add: serialize_cases)
qed

end

section \<open>Elements\<close>

text \<open>An element as a point of the line of bounds.\<close>

definition pt :: "'a \<Rightarrow> 'a RangeBound" where
  "pt v = \<lparr>rb_val = v, rb_infinite = False, rb_inclusive = True, rb_lower = True\<rparr>"

context range_opclass
begin

lemma contains_elem_iff:
  assumes "range_deserialize tc r = (l, u, e)"
  shows "range_contains_elem_internal tc r v \<longleftrightarrow>
    \<not> e \<and> cle (range_cmp_bounds tc) l (pt v) \<and> cle (range_cmp_bounds tc) (pt v) u"
proof -
  have swap: "rng_cmp_proc tc v (rb_val u) \<le> 0 \<longleftrightarrow> 0 \<le> rng_cmp_proc tc (rb_val u) v"
    "rng_cmp_proc tc v (rb_val u) = 0 \<longleftrightarrow> rng_cmp_proc tc (rb_val u) v = 0"
    by (auto simp: cmp_signs)
  show ?thesis
    using assms deserialize_fields(1,2) [OF assms] swap
    by (auto simp: range_contains_elem_internal_def range_cmp_bounds_def pt_def cle_def Let_def)
qed

lemma contains_elem_empty_repr [simp]: "\<not> range_contains_elem_internal tc (empty_repr tc) v"
  by (simp add: range_contains_elem_internal_def)

lemma contains_elem_range_repr:
  "rb_lower l \<Longrightarrow> \<not> rb_lower u \<Longrightarrow>
   range_contains_elem_internal tc (range_repr tc l u) v \<longleftrightarrow>
     cle (range_cmp_bounds tc) l (pt v) \<and> cle (range_cmp_bounds tc) (pt v) u"
  by (simp add: contains_elem_iff [OF deserialize_range_repr])

lemma serialize_elem:
  assumes "range_serialize tc l u e = Inr r" and "rb_lower l" and "\<not> rb_lower u"
  shows "range_contains_elem_internal tc r v \<longleftrightarrow>
    \<not> e \<and> cle (range_cmp_bounds tc) l (pt v) \<and> cle (range_cmp_bounds tc) (pt v) u"
proof (cases "e \<or> \<not> cle (range_cmp_bounds tc) l u")
  case True
  then show ?thesis
    using contains_elem_iff [of r _ _ True v] deserialize_serialize [OF assms]
      bnd.cle_trans [of l "pt v" u] by auto
next
  case False
  then show ?thesis
    using contains_elem_iff [of r _ _ False v] deserialize_serialize [OF assms] by simp
qed

end

section \<open>Range types with a canonicalization function\<close>

text \<open>
  Turning a finite bound around: the upper bound that holds exactly the elements a
  lower bound excludes, and vice versa.
\<close>

definition flip_bound :: "'a RangeBound \<Rightarrow> 'a RangeBound" where
  "flip_bound b = b\<lparr>rb_inclusive := \<not> rb_inclusive b, rb_lower := \<not> rb_lower b\<rparr>"

lemma flip_bound_sel [simp]:
  "rb_lower (flip_bound b) = (\<not> rb_lower b)" "rb_infinite (flip_bound b) = rb_infinite b"
  "rb_inclusive (flip_bound b) = (\<not> rb_inclusive b)" "rb_val (flip_bound b) = rb_val b"
  by (simp_all add: flip_bound_def)

lemma norm_bound_finite [simp]: "\<not> rb_infinite b \<Longrightarrow> norm_bound b = b"
  by (simp add: norm_bound_def)

lemma norm_bound_idem [simp]: "norm_bound (norm_bound b) = norm_bound b"
  by (simp add: norm_bound_def)

text \<open>
  What the range code relies on of a type's canonicalization function: a non-empty
  range is converted, or an error raised; the result has the same elements, and its
  bounds are in the type's canonical form \<open>cb\<close>. A range whose bounds are in that
  form is left alone, and the form is stable under turning a bound around. A type
  without a canonicalization function has every bound in canonical form.
\<close>

locale range_type = range_opclass tc for tc :: "('a::zero) TypeCacheEntry" +
  fixes cb :: "'a RangeBound \<Rightarrow> bool"
  assumes canonical_law:
    "rng_canonical tc = Some canonical \<Longrightarrow> range_wf tc r \<Longrightarrow> \<not> RangeIsEmpty r \<Longrightarrow>
     canonical r = Inr r' \<Longrightarrow> range_deserialize tc r' = (l, u, e) \<Longrightarrow>
     range_wf tc r' \<and> (e \<or> cb l \<and> cb u) \<and>
     (\<forall>v. range_contains_elem_internal tc r' v = range_contains_elem_internal tc r v)"
    and canonical_id:
    "rng_canonical tc = Some canonical \<Longrightarrow> cb l \<Longrightarrow> cb u \<Longrightarrow> rb_lower l \<Longrightarrow> \<not> rb_lower u \<Longrightarrow>
     cle (range_cmp_bounds tc) l u \<Longrightarrow> canonical (range_repr tc l u) = Inr (range_repr tc l u)"
    and cb_flip: "cb b \<Longrightarrow> \<not> rb_infinite b \<Longrightarrow> cb (flip_bound b)"
    and cb_norm: "cb (norm_bound b) = cb b"
    and cb_no_canonical: "rng_canonical tc = None \<Longrightarrow> cb b"

text \<open>A well-formed range value in canonical form: what every range function stores.\<close>

definition range_ok ::
  "('a::zero) TypeCacheEntry \<Rightarrow> ('a RangeBound \<Rightarrow> bool) \<Rightarrow> 'a RangeType \<Rightarrow> bool" where
  "range_ok tc cb r \<longleftrightarrow>
     range_wf tc r \<and> (case range_deserialize tc r of (l, u, e) \<Rightarrow> e \<or> cb l \<and> cb u)"

context range_type
begin

lemma make_range_ok:
  assumes "make_range tc l u e = Inr r" and "rb_lower l" and "\<not> rb_lower u"
  shows "range_ok tc cb r"
    and "range_contains_elem_internal tc r v \<longleftrightarrow>
      \<not> e \<and> cle (range_cmp_bounds tc) l (pt v) \<and> cle (range_cmp_bounds tc) (pt v) u"
proof -
  from assms(1) obtain s where s: "range_serialize tc l u e = Inr s"
    and r: "(case rng_canonical tc of None \<Rightarrow> Inr s
       | Some canonical \<Rightarrow> if \<not> RangeIsEmpty s then canonical s else Inr s) = Inr r"
    unfolding make_range_def by blast
  have wf: "range_wf tc s"
    using serialize_wf [OF s assms(2,3)] .
  obtain l' u' e' where d: "range_deserialize tc r = (l', u', e')"
    by (metis prod_cases3)
  have *: "range_wf tc r \<and> (e' \<or> cb l' \<and> cb u') \<and>
    (\<forall>v. range_contains_elem_internal tc r v = range_contains_elem_internal tc s v)"
    using r wf canonical_law [OF _ wf _ _ d] cb_no_canonical deserialize_fields(3) [OF d]
    by (auto split: option.splits if_splits)
  then show "range_ok tc cb r"
    by (simp add: range_ok_def d)
  show "range_contains_elem_internal tc r v \<longleftrightarrow>
      \<not> e \<and> cle (range_cmp_bounds tc) l (pt v) \<and> cle (range_cmp_bounds tc) (pt v) u"
    using * serialize_elem [OF s assms(2,3), of v] by simp
qed

lemma make_range_canonical:
  assumes "rb_lower l" and "\<not> rb_lower u" and "cb l" and "cb u"
  shows "make_range tc l u False =
    (if range_cmp_bound_values tc l u > 0 then Inl Lower_bound_above_upper
     else if \<not> cle (range_cmp_bounds tc) l u then Inr (empty_repr tc)
     else Inr (range_repr tc l u))"
  using assms canonical_id [of _ l u]
  by (auto simp: make_range_def serialize_cases split: option.split)

lemma range_okD:
  assumes "range_ok tc cb r" and "range_deserialize tc r = (l, u, e)"
  shows "range_wf tc r" and "rb_lower l" and "\<not> rb_lower u"
    and "\<not> e \<Longrightarrow> cb l" and "\<not> e \<Longrightarrow> cb u" and "\<not> e \<Longrightarrow> cle (range_cmp_bounds tc) l u"
    and "\<not> e \<Longrightarrow> r = range_repr tc l u" and "e \<Longrightarrow> r = empty_repr tc"
  using assms deserialize_fields(1,2) [OF assms(2)] wf_le wf_repr_eq wf_empty_eq
  by (auto simp: range_ok_def)

lemma range_ok_empty_repr [simp]: "range_ok tc cb (empty_repr tc)"
  by (simp add: range_ok_def)

lemma range_ok_range_repr:
  "rb_lower l \<Longrightarrow> \<not> rb_lower u \<Longrightarrow> cb l \<Longrightarrow> cb u \<Longrightarrow> cle (range_cmp_bounds tc) l u \<Longrightarrow>
   range_ok tc cb (range_repr tc l u)"
  by (simp add: range_ok_def wf_range_repr deserialize_range_repr cb_norm)

end

end
