(* ===== verification/Range_Ops.thy ===== *)
theory Range_Ops
  imports Range_Data
begin

text \<open>
  The generic operations of \<open>rangetypes.c\<close>: constructors, accessors, the boolean
  operators and their SQL-callable wrappers, difference, union, merge and
  intersection, the b-tree comparison and the hash support functions.

  An SQL-callable function takes the catalog lookup and the call site's \<open>fn_extra\<close>
  cache and returns its result with the new contents of the cache.
\<close>

type_synonym 'a lookup = "Oid \<Rightarrow> 'a TypeCacheEntry"
type_synonym 'a fnx = "'a TypeCacheEntry option"

definition with_typcache ::
  "'a lookup \<Rightarrow> 'a fnx \<Rightarrow> Oid \<Rightarrow> ('a TypeCacheEntry \<Rightarrow> 'b res) \<Rightarrow> ('b \<times> 'a fnx) res" where
  "with_typcache lk fx oid f =
     rbind (range_get_typcache lk fx oid) (\<lambda>(tc, fx'). rbind (f tc) (\<lambda>x. Inr (x, fx')))"

section \<open>Constructors\<close>

definition range_constructor2 ::
  "('a::zero) lookup \<Rightarrow> 'a fnx \<Rightarrow> Oid \<Rightarrow> 'a option \<Rightarrow> 'a option \<Rightarrow> ('a RangeType \<times> 'a fnx) res"
  where
  "range_constructor2 lk fx rngtypid arg1 arg2 =
     with_typcache lk fx rngtypid (\<lambda>typcache.
       make_range typcache
         \<lparr>rb_val = (case arg1 of None \<Rightarrow> 0 | Some v \<Rightarrow> v), rb_infinite = (arg1 = None),
          rb_inclusive = True, rb_lower = True\<rparr>
         \<lparr>rb_val = (case arg2 of None \<Rightarrow> 0 | Some v \<Rightarrow> v), rb_infinite = (arg2 = None),
          rb_inclusive = False, rb_lower = False\<rparr>
         False)"

text \<open>
  The flags argument is a NUL-terminated string, here the list of its characters
  before the terminator.
\<close>

definition range_parse_flags :: "string \<Rightarrow> char8 res" where
  "range_parse_flags flags_str =
     (if length flags_str \<noteq> 2 then Inl Invalid_bound_flags
      else
        rbind (if flags_str ! 0 = CHR ''['' then Inr RANGE_LB_INC
               else if flags_str ! 0 = CHR ''('' then Inr 0
               else Inl Invalid_bound_flags) (\<lambda>flags.
        if flags_str ! 1 = CHR '']'' then Inr (flags OR RANGE_UB_INC)
        else if flags_str ! 1 = CHR '')'' then Inr flags
        else Inl Invalid_bound_flags))"

definition range_constructor3 ::
  "('a::zero) lookup \<Rightarrow> 'a fnx \<Rightarrow> Oid \<Rightarrow> 'a option \<Rightarrow> 'a option \<Rightarrow> string option
     \<Rightarrow> ('a RangeType \<times> 'a fnx) res" where
  "range_constructor3 lk fx rngtypid arg1 arg2 arg3 =
     with_typcache lk fx rngtypid (\<lambda>typcache.
       case arg3 of None \<Rightarrow> Inl Flags_argument_null
       | Some flags_str \<Rightarrow> rbind (range_parse_flags flags_str) (\<lambda>flags.
           make_range typcache
             \<lparr>rb_val = (case arg1 of None \<Rightarrow> 0 | Some v \<Rightarrow> v), rb_infinite = (arg1 = None),
              rb_inclusive = (flags AND RANGE_LB_INC \<noteq> 0), rb_lower = True\<rparr>
             \<lparr>rb_val = (case arg2 of None \<Rightarrow> 0 | Some v \<Rightarrow> v), rb_infinite = (arg2 = None),
              rb_inclusive = (flags AND RANGE_UB_INC \<noteq> 0), rb_lower = False\<rparr>
             False))"

section \<open>Accessors\<close>

text \<open>A result \<open>None\<close> is SQL NULL.\<close>

definition range_lower ::
  "('a::zero) lookup \<Rightarrow> 'a fnx \<Rightarrow> 'a RangeType \<Rightarrow> ('a option \<times> 'a fnx) res" where
  "range_lower lk fx r1 =
     with_typcache lk fx (rangetypid r1) (\<lambda>typcache.
       case range_deserialize typcache r1 of (lower, upper, emp) \<Rightarrow>
         Inr (if emp \<or> rb_infinite lower then None else Some (rb_val lower)))"

definition range_upper ::
  "('a::zero) lookup \<Rightarrow> 'a fnx \<Rightarrow> 'a RangeType \<Rightarrow> ('a option \<times> 'a fnx) res" where
  "range_upper lk fx r1 =
     with_typcache lk fx (rangetypid r1) (\<lambda>typcache.
       case range_deserialize typcache r1 of (lower, upper, emp) \<Rightarrow>
         Inr (if emp \<or> rb_infinite upper then None else Some (rb_val upper)))"

definition range_empty :: "'a RangeType \<Rightarrow> bool" where
  "range_empty r1 \<longleftrightarrow> range_get_flags r1 AND RANGE_EMPTY \<noteq> 0"

definition range_lower_inc :: "'a RangeType \<Rightarrow> bool" where
  "range_lower_inc r1 \<longleftrightarrow> range_get_flags r1 AND RANGE_LB_INC \<noteq> 0"

definition range_upper_inc :: "'a RangeType \<Rightarrow> bool" where
  "range_upper_inc r1 \<longleftrightarrow> range_get_flags r1 AND RANGE_UB_INC \<noteq> 0"

definition range_lower_inf :: "'a RangeType \<Rightarrow> bool" where
  "range_lower_inf r1 \<longleftrightarrow> range_get_flags r1 AND RANGE_LB_INF \<noteq> 0"

definition range_upper_inf :: "'a RangeType \<Rightarrow> bool" where
  "range_upper_inf r1 \<longleftrightarrow> range_get_flags r1 AND RANGE_UB_INF \<noteq> 0"

definition range_contains_elem ::
  "('a::zero) lookup \<Rightarrow> 'a fnx \<Rightarrow> 'a RangeType \<Rightarrow> 'a \<Rightarrow> (bool \<times> 'a fnx) res" where
  "range_contains_elem lk fx r v =
     with_typcache lk fx (rangetypid r) (\<lambda>typcache.
       Inr (range_contains_elem_internal typcache r v))"

definition elem_contained_by_range ::
  "('a::zero) lookup \<Rightarrow> 'a fnx \<Rightarrow> 'a \<Rightarrow> 'a RangeType \<Rightarrow> (bool \<times> 'a fnx) res" where
  "elem_contained_by_range lk fx v r =
     with_typcache lk fx (rangetypid r) (\<lambda>typcache.
       Inr (range_contains_elem_internal typcache r v))"

section \<open>Boolean operators\<close>

definition range_eq_internal ::
  "('a::zero) TypeCacheEntry \<Rightarrow> 'a RangeType \<Rightarrow> 'a RangeType \<Rightarrow> bool res" where
  "range_eq_internal typcache r1 r2 =
     (if rangetypid r1 \<noteq> rangetypid r2 then Inl Range_types_do_not_match
      else case range_deserialize typcache r1 of (lower1, upper1, empty1) \<Rightarrow>
           case range_deserialize typcache r2 of (lower2, upper2, empty2) \<Rightarrow>
        Inr (if empty1 \<and> empty2 then True
             else if empty1 \<noteq> empty2 then False
             else if range_cmp_bounds typcache lower1 lower2 \<noteq> 0 then False
             else if range_cmp_bounds typcache upper1 upper2 \<noteq> 0 then False
             else True))"

definition range_ne_internal ::
  "('a::zero) TypeCacheEntry \<Rightarrow> 'a RangeType \<Rightarrow> 'a RangeType \<Rightarrow> bool res" where
  "range_ne_internal typcache r1 r2 =
     rbind (range_eq_internal typcache r1 r2) (\<lambda>b. Inr (\<not> b))"

definition range_contains_internal ::
  "('a::zero) TypeCacheEntry \<Rightarrow> 'a RangeType \<Rightarrow> 'a RangeType \<Rightarrow> bool res" where
  "range_contains_internal typcache r1 r2 =
     (if rangetypid r1 \<noteq> rangetypid r2 then Inl Range_types_do_not_match
      else case range_deserialize typcache r1 of (lower1, upper1, empty1) \<Rightarrow>
           case range_deserialize typcache r2 of (lower2, upper2, empty2) \<Rightarrow>
        Inr (if empty2 then True
             else if empty1 then False
             else if range_cmp_bounds typcache lower1 lower2 > 0 then False
             else if range_cmp_bounds typcache upper1 upper2 < 0 then False
             else True))"

definition range_contained_by_internal ::
  "('a::zero) TypeCacheEntry \<Rightarrow> 'a RangeType \<Rightarrow> 'a RangeType \<Rightarrow> bool res" where
  "range_contained_by_internal typcache r1 r2 = range_contains_internal typcache r2 r1"

definition range_before_internal ::
  "('a::zero) TypeCacheEntry \<Rightarrow> 'a RangeType \<Rightarrow> 'a RangeType \<Rightarrow> bool res" where
  "range_before_internal typcache r1 r2 =
     (if rangetypid r1 \<noteq> rangetypid r2 then Inl Range_types_do_not_match
      else case range_deserialize typcache r1 of (lower1, upper1, empty1) \<Rightarrow>
           case range_deserialize typcache r2 of (lower2, upper2, empty2) \<Rightarrow>
        Inr (if empty1 \<or> empty2 then False
             else range_cmp_bounds typcache upper1 lower2 < 0))"

definition range_after_internal ::
  "('a::zero) TypeCacheEntry \<Rightarrow> 'a RangeType \<Rightarrow> 'a RangeType \<Rightarrow> bool res" where
  "range_after_internal typcache r1 r2 =
     (if rangetypid r1 \<noteq> rangetypid r2 then Inl Range_types_do_not_match
      else case range_deserialize typcache r1 of (lower1, upper1, empty1) \<Rightarrow>
           case range_deserialize typcache r2 of (lower2, upper2, empty2) \<Rightarrow>
        Inr (if empty1 \<or> empty2 then False
             else range_cmp_bounds typcache lower1 upper2 > 0))"

definition bounds_adjacent ::
  "'a TypeCacheEntry \<Rightarrow> 'a RangeBound \<Rightarrow> 'a RangeBound \<Rightarrow> bool res" where
  "bounds_adjacent typcache boundA boundB =
     (let cmp = range_cmp_bound_values typcache boundA boundB in
      if cmp < 0 then
        (case rng_canonical typcache of None \<Rightarrow> Inr False
         | Some _ \<Rightarrow>
             rbind (make_range typcache
                      (boundA\<lparr>rb_inclusive := \<not> rb_inclusive boundA, rb_lower := True\<rparr>)
                      (boundB\<lparr>rb_inclusive := \<not> rb_inclusive boundB, rb_lower := False\<rparr>)
                      False)
               (\<lambda>r. Inr (RangeIsEmpty r)))
      else if cmp = 0 then Inr (rb_inclusive boundA \<noteq> rb_inclusive boundB)
      else Inr False)"

definition range_adjacent_internal ::
  "('a::zero) TypeCacheEntry \<Rightarrow> 'a RangeType \<Rightarrow> 'a RangeType \<Rightarrow> bool res" where
  "range_adjacent_internal typcache r1 r2 =
     (if rangetypid r1 \<noteq> rangetypid r2 then Inl Range_types_do_not_match
      else case range_deserialize typcache r1 of (lower1, upper1, empty1) \<Rightarrow>
           case range_deserialize typcache r2 of (lower2, upper2, empty2) \<Rightarrow>
        if empty1 \<or> empty2 then Inr False
        else rbind (bounds_adjacent typcache upper1 lower2) (\<lambda>a.
               if a then Inr True else bounds_adjacent typcache upper2 lower1))"

definition range_overlaps_internal ::
  "('a::zero) TypeCacheEntry \<Rightarrow> 'a RangeType \<Rightarrow> 'a RangeType \<Rightarrow> bool res" where
  "range_overlaps_internal typcache r1 r2 =
     (if rangetypid r1 \<noteq> rangetypid r2 then Inl Range_types_do_not_match
      else case range_deserialize typcache r1 of (lower1, upper1, empty1) \<Rightarrow>
           case range_deserialize typcache r2 of (lower2, upper2, empty2) \<Rightarrow>
        Inr (if empty1 \<or> empty2 then False
             else if range_cmp_bounds typcache lower1 lower2 \<ge> 0 \<and>
                     range_cmp_bounds typcache lower1 upper2 \<le> 0 then True
             else if range_cmp_bounds typcache lower2 lower1 \<ge> 0 \<and>
                     range_cmp_bounds typcache lower2 upper1 \<le> 0 then True
             else False))"

definition range_overleft_internal ::
  "('a::zero) TypeCacheEntry \<Rightarrow> 'a RangeType \<Rightarrow> 'a RangeType \<Rightarrow> bool res" where
  "range_overleft_internal typcache r1 r2 =
     (if rangetypid r1 \<noteq> rangetypid r2 then Inl Range_types_do_not_match
      else case range_deserialize typcache r1 of (lower1, upper1, empty1) \<Rightarrow>
           case range_deserialize typcache r2 of (lower2, upper2, empty2) \<Rightarrow>
        Inr (if empty1 \<or> empty2 then False
             else if range_cmp_bounds typcache upper1 upper2 \<le> 0 then True
             else False))"

definition range_overright_internal ::
  "('a::zero) TypeCacheEntry \<Rightarrow> 'a RangeType \<Rightarrow> 'a RangeType \<Rightarrow> bool res" where
  "range_overright_internal typcache r1 r2 =
     (if rangetypid r1 \<noteq> rangetypid r2 then Inl Range_types_do_not_match
      else case range_deserialize typcache r1 of (lower1, upper1, empty1) \<Rightarrow>
           case range_deserialize typcache r2 of (lower2, upper2, empty2) \<Rightarrow>
        Inr (if empty1 \<or> empty2 then False
             else if range_cmp_bounds typcache lower1 lower2 \<ge> 0 then True
             else False))"

section \<open>SQL-callable wrappers of the boolean operators\<close>

type_synonym 'a range_op =
  "'a lookup \<Rightarrow> 'a fnx \<Rightarrow> 'a RangeType \<Rightarrow> 'a RangeType \<Rightarrow> (bool \<times> 'a fnx) res"

definition range_eq :: "('a::zero) range_op" where
  "range_eq lk fx r1 r2 =
     with_typcache lk fx (rangetypid r1) (\<lambda>typcache. range_eq_internal typcache r1 r2)"

definition range_ne :: "('a::zero) range_op" where
  "range_ne lk fx r1 r2 =
     with_typcache lk fx (rangetypid r1) (\<lambda>typcache. range_ne_internal typcache r1 r2)"

definition range_contains :: "('a::zero) range_op" where
  "range_contains lk fx r1 r2 =
     with_typcache lk fx (rangetypid r1) (\<lambda>typcache. range_contains_internal typcache r1 r2)"

definition range_contained_by :: "('a::zero) range_op" where
  "range_contained_by lk fx r1 r2 =
     with_typcache lk fx (rangetypid r1) (\<lambda>typcache. range_contained_by_internal typcache r1 r2)"

definition range_before :: "('a::zero) range_op" where
  "range_before lk fx r1 r2 =
     with_typcache lk fx (rangetypid r1) (\<lambda>typcache. range_before_internal typcache r1 r2)"

definition range_after :: "('a::zero) range_op" where
  "range_after lk fx r1 r2 =
     with_typcache lk fx (rangetypid r1) (\<lambda>typcache. range_after_internal typcache r1 r2)"

definition range_adjacent :: "('a::zero) range_op" where
  "range_adjacent lk fx r1 r2 =
     with_typcache lk fx (rangetypid r1) (\<lambda>typcache. range_adjacent_internal typcache r1 r2)"

definition range_overlaps :: "('a::zero) range_op" where
  "range_overlaps lk fx r1 r2 =
     with_typcache lk fx (rangetypid r1) (\<lambda>typcache. range_overlaps_internal typcache r1 r2)"

definition range_overleft :: "('a::zero) range_op" where
  "range_overleft lk fx r1 r2 =
     with_typcache lk fx (rangetypid r1) (\<lambda>typcache. range_overleft_internal typcache r1 r2)"

definition range_overright :: "('a::zero) range_op" where
  "range_overright lk fx r1 r2 =
     with_typcache lk fx (rangetypid r1) (\<lambda>typcache. range_overright_internal typcache r1 r2)"

section \<open>Difference, union, merge, intersection\<close>

text \<open>The body of \<open>range_minus\<close> once the type cache entry is at hand.\<close>

definition range_minus_body ::
  "('a::zero) TypeCacheEntry \<Rightarrow> 'a RangeType \<Rightarrow> 'a RangeType \<Rightarrow> 'a RangeType res" where
  "range_minus_body typcache r1 r2 =
     (case range_deserialize typcache r1 of (lower1, upper1, empty1) \<Rightarrow>
      case range_deserialize typcache r2 of (lower2, upper2, empty2) \<Rightarrow>
        if empty1 \<or> empty2 then Inr r1
        else
          let cmp_l1l2 = range_cmp_bounds typcache lower1 lower2;
              cmp_l1u2 = range_cmp_bounds typcache lower1 upper2;
              cmp_u1l2 = range_cmp_bounds typcache upper1 lower2;
              cmp_u1u2 = range_cmp_bounds typcache upper1 upper2
          in if cmp_l1l2 < 0 \<and> cmp_u1u2 > 0 then Inl Difference_not_contiguous
             else if cmp_l1u2 > 0 \<or> cmp_u1l2 < 0 then Inr r1
             else if cmp_l1l2 \<ge> 0 \<and> cmp_u1u2 \<le> 0 then make_empty_range typcache
             else if cmp_l1l2 \<le> 0 \<and> cmp_u1l2 \<ge> 0 \<and> cmp_u1u2 \<le> 0 then
               make_range typcache lower1
                 (lower2\<lparr>rb_inclusive := \<not> rb_inclusive lower2, rb_lower := False\<rparr>) False
             else if cmp_l1l2 \<ge> 0 \<and> cmp_u1u2 \<ge> 0 \<and> cmp_l1u2 \<le> 0 then
               make_range typcache
                 (upper2\<lparr>rb_inclusive := \<not> rb_inclusive upper2, rb_lower := True\<rparr>)
                 upper1 False
             else Inl Unexpected_case_in_range_minus)"

definition range_minus ::
  "('a::zero) lookup \<Rightarrow> 'a fnx \<Rightarrow> 'a RangeType \<Rightarrow> 'a RangeType \<Rightarrow> ('a RangeType \<times> 'a fnx) res"
  where
  "range_minus lk fx r1 r2 =
     (if rangetypid r1 \<noteq> rangetypid r2 then Inl Range_types_do_not_match
      else with_typcache lk fx (rangetypid r1) (\<lambda>typcache. range_minus_body typcache r1 r2))"

definition range_union_internal ::
  "('a::zero) TypeCacheEntry \<Rightarrow> 'a RangeType \<Rightarrow> 'a RangeType \<Rightarrow> bool \<Rightarrow> 'a RangeType res" where
  "range_union_internal typcache r1 r2 strict =
     (if rangetypid r1 \<noteq> rangetypid r2 then Inl Range_types_do_not_match
      else case range_deserialize typcache r1 of (lower1, upper1, empty1) \<Rightarrow>
           case range_deserialize typcache r2 of (lower2, upper2, empty2) \<Rightarrow>
        if empty1 then Inr r2
        else if empty2 then Inr r1
        else
          rbind (if strict then
                   rbind (range_overlaps_internal typcache r1 r2) (\<lambda>ov.
                     if ov then Inr False
                     else rbind (range_adjacent_internal typcache r1 r2) (\<lambda>adj. Inr (\<not> adj)))
                 else Inr False) (\<lambda>gap.
          if gap then Inl Union_not_contiguous
          else
            make_range typcache
              (if range_cmp_bounds typcache lower1 lower2 < 0 then lower1 else lower2)
              (if range_cmp_bounds typcache upper1 upper2 > 0 then upper1 else upper2)
              False))"

definition range_union ::
  "('a::zero) lookup \<Rightarrow> 'a fnx \<Rightarrow> 'a RangeType \<Rightarrow> 'a RangeType \<Rightarrow> ('a RangeType \<times> 'a fnx) res"
  where
  "range_union lk fx r1 r2 =
     with_typcache lk fx (rangetypid r1) (\<lambda>typcache. range_union_internal typcache r1 r2 True)"

definition range_merge ::
  "('a::zero) lookup \<Rightarrow> 'a fnx \<Rightarrow> 'a RangeType \<Rightarrow> 'a RangeType \<Rightarrow> ('a RangeType \<times> 'a fnx) res"
  where
  "range_merge lk fx r1 r2 =
     with_typcache lk fx (rangetypid r1) (\<lambda>typcache. range_union_internal typcache r1 r2 False)"

text \<open>\<open>range_intersect\<close> calls the SQL-level \<open>range_overlaps\<close> with its own call info.\<close>

definition range_intersect ::
  "('a::zero) lookup \<Rightarrow> 'a fnx \<Rightarrow> 'a RangeType \<Rightarrow> 'a RangeType \<Rightarrow> ('a RangeType \<times> 'a fnx) res"
  where
  "range_intersect lk fx r1 r2 =
     (if rangetypid r1 \<noteq> rangetypid r2 then Inl Range_types_do_not_match
      else rbind (range_get_typcache lk fx (rangetypid r1)) (\<lambda>(typcache, fx1).
        case range_deserialize typcache r1 of (lower1, upper1, empty1) \<Rightarrow>
        case range_deserialize typcache r2 of (lower2, upper2, empty2) \<Rightarrow>
          rbind (if empty1 \<or> empty2 then Inr (False, fx1) else range_overlaps lk fx1 r1 r2)
            (\<lambda>(ov, fx2).
              if \<not> ov then rbind (make_empty_range typcache) (\<lambda>r. Inr (r, fx2))
              else
                rbind (make_range typcache
                  (if range_cmp_bounds typcache lower1 lower2 \<ge> 0 then lower1 else lower2)
                  (if range_cmp_bounds typcache upper1 upper2 \<le> 0 then upper1 else upper2)
                  False) (\<lambda>r. Inr (r, fx2)))))"

section \<open>B-tree comparison\<close>

definition range_cmp_body ::
  "('a::zero) TypeCacheEntry \<Rightarrow> 'a RangeType \<Rightarrow> 'a RangeType \<Rightarrow> int" where
  "range_cmp_body typcache r1 r2 =
     (case range_deserialize typcache r1 of (lower1, upper1, empty1) \<Rightarrow>
      case range_deserialize typcache r2 of (lower2, upper2, empty2) \<Rightarrow>
        if empty1 \<and> empty2 then 0
        else if empty1 then -1
        else if empty2 then 1
        else
          let cmp = range_cmp_bounds typcache lower1 lower2 in
          if cmp = 0 then range_cmp_bounds typcache upper1 upper2 else cmp)"

definition range_cmp ::
  "('a::zero) lookup \<Rightarrow> 'a fnx \<Rightarrow> 'a RangeType \<Rightarrow> 'a RangeType \<Rightarrow> (int \<times> 'a fnx) res" where
  "range_cmp lk fx r1 r2 =
     (if rangetypid r1 \<noteq> rangetypid r2 then Inl Range_types_do_not_match
      else with_typcache lk fx (rangetypid r1) (\<lambda>typcache. Inr (range_cmp_body typcache r1 r2)))"

definition range_lt :: "('a::zero) range_op" where
  "range_lt lk fx r1 r2 = rbind (range_cmp lk fx r1 r2) (\<lambda>(cmp, fx'). Inr (cmp < 0, fx'))"

definition range_le :: "('a::zero) range_op" where
  "range_le lk fx r1 r2 = rbind (range_cmp lk fx r1 r2) (\<lambda>(cmp, fx'). Inr (cmp \<le> 0, fx'))"

definition range_ge :: "('a::zero) range_op" where
  "range_ge lk fx r1 r2 = rbind (range_cmp lk fx r1 r2) (\<lambda>(cmp, fx'). Inr (cmp \<ge> 0, fx'))"

definition range_gt :: "('a::zero) range_op" where
  "range_gt lk fx r1 r2 = rbind (range_cmp lk fx r1 r2) (\<lambda>(cmp, fx'). Inr (cmp > 0, fx'))"

section \<open>Hash support\<close>

text \<open>The \<open>mix\<close> and \<open>final\<close> steps and the two \<open>uint32\<close> hashes of \<open>common/hashfn.c\<close>.\<close>

definition rot :: "32 word \<Rightarrow> nat \<Rightarrow> 32 word" where
  "rot x k = push_bit k x OR drop_bit (32 - k) x"

definition hash_mix ::
  "32 word \<Rightarrow> 32 word \<Rightarrow> 32 word \<Rightarrow> 32 word \<times> 32 word \<times> 32 word" where
  "hash_mix a b c =
     (let a = a - c; a = a XOR rot c 4; c = c + b;
          b = b - a; b = b XOR rot a 6; a = a + c;
          c = c - b; c = c XOR rot b 8; b = b + a;
          a = a - c; a = a XOR rot c 16; c = c + b;
          b = b - a; b = b XOR rot a 19; a = a + c;
          c = c - b; c = c XOR rot b 4; b = b + a
      in (a, b, c))"

definition hash_final ::
  "32 word \<Rightarrow> 32 word \<Rightarrow> 32 word \<Rightarrow> 32 word \<times> 32 word \<times> 32 word" where
  "hash_final a b c =
     (let c = c XOR b; c = c - rot b 14;
          a = a XOR c; a = a - rot c 11;
          b = b XOR a; b = b - rot a 25;
          c = c XOR b; c = c - rot b 16;
          a = a XOR c; a = a - rot c 4;
          b = b XOR a; b = b - rot a 14;
          c = c XOR b; c = c - rot b 24
      in (a, b, c))"

definition hash_bytes_uint32 :: "32 word \<Rightarrow> 32 word" where
  "hash_bytes_uint32 k =
     (let i = 0x9e3779b9 + 4 + 3923095; (a, b, c) = hash_final (i + k) i i in c)"

definition hash_bytes_uint32_extended :: "32 word \<Rightarrow> 64 word \<Rightarrow> 64 word" where
  "hash_bytes_uint32_extended k seed =
     (let i = 0x9e3779b9 + 4 + 3923095;
          (a, b, c) = (if seed \<noteq> 0
                       then hash_mix (i + ucast (drop_bit 32 seed)) (i + ucast seed) i
                       else (i, i, i));
          (a, b, c) = hash_final (a + k) b c
      in push_bit 32 (ucast b) OR ucast c)"

definition ROTATE_HIGH_AND_LOW_32BITS :: "64 word \<Rightarrow> 64 word" where
  "ROTATE_HIGH_AND_LOW_32BITS v =
     (push_bit 1 v AND 0xfffffffefffffffe) OR (drop_bit 31 v AND 0x100000001)"

text \<open>
  \<open>lookup_hash\<close> is the \<open>lookup_type_cache\<close> call that completes the element type's
  entry with its hash support functions. The flags byte is a signed \<open>char\<close> that is
  converted to \<open>uint32\<close>.
\<close>

definition hash_range_body ::
  "(Oid \<Rightarrow> ('a::zero) ElemTypeEntry) \<Rightarrow> 'a TypeCacheEntry \<Rightarrow> 'a ElemTypeEntry \<Rightarrow> 'a RangeType
     \<Rightarrow> 32 word res" where
  "hash_range_body lookup_hash typcache elemtype r =
     (case range_deserialize typcache r of (lower, upper, emp) \<Rightarrow>
      let flags = range_get_flags r;
          scache = (if hash_proc elemtype = None then lookup_hash (elem_type_id elemtype)
                    else elemtype)
      in case hash_proc scache of None \<Rightarrow> Inl (No_hash_function (elem_type_id scache))
         | Some hash \<Rightarrow>
             let lower_hash = (if RANGE_HAS_LBOUND flags then hash (rb_val lower) else 0);
                 upper_hash = (if RANGE_HAS_UBOUND flags then hash (rb_val upper) else 0);
                 result = hash_bytes_uint32 (scast flags);
                 result = result XOR lower_hash;
                 result = push_bit 1 result OR drop_bit 31 result;
                 result = result XOR upper_hash
             in Inr result)"

definition hash_range ::
  "(Oid \<Rightarrow> 'a ElemTypeEntry) \<Rightarrow> ('a::zero) lookup \<Rightarrow> 'a fnx \<Rightarrow> 'a RangeType
     \<Rightarrow> (32 word \<times> 'a fnx) res" where
  "hash_range lookup_hash lk fx r =
     with_typcache lk fx (rangetypid r) (\<lambda>typcache.
       case rngelemtype typcache of None \<Rightarrow> Inl (Not_a_range_type (type_id typcache))
       | Some elemtype \<Rightarrow> hash_range_body lookup_hash typcache elemtype r)"

definition hash_range_extended_body ::
  "(Oid \<Rightarrow> ('a::zero) ElemTypeEntry) \<Rightarrow> 'a TypeCacheEntry \<Rightarrow> 'a ElemTypeEntry \<Rightarrow> 'a RangeType
     \<Rightarrow> 64 word \<Rightarrow> 64 word res" where
  "hash_range_extended_body lookup_hash typcache elemtype r seed =
     (case range_deserialize typcache r of (lower, upper, emp) \<Rightarrow>
      let flags = range_get_flags r;
          scache = (if hash_extended_proc elemtype = None
                    then lookup_hash (elem_type_id elemtype) else elemtype)
      in case hash_extended_proc scache of None \<Rightarrow> Inl (No_hash_function (elem_type_id scache))
         | Some hash \<Rightarrow>
             let lower_hash = (if RANGE_HAS_LBOUND flags then hash (rb_val lower) seed else 0);
                 upper_hash = (if RANGE_HAS_UBOUND flags then hash (rb_val upper) seed else 0);
                 result = hash_bytes_uint32_extended (scast flags) seed;
                 result = result XOR lower_hash;
                 result = ROTATE_HIGH_AND_LOW_32BITS result;
                 result = result XOR upper_hash
             in Inr result)"

definition hash_range_extended ::
  "(Oid \<Rightarrow> 'a ElemTypeEntry) \<Rightarrow> ('a::zero) lookup \<Rightarrow> 'a fnx \<Rightarrow> 'a RangeType \<Rightarrow> 64 word
     \<Rightarrow> (64 word \<times> 'a fnx) res" where
  "hash_range_extended lookup_hash lk fx r seed =
     with_typcache lk fx (rangetypid r) (\<lambda>typcache.
       case rngelemtype typcache of None \<Rightarrow> Inl (Not_a_range_type (type_id typcache))
       | Some elemtype \<Rightarrow> hash_range_extended_body lookup_hash typcache elemtype r seed)"

end
