(* ===== verification/Range_Algebra.thy ===== *)
theory Range_Algebra
  imports Range_Ops
begin

text \<open>
  What the generic range operations compute, proved once for every range type whose
  comparison function obeys the b-tree laws (\<open>range_opclass\<close>) and whose
  canonicalization function obeys its contract (\<open>range_type\<close>): the boolean operators
  as statements about bounds, the b-tree comparison as a total preorder whose zero is
  range equality, the set operations as operations on element sets.
\<close>

section \<open>The boolean operators on non-empty ranges\<close>

lemma internal_ops_nonempty:
  assumes "rangetypid r1 = rangetypid r2"
    and "range_deserialize tc r1 = (l1, u1, False)" and "range_deserialize tc r2 = (l2, u2, False)"
  shows "range_eq_internal tc r1 r2 =
      Inr (range_cmp_bounds tc l1 l2 = 0 \<and> range_cmp_bounds tc u1 u2 = 0)"
    and "range_contains_internal tc r1 r2 =
      Inr (range_cmp_bounds tc l1 l2 \<le> 0 \<and> 0 \<le> range_cmp_bounds tc u1 u2)"
    and "range_before_internal tc r1 r2 = Inr (range_cmp_bounds tc u1 l2 < 0)"
    and "range_after_internal tc r1 r2 = Inr (0 < range_cmp_bounds tc l1 u2)"
    and "range_overleft_internal tc r1 r2 = Inr (range_cmp_bounds tc u1 u2 \<le> 0)"
    and "range_overright_internal tc r1 r2 = Inr (0 \<le> range_cmp_bounds tc l1 l2)"
    and "range_overlaps_internal tc r1 r2 =
      Inr (0 \<le> range_cmp_bounds tc l1 l2 \<and> range_cmp_bounds tc l1 u2 \<le> 0 \<or>
           0 \<le> range_cmp_bounds tc l2 l1 \<and> range_cmp_bounds tc l2 u1 \<le> 0)"
  using assms
  by (auto simp: range_eq_internal_def range_contains_internal_def range_before_internal_def
      range_after_internal_def range_overleft_internal_def range_overright_internal_def
      range_overlaps_internal_def)

lemma internal_ops_empty:
  assumes "rangetypid r1 = rangetypid r2"
    and "range_deserialize tc r1 = (l1, u1, e1)" and "range_deserialize tc r2 = (l2, u2, e2)"
    and "e1 \<or> e2"
  shows "range_eq_internal tc r1 r2 = Inr (e1 \<and> e2)"
    and "range_contains_internal tc r1 r2 = Inr e2"
    and "range_before_internal tc r1 r2 = Inr False"
    and "range_after_internal tc r1 r2 = Inr False"
    and "range_overleft_internal tc r1 r2 = Inr False"
    and "range_overright_internal tc r1 r2 = Inr False"
    and "range_overlaps_internal tc r1 r2 = Inr False"
    and "range_adjacent_internal tc r1 r2 = Inr False"
  using assms
  by (auto simp: range_eq_internal_def range_contains_internal_def range_before_internal_def
      range_after_internal_def range_overleft_internal_def range_overright_internal_def
      range_overlaps_internal_def range_adjacent_internal_def)

text \<open>On ranges of one type the operators return a boolean.\<close>

lemma internal_defined:
  assumes "rangetypid r1 = rangetypid r2"
  obtains e c o' where "range_eq_internal tc r1 r2 = Inr e"
    and "range_contains_internal tc r1 r2 = Inr c" and "range_overlaps_internal tc r1 r2 = Inr o'"
  using assms
  by (cases "range_deserialize tc r1"; cases "range_deserialize tc r2")
    (simp add: range_eq_internal_def range_contains_internal_def range_overlaps_internal_def)

lemma wf_typid: "range_wf tc r \<Longrightarrow> rangetypid r = type_id tc"
  by (simp add: range_wf_def)

context range_opclass
begin

lemma overlaps_nonempty:
  assumes "rangetypid r1 = rangetypid r2"
    and "range_deserialize tc r1 = (l1, u1, False)" and "range_deserialize tc r2 = (l2, u2, False)"
    and "cle (range_cmp_bounds tc) l1 u1" and "cle (range_cmp_bounds tc) l2 u2"
  shows "range_overlaps_internal tc r1 r2 =
    Inr (cle (range_cmp_bounds tc) l1 u2 \<and> cle (range_cmp_bounds tc) l2 u1)"
  using internal_ops_nonempty(7) [OF assms(1-3)] assms(4,5)
    bnd.cle_trans [of l2 l1 u1] bnd.cle_trans [of l1 l2 u2] bnd.cle_total [of l1 l2]
  by (auto simp: bnd.cmp_signs)

lemma contains_iff:
  assumes "rangetypid r1 = rangetypid r2"
    and "range_deserialize tc r1 = (l1, u1, e1)" and "range_deserialize tc r2 = (l2, u2, e2)"
  shows "range_contains_internal tc r1 r2 =
    Inr (e2 \<or> \<not> e1 \<and> cle (range_cmp_bounds tc) l1 l2 \<and> cle (range_cmp_bounds tc) u2 u1)"
  using assms by (auto simp: range_contains_internal_def bnd.cmp_signs)

lemma trichotomy:
  assumes "range_wf tc r1" and "range_wf tc r2" and "\<not> RangeIsEmpty r1" and "\<not> RangeIsEmpty r2"
  obtains b p a where "range_before_internal tc r1 r2 = Inr b"
    and "range_overlaps_internal tc r1 r2 = Inr p" and "range_after_internal tc r1 r2 = Inr a"
    and "b \<and> \<not> p \<and> \<not> a \<or> \<not> b \<and> p \<and> \<not> a \<or> \<not> b \<and> \<not> p \<and> a"
proof -
  obtain l1 u1 where d1: "range_deserialize tc r1 = (l1, u1, False)"
    using assms(3) deserialize_fields(3) by (metis prod_cases3)
  obtain l2 u2 where d2: "range_deserialize tc r2 = (l2, u2, False)"
    using assms(4) deserialize_fields(3) by (metis prod_cases3)
  have t: "rangetypid r1 = rangetypid r2"
    using assms(1,2) by (simp add: wf_typid)
  have le: "cle (range_cmp_bounds tc) l1 u1" "cle (range_cmp_bounds tc) l2 u2"
    using wf_le assms(1,2) d1 d2 by blast+
  have "cle (range_cmp_bounds tc) l1 u2 \<or> cle (range_cmp_bounds tc) l2 u1"
    using le bnd.cle_total [of l1 u2] bnd.cle_trans [of l2 u2 l1] bnd.cle_trans [of l2 l1 u1]
    by blast
  then show ?thesis
    using that internal_ops_nonempty(3,4) [OF t d1 d2] overlaps_nonempty [OF t d1 d2 le]
    by (auto simp: bnd.cmp_signs)
qed

section \<open>Equality and the b-tree order\<close>

lemma eq_iff_cmp:
  assumes "rangetypid r1 = rangetypid r2"
  shows "range_eq_internal tc r1 r2 = Inr (range_cmp_body tc r1 r2 = 0)"
  using assms by (auto simp: range_eq_internal_def range_cmp_body_def Let_def split: prod.split)

end

sublocale range_opclass \<subseteq> rng: cmp_preorder "range_cmp_body tc"
proof
  fix a b
  obtain la ua ea where a: "range_deserialize tc a = (la, ua, ea)" by (metis prod_cases3)
  obtain lb ub eb where b: "range_deserialize tc b = (lb, ub, eb)" by (metis prod_cases3)
  show "range_cmp_body tc a b < 0 \<longleftrightarrow> 0 < range_cmp_body tc b a"
    using bnd.cmp_swap [of la lb] bnd.cmp_swap [of lb la] bnd.cmp_swap [of ua ub]
    by (auto simp: range_cmp_body_def a b Let_def)
next
  fix x y z
  obtain lx ux ex where x: "range_deserialize tc x = (lx, ux, ex)" by (metis prod_cases3)
  obtain ly uy ey where y: "range_deserialize tc y = (ly, uy, ey)" by (metis prod_cases3)
  obtain lz uz ez where z: "range_deserialize tc z = (lz, uz, ez)" by (metis prod_cases3)
  assume "range_cmp_body tc x y \<le> 0" and "range_cmp_body tc y z \<le> 0"
  then show "range_cmp_body tc x z \<le> 0"
    using bnd.cle_trans [of lx ly lz] bnd.cle_trans [of lz lx ly] bnd.cle_trans [of ly lz lx]
      bnd.cle_trans [of ux uy uz]
    by (auto simp: range_cmp_body_def x y z Let_def bnd.cmp_signs split: if_split_asm)
qed

section \<open>Turning bounds around\<close>

context range_opclass
begin

lemma cmp_body_order:
  "range_cmp_body tc r1 r2 < 0 \<longleftrightarrow> 0 < range_cmp_body tc r2 r1"
  "range_cmp_body tc r1 r2 \<le> 0 \<Longrightarrow> range_cmp_body tc r2 r3 \<le> 0 \<Longrightarrow> range_cmp_body tc r1 r3 \<le> 0"
  using rng.cmp_swap rng.cmp_trans by blast+

lemma flip_lower:
  assumes "rb_lower m" and "\<not> rb_infinite m" and "rb_lower l \<or> rb_inclusive l"
  shows "cle (range_cmp_bounds tc) l (flip_bound m) \<longleftrightarrow> \<not> cle (range_cmp_bounds tc) m l"
  using assms cle_total [of "rb_val m" "rb_val l"]
  by (auto simp: cmp_bounds_le_iff bnd_cls_def bnd_off_def)

lemma flip_upper:
  assumes "\<not> rb_lower m" and "\<not> rb_infinite m" and "\<not> rb_lower u \<or> rb_inclusive u"
  shows "cle (range_cmp_bounds tc) (flip_bound m) u \<longleftrightarrow> \<not> cle (range_cmp_bounds tc) u m"
  using assms cle_total [of "rb_val m" "rb_val u"]
  by (auto simp: cmp_bounds_le_iff bnd_cls_def bnd_off_def)

lemma pt_sel [simp]: "rb_inclusive (pt v)" "\<not> rb_infinite (pt v)" "rb_val (pt v) = v"
  by (simp_all add: pt_def)

lemma lower_inf_least:
  "rb_lower l \<Longrightarrow> rb_infinite l \<Longrightarrow> cle (range_cmp_bounds tc) l b"
  by (auto simp: cmp_bounds_le_iff bnd_cls_def)

lemma upper_inf_greatest:
  "\<not> rb_lower u \<Longrightarrow> rb_infinite u \<Longrightarrow> cle (range_cmp_bounds tc) b u"
  by (auto simp: cmp_bounds_le_iff bnd_cls_def)

lemma values_finite:
  assumes "range_cmp_bound_values tc a b \<le> 0" and "\<not> rb_lower a" and "rb_lower b"
  shows "\<not> rb_infinite a" and "\<not> rb_infinite b"
  using assms by (auto simp: range_cmp_bound_values_def split: if_split_asm)

end

context range_type
begin

lemma bounds_adjacent_eq:
  assumes "\<not> rb_lower a" and "rb_lower b" and "cb a" and "cb b"
  shows "bounds_adjacent tc a b =
    Inr (range_cmp_bound_values tc a b = 0 \<and> rb_inclusive a \<noteq> rb_inclusive b)"
proof (cases "range_cmp_bound_values tc a b < 0")
  case True
  have fin: "\<not> rb_infinite a" "\<not> rb_infinite b"
    using values_finite [of a b] True assms(1,2) by auto
  have flip: "a\<lparr>rb_inclusive := \<not> rb_inclusive a, rb_lower := True\<rparr> = flip_bound a"
    "b\<lparr>rb_inclusive := \<not> rb_inclusive b, rb_lower := False\<rparr> = flip_bound b"
    using assms(1,2) by (simp_all add: flip_bound_def)
  have neg: "rng_cmp_proc tc (rb_val a) (rb_val b) < 0"
    using True fin by (simp add: range_cmp_bound_values_def)
  then have "make_range tc (flip_bound a) (flip_bound b) False =
    Inr (range_repr tc (flip_bound a) (flip_bound b))"
    using make_range_canonical [of "flip_bound a" "flip_bound b"] cb_flip assms fin
    by (simp add: range_cmp_bound_values_def range_cmp_bounds_def cle_def)
  then show ?thesis
    using True by (simp add: bounds_adjacent_def flip split: option.split)
next
  case False
  then show ?thesis by (simp add: bounds_adjacent_def)
qed

lemma adjacent_eq:
  assumes "range_ok tc cb r1" and "range_ok tc cb r2"
    and "range_deserialize tc r1 = (l1, u1, False)" and "range_deserialize tc r2 = (l2, u2, False)"
  shows "range_adjacent_internal tc r1 r2 =
    Inr (range_cmp_bound_values tc u1 l2 = 0 \<and> rb_inclusive u1 \<noteq> rb_inclusive l2 \<or>
         range_cmp_bound_values tc u2 l1 = 0 \<and> rb_inclusive u2 \<noteq> rb_inclusive l1)"
proof -
  note ok1 = range_okD [OF assms(1,3)] and ok2 = range_okD [OF assms(2,4)]
  have "rangetypid r1 = rangetypid r2"
    using ok1(1) ok2(1) by (simp add: wf_typid)
  then show ?thesis
    using assms(3,4) ok1(2-5) ok2(2-5)
    by (auto simp: range_adjacent_internal_def bounds_adjacent_eq)
qed

text \<open>An upper and a lower bound that meet leave no gap and do not overlap.\<close>

lemma meet_pt:
  assumes "range_cmp_bound_values tc a b = 0" and "rb_inclusive a \<noteq> rb_inclusive b"
    and "\<not> rb_lower a" and "rb_lower b"
  shows "cle (range_cmp_bounds tc) (pt v) a \<longleftrightarrow> \<not> cle (range_cmp_bounds tc) b (pt v)"
proof -
  have fin: "\<not> rb_infinite a" "\<not> rb_infinite b"
    using values_finite [of a b] assms by auto
  then have z: "cle (rng_cmp_proc tc) (rb_val a) (rb_val b)" "cle (rng_cmp_proc tc) (rb_val b) (rb_val a)"
    using assms(1) by (simp_all add: range_cmp_bound_values_def zero_iff)
  have "cle (range_cmp_bounds tc) a (flip_bound b)" "cle (range_cmp_bounds tc) (flip_bound b) a"
    using z assms fin by (auto simp: cmp_bounds_le_iff bnd_cls_def bnd_off_def)
  then have "cle (range_cmp_bounds tc) (pt v) a \<longleftrightarrow> cle (range_cmp_bounds tc) (pt v) (flip_bound b)"
    using bnd.cle_trans by blast
  then show ?thesis
    using flip_lower [of b "pt v"] assms fin by simp
qed

end

section \<open>The set operations\<close>

definition min_bound where
  "min_bound tc a b = (if cle (range_cmp_bounds tc) a b then a else b)"

definition max_bound where
  "max_bound tc a b = (if cle (range_cmp_bounds tc) a b then b else a)"

context range_type
begin

lemma max_bound_le:
  "cle (range_cmp_bounds tc) (max_bound tc a b) x \<longleftrightarrow>
     cle (range_cmp_bounds tc) a x \<and> cle (range_cmp_bounds tc) b x"
  using bnd.cle_trans [of a b x] bnd.cle_trans [of b a x] bnd.cle_total [of a b]
  by (auto simp: max_bound_def)

lemma le_min_bound:
  "cle (range_cmp_bounds tc) x (min_bound tc a b) \<longleftrightarrow>
     cle (range_cmp_bounds tc) x a \<and> cle (range_cmp_bounds tc) x b"
  using bnd.cle_trans [of x a b] bnd.cle_trans [of x b a] bnd.cle_total [of a b]
  by (auto simp: min_bound_def)

lemma min_bound_le:
  "cle (range_cmp_bounds tc) (min_bound tc a b) x \<longleftrightarrow>
     cle (range_cmp_bounds tc) a x \<or> cle (range_cmp_bounds tc) b x"
  using bnd.cle_trans [of a b x] bnd.cle_trans [of b a x] bnd.cle_total [of a b]
  by (auto simp: min_bound_def)

lemma le_max_bound:
  "cle (range_cmp_bounds tc) x (max_bound tc a b) \<longleftrightarrow>
     cle (range_cmp_bounds tc) x a \<or> cle (range_cmp_bounds tc) x b"
  using bnd.cle_trans [of x a b] bnd.cle_trans [of x b a] bnd.cle_total [of a b]
  by (auto simp: max_bound_def)

lemmas min_max_bound = max_bound_le le_min_bound min_bound_le le_max_bound

lemma make_range_le:
  assumes "rb_lower l" and "\<not> rb_lower u" and "cb l" and "cb u" and "cle (range_cmp_bounds tc) l u"
  obtains r where "make_range tc l u False = Inr r" and "range_ok tc cb r"
    and "range_deserialize tc r = (norm_bound l, norm_bound u, False)"
    and "\<And>v. range_contains_elem_internal tc r v \<longleftrightarrow>
      cle (range_cmp_bounds tc) l (pt v) \<and> cle (range_cmp_bounds tc) (pt v) u"
proof -
  have m: "make_range tc l u False = Inr (range_repr tc l u)"
    using make_range_canonical [of l u] cle_values [of l u] assms by simp
  show ?thesis
    using that [OF m] make_range_ok [OF m assms(1,2)] deserialize_range_repr [OF assms(1,2)]
    by blast
qed

lemma union_merge:
  assumes ok1: "range_ok tc cb r1" and ok2: "range_ok tc cb r2"
    and d1: "range_deserialize tc r1 = (l1, u1, False)"
    and d2: "range_deserialize tc r2 = (l2, u2, False)"
  obtains r where "range_union_internal tc r1 r2 False = Inr r" and "range_ok tc cb r"
    and "range_deserialize tc r =
      (norm_bound (if range_cmp_bounds tc l1 l2 < 0 then l1 else l2),
       norm_bound (if range_cmp_bounds tc u1 u2 > 0 then u1 else u2), False)"
    and "\<And>v. range_contains_elem_internal tc r v \<longleftrightarrow>
      (cle (range_cmp_bounds tc) l1 (pt v) \<or> cle (range_cmp_bounds tc) l2 (pt v)) \<and>
      (cle (range_cmp_bounds tc) (pt v) u1 \<or> cle (range_cmp_bounds tc) (pt v) u2)"
proof -
  let ?l = "if range_cmp_bounds tc l1 l2 < 0 then l1 else l2"
  let ?u = "if range_cmp_bounds tc u1 u2 > 0 then u1 else u2"
  note ok1 = range_okD [OF ok1 d1] and ok2 = range_okD [OF ok2 d2]
  have l: "cle (range_cmp_bounds tc) ?l x \<longleftrightarrow>
    cle (range_cmp_bounds tc) l1 x \<or> cle (range_cmp_bounds tc) l2 x" for x
    using min_bound_le [of l2 l1 x] by (auto simp: min_bound_def bnd.cmp_signs)
  have u: "cle (range_cmp_bounds tc) x ?u \<longleftrightarrow>
    cle (range_cmp_bounds tc) x u1 \<or> cle (range_cmp_bounds tc) x u2" for x
    using le_max_bound [of x u1 u2] by (auto simp: max_bound_def bnd.cmp_signs)
  have le: "cle (range_cmp_bounds tc) ?l ?u"
    unfolding l u using ok1(6) by simp
  have b: "rb_lower ?l" "\<not> rb_lower ?u" "cb ?l" "cb ?u"
    using ok1(2-5) ok2(2-5) by simp_all
  obtain r where r: "make_range tc ?l ?u False = Inr r" "range_ok tc cb r"
    "range_deserialize tc r = (norm_bound ?l, norm_bound ?u, False)"
    "\<And>v. range_contains_elem_internal tc r v \<longleftrightarrow>
      cle (range_cmp_bounds tc) ?l (pt v) \<and> cle (range_cmp_bounds tc) (pt v) ?u"
    using make_range_le [OF b le] by blast
  have t: "rangetypid r1 = rangetypid r2"
    using ok1(1) ok2(1) by (simp add: wf_typid)
  have "range_union_internal tc r1 r2 False = Inr r"
    using r(1) by (simp add: range_union_internal_def t d1 d2)
  then show ?thesis
    using that r(2-4) unfolding l u by blast
qed

lemma union_strict:
  assumes ok1: "range_ok tc cb r1" and ok2: "range_ok tc cb r2"
  obtains ov adj where "range_overlaps_internal tc r1 r2 = Inr ov"
    and "range_adjacent_internal tc r1 r2 = Inr adj"
    and "range_union_internal tc r1 r2 True =
      (if RangeIsEmpty r1 \<or> RangeIsEmpty r2 \<or> ov \<or> adj then range_union_internal tc r1 r2 False
       else Inl Union_not_contiguous)"
proof -
  obtain l1 u1 e1 where d1: "range_deserialize tc r1 = (l1, u1, e1)" by (metis prod_cases3)
  obtain l2 u2 e2 where d2: "range_deserialize tc r2 = (l2, u2, e2)" by (metis prod_cases3)
  note ok1' = range_okD [OF ok1 d1] and ok2' = range_okD [OF ok2 d2]
  have t: "rangetypid r1 = rangetypid r2"
    using ok1'(1) ok2'(1) by (simp add: wf_typid)
  obtain ov where ov: "range_overlaps_internal tc r1 r2 = Inr ov"
    using t by (auto simp: range_overlaps_internal_def d1 d2)
  have "\<exists>adj. range_adjacent_internal tc r1 r2 = Inr adj"
    using internal_ops_empty(8) [OF t d1 d2] adjacent_eq [OF ok1 ok2] d1 d2
    by (cases "e1 \<or> e2") auto
  then obtain adj where adj: "range_adjacent_internal tc r1 r2 = Inr adj" by blast
  show ?thesis
    using that [OF ov adj] deserialize_fields(3) [OF d1] deserialize_fields(3) [OF d2] ov adj
    by (auto simp: range_union_internal_def t d1 d2)
qed

lemma ok_typid: "range_ok tc cb r \<Longrightarrow> rangetypid r = type_id tc"
  by (auto simp: range_ok_def dest: wf_typid)

text \<open>Two overlapping or adjacent ranges leave no element out between them.\<close>

lemma no_gap:
  assumes ok1: "range_ok tc cb r1" and ok2: "range_ok tc cb r2"
    and d1: "range_deserialize tc r1 = (l1, u1, False)"
    and d2: "range_deserialize tc r2 = (l2, u2, False)"
    and "range_overlaps_internal tc r1 r2 = Inr True \<or> range_adjacent_internal tc r1 r2 = Inr True"
  shows "cle (range_cmp_bounds tc) (pt v) u1 \<or> cle (range_cmp_bounds tc) l2 (pt v)"
    and "cle (range_cmp_bounds tc) (pt v) u2 \<or> cle (range_cmp_bounds tc) l1 (pt v)"
proof -
  note D1 = range_okD [OF ok1 d1] and D2 = range_okD [OF ok2 d2]
  have t: "rangetypid r1 = rangetypid r2"
    using D1(1) D2(1) by (simp add: wf_typid)
  have lu: "cle (range_cmp_bounds tc) l1 u1" "cle (range_cmp_bounds tc) l2 u2"
    using D1(6) D2(6) by auto
  consider (ov) "cle (range_cmp_bounds tc) l1 u2" "cle (range_cmp_bounds tc) l2 u1"
    | (adj1) "\<And>v. cle (range_cmp_bounds tc) (pt v) u1 \<longleftrightarrow> \<not> cle (range_cmp_bounds tc) l2 (pt v)"
    | (adj2) "\<And>v. cle (range_cmp_bounds tc) (pt v) u2 \<longleftrightarrow> \<not> cle (range_cmp_bounds tc) l1 (pt v)"
    using assms(5) overlaps_nonempty [OF t d1 d2 lu] adjacent_eq [OF ok1 ok2 d1 d2]
      meet_pt [of u1 l2] meet_pt [of u2 l1] D1(2,3) D2(2,3) by auto
  then have "(cle (range_cmp_bounds tc) (pt v) u1 \<or> cle (range_cmp_bounds tc) l2 (pt v)) \<and>
    (cle (range_cmp_bounds tc) (pt v) u2 \<or> cle (range_cmp_bounds tc) l1 (pt v))"
    by cases (use lu bnd.cle_total bnd.cle_trans in blast)+
  then show "cle (range_cmp_bounds tc) (pt v) u1 \<or> cle (range_cmp_bounds tc) l2 (pt v)"
    and "cle (range_cmp_bounds tc) (pt v) u2 \<or> cle (range_cmp_bounds tc) l1 (pt v)"
    by auto
qed

lemma union_elems_nonempty:
  assumes ok1: "range_ok tc cb r1" and ok2: "range_ok tc cb r2"
    and d1: "range_deserialize tc r1 = (l1, u1, False)"
    and d2: "range_deserialize tc r2 = (l2, u2, False)"
    and u: "range_union_internal tc r1 r2 True = Inr r"
  shows "range_ok tc cb r \<and> (range_contains_elem_internal tc r v \<longleftrightarrow>
      range_contains_elem_internal tc r1 v \<or> range_contains_elem_internal tc r2 v)"
proof -
  obtain ov adj where o: "range_overlaps_internal tc r1 r2 = Inr ov"
    and a: "range_adjacent_internal tc r1 r2 = Inr adj"
    and s: "range_union_internal tc r1 r2 True =
      (if RangeIsEmpty r1 \<or> RangeIsEmpty r2 \<or> ov \<or> adj then range_union_internal tc r1 r2 False
       else Inl Union_not_contiguous)"
    by (rule union_strict [OF ok1 ok2])
  have "\<not> RangeIsEmpty r1" "\<not> RangeIsEmpty r2"
    using deserialize_fields(3) [OF d1] deserialize_fields(3) [OF d2] by simp_all
  then have "range_overlaps_internal tc r1 r2 = Inr True \<or> range_adjacent_internal tc r1 r2 = Inr True"
    and m: "range_union_internal tc r1 r2 False = Inr r"
    using o a s u by (auto split: if_splits)
  note gap = no_gap [OF ok1 ok2 d1 d2 this(1), of v]
  obtain r' where "range_union_internal tc r1 r2 False = Inr r'" "range_ok tc cb r'"
    "range_contains_elem_internal tc r' v \<longleftrightarrow>
      (cle (range_cmp_bounds tc) l1 (pt v) \<or> cle (range_cmp_bounds tc) l2 (pt v)) \<and>
      (cle (range_cmp_bounds tc) (pt v) u1 \<or> cle (range_cmp_bounds tc) (pt v) u2)"
    using union_merge [OF ok1 ok2 d1 d2] by blast
  then show ?thesis
    using m gap contains_elem_iff [OF d1, of v] contains_elem_iff [OF d2, of v] by auto
qed

lemma union_elems:
  assumes ok1: "range_ok tc cb r1" and ok2: "range_ok tc cb r2"
    and u: "range_union_internal tc r1 r2 True = Inr r"
  shows "range_ok tc cb r \<and> (range_contains_elem_internal tc r v \<longleftrightarrow>
      range_contains_elem_internal tc r1 v \<or> range_contains_elem_internal tc r2 v)"
proof -
  obtain l1 u1 e1 where d1: "range_deserialize tc r1 = (l1, u1, e1)" by (metis prod_cases3)
  obtain l2 u2 e2 where d2: "range_deserialize tc r2 = (l2, u2, e2)" by (metis prod_cases3)
  have t: "rangetypid r1 = rangetypid r2"
    using ok1 ok2 by (simp add: ok_typid)
  show ?thesis
  proof (cases "e1 \<or> e2")
    case True
    then have "r = (if e1 then r2 else r1)"
      using u by (auto simp: range_union_internal_def t d1 d2)
    then show ?thesis
      using True ok1 ok2 contains_elem_iff [OF d1, of v] contains_elem_iff [OF d2, of v] by auto
  next
    case False
    then show ?thesis
      using union_elems_nonempty [OF ok1 ok2 _ _ u, of l1 u1 l2 u2 v] d1 d2 by simp
  qed
qed

text \<open>The merge of two ranges is the least range that contains both.\<close>

lemma merge_least:
  assumes ok1: "range_ok tc cb r1" and ok2: "range_ok tc cb r2" and ok3: "range_ok tc cb r3"
  obtains r where "range_union_internal tc r1 r2 False = Inr r" and "range_ok tc cb r"
    and "range_contains_internal tc r r1 = Inr True" and "range_contains_internal tc r r2 = Inr True"
    and "range_contains_internal tc r3 r1 = Inr True \<Longrightarrow> range_contains_internal tc r3 r2 = Inr True
      \<Longrightarrow> range_contains_internal tc r3 r = Inr True"
proof -
  obtain l1 u1 e1 where d1: "range_deserialize tc r1 = (l1, u1, e1)" by (metis prod_cases3)
  obtain l2 u2 e2 where d2: "range_deserialize tc r2 = (l2, u2, e2)" by (metis prod_cases3)
  obtain l3 u3 e3 where d3: "range_deserialize tc r3 = (l3, u3, e3)" by (metis prod_cases3)
  have t: "rangetypid r1 = type_id tc" "rangetypid r2 = type_id tc" "rangetypid r3 = type_id tc"
    using ok1 ok2 ok3 by (simp_all add: ok_typid)
  show ?thesis
  proof (cases "e1 \<or> e2")
    case True
    then have "range_union_internal tc r1 r2 False = Inr (if e1 then r2 else r1)"
      by (auto simp: range_union_internal_def t d1 d2)
    then show ?thesis
      using that True ok1 ok2
      by (auto simp: contains_iff [OF _ d1 d2] contains_iff [OF _ d2 d1] contains_iff [OF _ d1 d1]
          contains_iff [OF _ d2 d2] t)
  next
    case False
    then have d1: "range_deserialize tc r1 = (l1, u1, False)"
      and d2: "range_deserialize tc r2 = (l2, u2, False)" using d1 d2 by auto
    obtain r where r: "range_union_internal tc r1 r2 False = Inr r" "range_ok tc cb r"
      "range_deserialize tc r =
        (norm_bound (if range_cmp_bounds tc l1 l2 < 0 then l1 else l2),
         norm_bound (if range_cmp_bounds tc u1 u2 > 0 then u1 else u2), False)"
      using union_merge [OF ok1 ok2 d1 d2] by metis
    have t': "rangetypid r = type_id tc"
      using r(2) by (simp add: ok_typid)
    have "range_contains_internal tc r r1 = Inr True" "range_contains_internal tc r r2 = Inr True"
      using bnd.cle_total [of u1 u2] bnd.cle_total [of l1 l2]
      by (auto simp: contains_iff [OF _ r(3) d1] contains_iff [OF _ r(3) d2] t t' bnd.cmp_signs)
    moreover have "range_contains_internal tc r3 r1 = Inr True \<Longrightarrow>
      range_contains_internal tc r3 r2 = Inr True \<Longrightarrow> range_contains_internal tc r3 r = Inr True"
      by (auto simp: contains_iff [OF _ d3 d1] contains_iff [OF _ d3 d2] contains_iff [OF _ d3 r(3)] t t')
    ultimately show ?thesis
      using that [OF r(1,2)] by blast
  qed
qed

lemma minus_left:
  assumes "rb_lower l1" and "rb_lower l2" and "cb l1" and "cb l2"
    and "\<not> cle (range_cmp_bounds tc) l2 l1"
  obtains r where "make_range tc l1 (flip_bound l2) False = Inr r" and "range_ok tc cb r"
    and "\<And>v. range_contains_elem_internal tc r v \<longleftrightarrow>
        cle (range_cmp_bounds tc) l1 (pt v) \<and> \<not> cle (range_cmp_bounds tc) l2 (pt v)"
proof -
  have fin: "\<not> rb_infinite l2"
    using assms(2,5) lower_inf_least [of l2] by blast
  have le: "cle (range_cmp_bounds tc) l1 (flip_bound l2)"
    using flip_lower [of l2 l1] fin assms by simp
  have b: "\<not> rb_lower (flip_bound l2)" "cb (flip_bound l2)"
    using assms(2) cb_flip [OF assms(4) fin] by simp_all
  show ?thesis
    by (rule make_range_le [OF assms(1) b(1) assms(3) b(2) le], rule that)
      (simp_all add: flip_lower [OF assms(2) fin])
qed

lemma minus_right:
  assumes "\<not> rb_lower u1" and "\<not> rb_lower u2" and "cb u1" and "cb u2"
    and "\<not> cle (range_cmp_bounds tc) u1 u2"
  obtains r where "make_range tc (flip_bound u2) u1 False = Inr r" and "range_ok tc cb r"
    and "\<And>v. range_contains_elem_internal tc r v \<longleftrightarrow>
        \<not> cle (range_cmp_bounds tc) (pt v) u2 \<and> cle (range_cmp_bounds tc) (pt v) u1"
proof -
  have fin: "\<not> rb_infinite u2"
    using assms(2,5) upper_inf_greatest [of u2] by blast
  have le: "cle (range_cmp_bounds tc) (flip_bound u2) u1"
    using flip_upper [of u2 u1] fin assms by simp
  have b: "rb_lower (flip_bound u2)" "cb (flip_bound u2)"
    using assms(2) cb_flip [OF assms(4) fin] by simp_all
  show ?thesis
    by (rule make_range_le [OF b(1) assms(1) b(2) assms(3) le], rule that)
      (simp_all add: flip_upper [OF assms(2) fin])
qed

lemma minus_elems_nonempty:
  assumes ok1: "range_ok tc cb r1" and ok2: "range_ok tc cb r2"
    and d1: "range_deserialize tc r1 = (l1, u1, False)"
    and d2: "range_deserialize tc r2 = (l2, u2, False)"
    and nc: "cle (range_cmp_bounds tc) l2 l1 \<or> cle (range_cmp_bounds tc) u1 u2"
  obtains r where "range_minus_body tc r1 r2 = Inr r" and "range_ok tc cb r"
    and "\<And>v. range_contains_elem_internal tc r v \<longleftrightarrow>
      range_contains_elem_internal tc r1 v \<and> \<not> range_contains_elem_internal tc r2 v"
proof -
  note D1 = range_okD [OF ok1 d1] and D2 = range_okD [OF ok2 d2]
  note c1 = contains_elem_iff [OF d1] and c2 = contains_elem_iff [OF d2]
  note body = range_minus_body_def d1 d2 Let_def bnd.cmp_signs
  consider (disj) "\<not> cle (range_cmp_bounds tc) l1 u2 \<or> \<not> cle (range_cmp_bounds tc) l2 u1"
    | (emp) "cle (range_cmp_bounds tc) l1 u2" "cle (range_cmp_bounds tc) l2 u1"
      "cle (range_cmp_bounds tc) l2 l1" "cle (range_cmp_bounds tc) u1 u2"
    | (left) "cle (range_cmp_bounds tc) l1 u2" "cle (range_cmp_bounds tc) l2 u1"
      "\<not> cle (range_cmp_bounds tc) l2 l1" "cle (range_cmp_bounds tc) u1 u2"
    | (right) "cle (range_cmp_bounds tc) l1 u2" "cle (range_cmp_bounds tc) l2 u1"
      "cle (range_cmp_bounds tc) l2 l1" "\<not> cle (range_cmp_bounds tc) u1 u2"
    using nc by blast
  then show ?thesis
  proof cases
    case disj
    then have "range_minus_body tc r1 r2 = Inr r1"
      using nc by (auto simp: body)
    then show ?thesis
      using that ok1 disj c1 c2 bnd.cle_trans by blast
  next
    case emp
    then have "range_minus_body tc r1 r2 = Inr (empty_repr tc)"
      by (simp add: body)
    then show ?thesis
      using that [of "empty_repr tc"] c1 c2 bnd.cle_trans [OF emp(3)] bnd.cle_trans [OF _ emp(4)]
      by auto
  next
    case left
    have eq: "range_minus_body tc r1 r2 = make_range tc l1 (flip_bound l2) False"
      using left D2(2) bnd.cle_total [of l1 l2] by (simp add: body flip_bound_def)
    obtain r where r: "make_range tc l1 (flip_bound l2) False = Inr r" "range_ok tc cb r"
      "\<And>v. range_contains_elem_internal tc r v \<longleftrightarrow>
        cle (range_cmp_bounds tc) l1 (pt v) \<and> \<not> cle (range_cmp_bounds tc) l2 (pt v)"
      using minus_left [OF D1(2) D2(2) _ _ left(3)] D1(4) D2(4) by blast
    have "range_contains_elem_internal tc r v \<longleftrightarrow>
      range_contains_elem_internal tc r1 v \<and> \<not> range_contains_elem_internal tc r2 v" for v
      using r(3) [of v] c1 [of v] c2 [of v] bnd.cle_trans [OF _ left(2), of "pt v"]
        bnd.cle_trans [OF _ left(4), of "pt v"] bnd.cle_total [of "pt v" l2] by blast
    then show ?thesis
      using that r(1,2) eq by metis
  next
    case right
    have eq: "range_minus_body tc r1 r2 = make_range tc (flip_bound u2) u1 False"
      using right D2(3) bnd.cle_total [of u1 u2] by (simp add: body flip_bound_def)
    obtain r where r: "make_range tc (flip_bound u2) u1 False = Inr r" "range_ok tc cb r"
      "\<And>v. range_contains_elem_internal tc r v \<longleftrightarrow>
        \<not> cle (range_cmp_bounds tc) (pt v) u2 \<and> cle (range_cmp_bounds tc) (pt v) u1"
      using minus_right [OF D1(3) D2(3) _ _ right(4)] D1(5) D2(5) by blast
    have "range_contains_elem_internal tc r v \<longleftrightarrow>
      range_contains_elem_internal tc r1 v \<and> \<not> range_contains_elem_internal tc r2 v" for v
      using r(3) [of v] c1 [of v] c2 [of v] bnd.cle_trans [OF right(1), of "pt v"]
        bnd.cle_trans [OF right(3), of "pt v"] bnd.cle_total [of "pt v" u2] by blast
    then show ?thesis
      using that r(1,2) eq by metis
  qed
qed

lemma minus_elems:
  assumes ok1: "range_ok tc cb r1" and ok2: "range_ok tc cb r2"
    and m: "range_minus_body tc r1 r2 = Inr r"
  shows "range_ok tc cb r \<and> (range_contains_elem_internal tc r v \<longleftrightarrow>
      range_contains_elem_internal tc r1 v \<and> \<not> range_contains_elem_internal tc r2 v)"
proof -
  obtain l1 u1 e1 where d1: "range_deserialize tc r1 = (l1, u1, e1)" by (metis prod_cases3)
  obtain l2 u2 e2 where d2: "range_deserialize tc r2 = (l2, u2, e2)" by (metis prod_cases3)
  show ?thesis
  proof (cases "e1 \<or> e2")
    case True
    then have "r = r1" using m by (auto simp: range_minus_body_def d1 d2)
    then show ?thesis
      using True ok1 contains_elem_iff [OF d1, of v] contains_elem_iff [OF d2, of v] by auto
  next
    case False
    then have d: "range_deserialize tc r1 = (l1, u1, False)" "range_deserialize tc r2 = (l2, u2, False)"
      using d1 d2 by auto
    have "cle (range_cmp_bounds tc) l2 l1 \<or> cle (range_cmp_bounds tc) u1 u2"
      using m False by (auto simp: range_minus_body_def d Let_def bnd.cmp_signs split: if_splits)
    then show ?thesis
      using minus_elems_nonempty [OF ok1 ok2 d] m by (metis Inr_inject)
  qed
qed

lemma minus_error:
  assumes ok1: "range_ok tc cb r1" and ok2: "range_ok tc cb r2"
    and d1: "range_deserialize tc r1 = (l1, u1, e1)" and d2: "range_deserialize tc r2 = (l2, u2, e2)"
  shows "range_minus_body tc r1 r2 = Inl x \<longleftrightarrow>
    x = Difference_not_contiguous \<and> \<not> e1 \<and> \<not> e2 \<and>
    range_cmp_bounds tc l1 l2 < 0 \<and> range_cmp_bounds tc u1 u2 > 0"
proof (cases "\<not> e1 \<and> \<not> e2 \<and> (cle (range_cmp_bounds tc) l2 l1 \<or> cle (range_cmp_bounds tc) u1 u2)")
  case True
  then obtain r where "range_minus_body tc r1 r2 = Inr r"
    using minus_elems_nonempty [OF ok1 ok2] d1 d2 by (metis (full_types))
  then show ?thesis using True by (auto simp: bnd.cmp_signs)
next
  case False
  then show ?thesis by (auto simp: range_minus_body_def d1 d2 Let_def bnd.cmp_signs)
qed

end

section \<open>The call-site cache\<close>

text \<open>
  The entry of a range type is found when the catalog has it and the call site caches
  nothing, another type's entry, or this entry.
\<close>

definition typcache_found :: "'a lookup \<Rightarrow> 'a fnx \<Rightarrow> 'a TypeCacheEntry \<Rightarrow> bool" where
  "typcache_found lk fx tc \<longleftrightarrow>
     lk (type_id tc) = tc \<and> rngelemtype tc \<noteq> None \<and>
     (case fx of None \<Rightarrow> True | Some e \<Rightarrow> type_id e = type_id tc \<longrightarrow> e = tc)"

lemma with_typcache_found [simp]:
  "typcache_found lk fx tc \<Longrightarrow>
   with_typcache lk fx (type_id tc) f = rbind (f tc) (\<lambda>x. Inr (x, Some tc))"
  "typcache_found lk fx tc \<Longrightarrow>
   range_get_typcache lk fx (type_id tc) = Inr (tc, Some tc)"
  by (auto simp: typcache_found_def with_typcache_def range_get_typcache_def Let_def
      split: option.splits)

lemma typcache_found_again [simp]: "typcache_found lk fx tc \<Longrightarrow> typcache_found lk (Some tc) tc"
  by (simp add: typcache_found_def)

text \<open>A cache that only ever holds what the catalog says changes no result.\<close>

lemma range_get_typcache_transparent:
  assumes "\<And>oid. type_id (lk oid) = oid" and "rngelemtype (lk cached) \<noteq> None"
  shows "range_get_typcache lk (Some (lk cached)) oid =
    rbind (range_get_typcache lk None oid) (\<lambda>(e, _). Inr (e, Some e))"
  using assms by (auto simp: range_get_typcache_def Let_def)

context range_type
begin

lemma intersect_ok:
  assumes found: "typcache_found lk fx tc" and ok1: "range_ok tc cb r1" and ok2: "range_ok tc cb r2"
  obtains r where "range_intersect lk fx r1 r2 = Inr (r, Some tc)" and "range_ok tc cb r"
    and "\<And>v. range_contains_elem_internal tc r v \<longleftrightarrow>
      range_contains_elem_internal tc r1 v \<and> range_contains_elem_internal tc r2 v"
proof -
  obtain l1 u1 e1 where d1: "range_deserialize tc r1 = (l1, u1, e1)" by (metis prod_cases3)
  obtain l2 u2 e2 where d2: "range_deserialize tc r2 = (l2, u2, e2)" by (metis prod_cases3)
  have t: "rangetypid r1 = type_id tc" "rangetypid r2 = type_id tc"
    using ok1 ok2 by (simp_all add: ok_typid)
  note D1 = range_okD [OF ok1 d1] and D2 = range_okD [OF ok2 d2]
  note c1 = contains_elem_iff [OF d1] and c2 = contains_elem_iff [OF d2]
  define l where "l = (if range_cmp_bounds tc l1 l2 \<ge> 0 then l1 else l2)"
  define u where "u = (if range_cmp_bounds tc u1 u2 \<le> 0 then u1 else u2)"
  have l: "cle (range_cmp_bounds tc) l x \<longleftrightarrow>
    cle (range_cmp_bounds tc) l1 x \<and> cle (range_cmp_bounds tc) l2 x" for x
    using max_bound_le [of l2 l1 x] by (auto simp: l_def max_bound_def bnd.cmp_signs)
  have u: "cle (range_cmp_bounds tc) x u \<longleftrightarrow>
    cle (range_cmp_bounds tc) x u1 \<and> cle (range_cmp_bounds tc) x u2" for x
    using le_min_bound [of x u1 u2] by (auto simp: u_def min_bound_def bnd.cmp_signs)
  show ?thesis
  proof (cases "\<not> e1 \<and> \<not> e2 \<and> cle (range_cmp_bounds tc) l1 u2 \<and> cle (range_cmp_bounds tc) l2 u1")
    case False
    have ov: "range_overlaps_internal tc r1 r2 = Inr False" if "\<not> e1" "\<not> e2"
      using overlaps_nonempty [of r1 r2 l1 u1 l2 u2] that D1(6) D2(6) t d1 d2 False by auto
    have "range_intersect lk fx r1 r2 = Inr (empty_repr tc, Some tc)"
      using found ov by (simp add: range_intersect_def range_overlaps_def t d1 d2)
    moreover have "\<not> (range_contains_elem_internal tc r1 v \<and> range_contains_elem_internal tc r2 v)" for v
      using False c1 [of v] c2 [of v] bnd.cle_trans [of l1 "pt v" u2] bnd.cle_trans [of l2 "pt v" u1]
      by blast
    ultimately show ?thesis
      using that [of "empty_repr tc"] by simp
  next
    case True
    have ov: "range_overlaps_internal tc r1 r2 = Inr True"
      using overlaps_nonempty [of r1 r2 l1 u1 l2 u2] D1(6) D2(6) t d1 d2 True by auto
    have b: "rb_lower l" "\<not> rb_lower u" "cb l" "cb u"
      using D1(2-5) D2(2-5) True by (simp_all add: l_def u_def)
    have "cle (range_cmp_bounds tc) l u"
      unfolding l u using True D1(6) D2(6) by simp
    from make_range_le [OF b this] obtain r where r: "make_range tc l u False = Inr r"
      "range_ok tc cb r" "\<And>v. range_contains_elem_internal tc r v \<longleftrightarrow>
      cle (range_cmp_bounds tc) l (pt v) \<and> cle (range_cmp_bounds tc) (pt v) u" by blast
    have "range_intersect lk fx r1 r2 = Inr (r, Some tc)"
      using found ov True r(1)
      by (simp add: range_intersect_def range_overlaps_def t d1 d2 l_def u_def)
    then show ?thesis
      using that r True c1 c2 unfolding l u by blast
  qed
qed

end

section \<open>Equality, hashing and the element semantics\<close>

context range_opclass
begin

lemma same_side_zero:
  assumes "range_cmp_bounds tc a b = 0" and "rb_lower a = rb_lower b"
    and "\<not> (rb_infinite a \<and> rb_inclusive a)" and "\<not> (rb_infinite b \<and> rb_inclusive b)"
  shows "rb_infinite a = rb_infinite b" and "rb_inclusive a = rb_inclusive b"
    and "\<not> rb_infinite a \<Longrightarrow> rng_cmp_proc tc (rb_val a) (rb_val b) = 0"
proof -
  have ab: "cle (range_cmp_bounds tc) a b" "cle (range_cmp_bounds tc) b a"
    using assms(1) by (simp_all add: bnd.zero_iff)
  then have c: "bnd_cls a = bnd_cls b" and o: "bnd_cls a = 0 \<Longrightarrow> bnd_off a = bnd_off b"
    and v: "bnd_cls a = 0 \<Longrightarrow> rng_cmp_proc tc (rb_val a) (rb_val b) = 0"
    unfolding cmp_bounds_le_iff zero_iff by linarith+
  show i: "rb_infinite a = rb_infinite b"
    using c assms(2) by (simp add: bnd_cls_def split: if_split_asm)
  show "rb_inclusive a = rb_inclusive b"
    using o i assms(2-4) by (auto simp: bnd_cls_def bnd_off_def split: if_split_asm)
  show "\<not> rb_infinite a \<Longrightarrow> rng_cmp_proc tc (rb_val a) (rb_val b) = 0"
    using v by (simp add: bnd_cls_def)
qed

lemma wf_not_inf_inc:
  assumes "range_wf tc r" and "range_deserialize tc r = (l, u, False)"
  shows "\<not> (rb_infinite l \<and> rb_inclusive l)" and "\<not> (rb_infinite u \<and> rb_inclusive u)"
  using assms(1) deserialize_fields [OF assms(2)] by (auto simp: range_wf_def flag_simps)

lemma eq_flags:
  assumes wf1: "range_wf tc r1" and wf2: "range_wf tc r2"
    and eq: "range_eq_internal tc r1 r2 = Inr True"
    and d1: "range_deserialize tc r1 = (l1, u1, e1)" and d2: "range_deserialize tc r2 = (l2, u2, e2)"
  shows "rflags r1 = rflags r2 \<and>
    (RANGE_HAS_LBOUND (rflags r1) \<longrightarrow> rng_cmp_proc tc (rb_val l1) (rb_val l2) = 0) \<and>
    (RANGE_HAS_UBOUND (rflags r1) \<longrightarrow> rng_cmp_proc tc (rb_val u1) (rb_val u2) = 0)"
proof (cases e1)
  case True
  then have e2: e2
    using eq by (simp add: range_eq_internal_def d1 d2 split: if_splits)
  have "range_deserialize tc r1 = (l1, u1, True)" "range_deserialize tc r2 = (l2, u2, True)"
    using d1 d2 True e2 by simp_all
  then have "r1 = empty_repr tc" "r2 = empty_repr tc"
    using wf_empty_eq [OF wf1] wf_empty_eq [OF wf2] by blast+
  then show ?thesis by (simp add: empty_repr_def RANGE_HAS_LBOUND_def RANGE_HAS_UBOUND_def flag_defs)
next
  case False
  have z: "range_cmp_bounds tc l1 l2 = 0" "range_cmp_bounds tc u1 u2 = 0" and e2: "\<not> e2"
    using eq False by (simp_all add: range_eq_internal_def d1 d2 split: if_splits)
  have d: "range_deserialize tc r1 = (l1, u1, False)" "range_deserialize tc r2 = (l2, u2, False)"
    using d1 d2 False e2 by auto
  note f1 = deserialize_fields [OF d(1)] and f2 = deserialize_fields [OF d(2)]
  note n1 = wf_not_inf_inc [OF wf1 d(1)] and n2 = wf_not_inf_inc [OF wf2 d(2)]
  have "rb_lower l1 = rb_lower l2" "rb_lower u1 = rb_lower u2"
    using f1(1,2) f2(1,2) by simp_all
  note lz = same_side_zero [OF z(1) this(1) n1(1) n2(1)]
    and uz = same_side_zero [OF z(2) this(2) n1(2) n2(2)]
  have "rflags r1 = rflags r2"
    using wf_repr_eq [OF wf1 d(1)] wf_repr_eq [OF wf2 d(2)] lz(1,2) uz(1,2)
    by (simp add: range_repr_def)
  then show ?thesis
    using lz(3) uz(3) f1(4,5) by (simp add: flag_simps)
qed

lemma contains_elems:
  assumes "rangetypid r1 = rangetypid r2" and "range_contains_internal tc r1 r2 = Inr True"
    and "range_contains_elem_internal tc r2 v"
  shows "range_contains_elem_internal tc r1 v"
proof -
  obtain l1 u1 e1 where d1: "range_deserialize tc r1 = (l1, u1, e1)" by (metis prod_cases3)
  obtain l2 u2 e2 where d2: "range_deserialize tc r2 = (l2, u2, e2)" by (metis prod_cases3)
  show ?thesis
    using assms contains_iff [OF assms(1) d1 d2] contains_elem_iff [OF d1, of v]
      contains_elem_iff [OF d2, of v] bnd.cle_trans [of l1 l2 "pt v"] bnd.cle_trans [of "pt v" u2 u1]
    by auto
qed

lemma contains_antisym:
  assumes "rangetypid r1 = rangetypid r2"
  shows "range_eq_internal tc r1 r2 = Inr True \<longleftrightarrow>
    range_contains_internal tc r1 r2 = Inr True \<and> range_contains_internal tc r2 r1 = Inr True"
proof -
  obtain l1 u1 e1 where d1: "range_deserialize tc r1 = (l1, u1, e1)" by (metis prod_cases3)
  obtain l2 u2 e2 where d2: "range_deserialize tc r2 = (l2, u2, e2)" by (metis prod_cases3)
  show ?thesis
    using assms contains_iff [OF assms d1 d2] contains_iff [OF assms [symmetric] d2 d1]
    by (auto simp: range_eq_internal_def d1 d2 bnd.cmp_signs)
qed

text \<open>
  Equal ranges have equal hash codes, for an element type whose hash function
  respects its comparison function.
\<close>

lemma hash_respects_eq:
  assumes wf1: "range_wf tc r1" and wf2: "range_wf tc r2"
    and eq: "range_eq_internal tc r1 r2 = Inr True"
    and h: "\<And>h a b. hash_proc (if hash_proc elemtype = None then lookup_hash (elem_type_id elemtype)
        else elemtype) = Some h \<Longrightarrow> rng_cmp_proc tc a b = 0 \<Longrightarrow> h a = h b"
  shows "hash_range_body lookup_hash tc elemtype r1 = hash_range_body lookup_hash tc elemtype r2"
proof -
  obtain l1 u1 e1 where d1: "range_deserialize tc r1 = (l1, u1, e1)" by (metis prod_cases3)
  obtain l2 u2 e2 where d2: "range_deserialize tc r2 = (l2, u2, e2)" by (metis prod_cases3)
  define sc where "sc = (if hash_proc elemtype = None then lookup_hash (elem_type_id elemtype)
        else elemtype)"
  note f = eq_flags [OF wf1 wf2 eq d1 d2]
  have l: "(if RANGE_HAS_LBOUND (rflags r2) then hash (rb_val l1) else 0) =
      (if RANGE_HAS_LBOUND (rflags r2) then hash (rb_val l2) else 0)"
    and u: "(if RANGE_HAS_UBOUND (rflags r2) then hash (rb_val u1) else 0) =
      (if RANGE_HAS_UBOUND (rflags r2) then hash (rb_val u2) else 0)"
    if "hash_proc sc = Some hash" for hash
    using f h [of hash] that by (auto simp: sc_def)
  show ?thesis
    using f unfolding hash_range_body_def d1 d2 range_get_flags_def Let_def sc_def [symmetric]
    by (cases "hash_proc sc") (simp_all only: prod.case option.case l u)
qed

lemma hash_extended_respects_eq:
  assumes wf1: "range_wf tc r1" and wf2: "range_wf tc r2"
    and eq: "range_eq_internal tc r1 r2 = Inr True"
    and h: "\<And>h a b s. hash_extended_proc (if hash_extended_proc elemtype = None
        then lookup_hash (elem_type_id elemtype) else elemtype) = Some h \<Longrightarrow>
        rng_cmp_proc tc a b = 0 \<Longrightarrow> h a s = h b s"
  shows "hash_range_extended_body lookup_hash tc elemtype r1 seed =
    hash_range_extended_body lookup_hash tc elemtype r2 seed"
proof -
  obtain l1 u1 e1 where d1: "range_deserialize tc r1 = (l1, u1, e1)" by (metis prod_cases3)
  obtain l2 u2 e2 where d2: "range_deserialize tc r2 = (l2, u2, e2)" by (metis prod_cases3)
  define sc where "sc = (if hash_extended_proc elemtype = None
        then lookup_hash (elem_type_id elemtype) else elemtype)"
  note f = eq_flags [OF wf1 wf2 eq d1 d2]
  have l: "(if RANGE_HAS_LBOUND (rflags r2) then hash (rb_val l1) seed else 0) =
      (if RANGE_HAS_LBOUND (rflags r2) then hash (rb_val l2) seed else 0)"
    and u: "(if RANGE_HAS_UBOUND (rflags r2) then hash (rb_val u1) seed else 0) =
      (if RANGE_HAS_UBOUND (rflags r2) then hash (rb_val u2) seed else 0)"
    if "hash_extended_proc sc = Some hash" for hash
    using f h [of hash] that by (auto simp: sc_def)
  show ?thesis
    using f unfolding hash_range_extended_body_def d1 d2 range_get_flags_def Let_def
      sc_def [symmetric]
    by (cases "hash_extended_proc sc") (simp_all only: prod.case option.case l u)
qed

end

section \<open>Adjacent ranges\<close>

context range_type
begin

lemma meet_not_le:
  assumes "range_cmp_bound_values tc a b = 0" and "rb_inclusive a \<noteq> rb_inclusive b"
    and "\<not> rb_lower a" and "rb_lower b"
  shows "\<not> cle (range_cmp_bounds tc) b a"
proof -
  have fin: "\<not> rb_infinite a" "\<not> rb_infinite b"
    using values_finite [of a b] assms by auto
  then have z: "cle (rng_cmp_proc tc) (rb_val a) (rb_val b)"
    using assms(1) by (simp add: range_cmp_bound_values_def zero_iff)
  show ?thesis
    unfolding cmp_bounds_le_iff using z fin assms(2-4)
    by (cases "rb_inclusive a") (simp_all add: bnd_cls_def bnd_off_def)
qed

lemma adjacent_disjoint:
  assumes ok1: "range_ok tc cb r1" and ok2: "range_ok tc cb r2"
    and adj: "range_adjacent_internal tc r1 r2 = Inr True"
  shows "range_overlaps_internal tc r1 r2 = Inr False"
    and "\<not> (range_contains_elem_internal tc r1 v \<and> range_contains_elem_internal tc r2 v)"
proof -
  obtain l1 u1 e1 where d1: "range_deserialize tc r1 = (l1, u1, e1)" by (metis prod_cases3)
  obtain l2 u2 e2 where d2: "range_deserialize tc r2 = (l2, u2, e2)" by (metis prod_cases3)
  have t: "rangetypid r1 = rangetypid r2"
    using ok1 ok2 by (simp add: ok_typid)
  have ne: "\<not> e1" "\<not> e2"
    using internal_ops_empty(8) [OF t d1 d2] adj by auto
  have d: "range_deserialize tc r1 = (l1, u1, False)" "range_deserialize tc r2 = (l2, u2, False)"
    using d1 d2 ne by simp_all
  note D1 = range_okD [OF ok1 d(1)] and D2 = range_okD [OF ok2 d(2)]
  have apart: "\<not> (cle (range_cmp_bounds tc) l1 u2 \<and> cle (range_cmp_bounds tc) l2 u1)"
    using adjacent_eq [OF ok1 ok2 d] adj meet_not_le [of u1 l2] meet_not_le [of u2 l1] D1(2,3) D2(2,3)
    by auto
  then show "range_overlaps_internal tc r1 r2 = Inr False"
    using overlaps_nonempty [OF t d] D1(6) D2(6) by simp
  show "\<not> (range_contains_elem_internal tc r1 v \<and> range_contains_elem_internal tc r2 v)"
    using apart contains_elem_iff [OF d1, of v] contains_elem_iff [OF d2, of v]
      bnd.cle_trans [of l1 "pt v" u2] bnd.cle_trans [of l2 "pt v" u1] by blast
qed

end

end
