(* ===== verification/Range_Builtin.thy ===== *)
theory Range_Builtin
  imports Range_Algebra
begin

text \<open>
  The built-in range types: element comparison, successor arithmetic, the
  canonicalization and subtype-difference functions of \<open>rangetypes.c\<close>, and the type
  cache entries that \<open>pg_range.dat\<close> describes. The last part shows that each of them
  satisfies the contract \<open>range_type\<close>, so that every generic theorem applies to it.

  A \<open>Datum\<close> is a 64-bit word; a 32-bit value is stored sign-extended.
\<close>

section \<open>Element types\<close>

definition DatumGetInt32 :: "Datum \<Rightarrow> 32 word" where
  "DatumGetInt32 X = ucast X"

definition Int32GetDatum :: "32 word \<Rightarrow> Datum" where
  "Int32GetDatum X = scast X"

definition btint4cmp :: "Datum \<Rightarrow> Datum \<Rightarrow> int" where
  "btint4cmp x y =
     (let a = sint (DatumGetInt32 x); b = sint (DatumGetInt32 y) in
      if a > b then 1 else if a = b then 0 else -1)"

definition btint8cmp :: "Datum \<Rightarrow> Datum \<Rightarrow> int" where
  "btint8cmp x y =
     (let a = sint x; b = sint y in if a > b then 1 else if a = b then 0 else -1)"

definition date_cmp :: "Datum \<Rightarrow> Datum \<Rightarrow> int" where
  "date_cmp x y =
     (let a = sint (DatumGetInt32 x); b = sint (DatumGetInt32 y) in
      if a < b then -1 else if a > b then 1 else 0)"

definition timestamp_cmp_internal :: "Datum \<Rightarrow> Datum \<Rightarrow> int" where
  "timestamp_cmp_internal dt1 dt2 =
     (if sint dt1 < sint dt2 then -1 else if sint dt1 > sint dt2 then 1 else 0)"

text \<open>Checked addition; \<open>None\<close> is the overflow result.\<close>

definition pg_add_s32_overflow :: "32 word \<Rightarrow> 32 word \<Rightarrow> 32 word option" where
  "pg_add_s32_overflow a b =
     (let res = sint a + sint b in
      if res > 2147483647 \<or> res < -2147483648 then None else Some (word_of_int res))"

definition pg_add_s64_overflow :: "64 word \<Rightarrow> 64 word \<Rightarrow> 64 word option" where
  "pg_add_s64_overflow a b =
     (let res = sint a + sint b in
      if res > 9223372036854775807 \<or> res < -9223372036854775808 then None
      else Some (word_of_int res))"

definition int4pl :: "Datum \<Rightarrow> Datum \<Rightarrow> Datum res" where
  "int4pl arg1 arg2 =
     (case pg_add_s32_overflow (DatumGetInt32 arg1) (DatumGetInt32 arg2) of
        None \<Rightarrow> Inl Integer_out_of_range
      | Some result \<Rightarrow> Inr (Int32GetDatum result))"

definition int8pl :: "Datum \<Rightarrow> Datum \<Rightarrow> Datum res" where
  "int8pl arg1 arg2 =
     (case pg_add_s64_overflow arg1 arg2 of
        None \<Rightarrow> Inl Bigint_out_of_range
      | Some result \<Rightarrow> Inr result)"

definition DATE_NOT_FINITE :: "32 word \<Rightarrow> bool" where
  "DATE_NOT_FINITE j \<longleftrightarrow> sint j = -2147483648 \<or> sint j = 2147483647"

definition IS_VALID_DATE :: "32 word \<Rightarrow> bool" where
  "IS_VALID_DATE d \<longleftrightarrow> -2451545 \<le> sint d \<and> sint d < 2147483494 - 2451545"

definition date_pli :: "Datum \<Rightarrow> Datum \<Rightarrow> Datum res" where
  "date_pli arg1 arg2 =
     (let dateVal = DatumGetInt32 arg1; days = DatumGetInt32 arg2 in
      if DATE_NOT_FINITE dateVal then Inr (Int32GetDatum dateVal)
      else let result = dateVal + days in
        if (if sint days \<ge> 0 then sint result < sint dateVal else sint result > sint dateVal)
           \<or> \<not> IS_VALID_DATE result
        then Inl Date_out_of_range
        else Inr (Int32GetDatum result))"

definition hashint4 :: "Datum \<Rightarrow> 32 word" where
  "hashint4 arg = hash_bytes_uint32 (DatumGetInt32 arg)"

definition hashint4extended :: "Datum \<Rightarrow> 64 word \<Rightarrow> 64 word" where
  "hashint4extended arg seed = hash_bytes_uint32_extended (DatumGetInt32 arg) seed"

definition hashint8 :: "Datum \<Rightarrow> 32 word" where
  "hashint8 val =
     (let lohalf = ucast val; hihalf = ucast (drop_bit 32 val);
          lohalf = lohalf XOR (if sint val \<ge> 0 then hihalf else NOT hihalf)
      in hash_bytes_uint32 lohalf)"

definition hashint8extended :: "Datum \<Rightarrow> 64 word \<Rightarrow> 64 word" where
  "hashint8extended val seed =
     (let lohalf = ucast val; hihalf = ucast (drop_bit 32 val);
          lohalf = lohalf XOR (if sint val \<ge> 0 then hihalf else NOT hihalf)
      in hash_bytes_uint32_extended lohalf seed)"

section \<open>Canonicalization\<close>

definition int4range_canonical :: "Datum TypeCacheEntry \<Rightarrow> Datum RangeType \<Rightarrow> Datum RangeType res"
  where
  "int4range_canonical typcache r =
     (case range_deserialize typcache r of (lower, upper, emp) \<Rightarrow>
        if emp then Inr r
        else
          rbind (if \<not> rb_infinite lower \<and> \<not> rb_inclusive lower
                 then rbind (int4pl (rb_val lower) (Int32GetDatum 1)) (\<lambda>v.
                   Inr (lower\<lparr>rb_val := v, rb_inclusive := True\<rparr>))
                 else Inr lower) (\<lambda>lower.
          rbind (if \<not> rb_infinite upper \<and> rb_inclusive upper
                 then rbind (int4pl (rb_val upper) (Int32GetDatum 1)) (\<lambda>v.
                   Inr (upper\<lparr>rb_val := v, rb_inclusive := False\<rparr>))
                 else Inr upper) (\<lambda>upper.
          range_serialize typcache lower upper False)))"

definition int8range_canonical :: "Datum TypeCacheEntry \<Rightarrow> Datum RangeType \<Rightarrow> Datum RangeType res"
  where
  "int8range_canonical typcache r =
     (case range_deserialize typcache r of (lower, upper, emp) \<Rightarrow>
        if emp then Inr r
        else
          rbind (if \<not> rb_infinite lower \<and> \<not> rb_inclusive lower
                 then rbind (int8pl (rb_val lower) 1) (\<lambda>v.
                   Inr (lower\<lparr>rb_val := v, rb_inclusive := True\<rparr>))
                 else Inr lower) (\<lambda>lower.
          rbind (if \<not> rb_infinite upper \<and> rb_inclusive upper
                 then rbind (int8pl (rb_val upper) 1) (\<lambda>v.
                   Inr (upper\<lparr>rb_val := v, rb_inclusive := False\<rparr>))
                 else Inr upper) (\<lambda>upper.
          range_serialize typcache lower upper False)))"

definition daterange_canonical :: "Datum TypeCacheEntry \<Rightarrow> Datum RangeType \<Rightarrow> Datum RangeType res"
  where
  "daterange_canonical typcache r =
     (case range_deserialize typcache r of (lower, upper, emp) \<Rightarrow>
        if emp then Inr r
        else
          rbind (if \<not> rb_infinite lower \<and> \<not> DATE_NOT_FINITE (DatumGetInt32 (rb_val lower)) \<and>
                    \<not> rb_inclusive lower
                 then rbind (date_pli (rb_val lower) (Int32GetDatum 1)) (\<lambda>v.
                   Inr (lower\<lparr>rb_val := v, rb_inclusive := True\<rparr>))
                 else Inr lower) (\<lambda>lower.
          rbind (if \<not> rb_infinite upper \<and> \<not> DATE_NOT_FINITE (DatumGetInt32 (rb_val upper)) \<and>
                    rb_inclusive upper
                 then rbind (date_pli (rb_val upper) (Int32GetDatum 1)) (\<lambda>v.
                   Inr (upper\<lparr>rb_val := v, rb_inclusive := False\<rparr>))
                 else Inr upper) (\<lambda>upper.
          range_serialize typcache lower upper False)))"

section \<open>Subtype differences\<close>

definition int4range_subdiff :: "Datum \<Rightarrow> Datum \<Rightarrow> float8" where
  "int4range_subdiff v1 v2 =
     f_sub (Fin (of_int (sint (DatumGetInt32 v1)))) (Fin (of_int (sint (DatumGetInt32 v2))))"

definition int8range_subdiff :: "Datum \<Rightarrow> Datum \<Rightarrow> float8" where
  "int8range_subdiff v1 v2 = f_sub (Fin (of_int (sint v1))) (Fin (of_int (sint v2)))"

definition daterange_subdiff :: "Datum \<Rightarrow> Datum \<Rightarrow> float8" where
  "daterange_subdiff v1 v2 =
     f_sub (Fin (of_int (sint (DatumGetInt32 v1)))) (Fin (of_int (sint (DatumGetInt32 v2))))"

definition tsrange_subdiff :: "Datum \<Rightarrow> Datum \<Rightarrow> float8" where
  "tsrange_subdiff v1 v2 =
     f_div (f_sub (Fin (of_int (sint v1))) (Fin (of_int (sint v2)))) (Fin 1000000)"

definition tstzrange_subdiff :: "Datum \<Rightarrow> Datum \<Rightarrow> float8" where
  "tstzrange_subdiff v1 v2 =
     f_div (f_sub (Fin (of_int (sint v1))) (Fin (of_int (sint v2)))) (Fin 1000000)"

section \<open>Type cache entries\<close>

text \<open>
  The entries are built as \<open>lookup_type_cache\<close> builds them from \<open>pg_range.dat\<close> and
  \<open>pg_type.dat\<close>. A canonicalization function runs with the entry of its own type; it
  reads the entry's type OID and comparison function only, so the entry without the
  canonicalization function stands for it in the definition.
\<close>

definition int4_elemtype :: "Datum ElemTypeEntry" where
  "int4_elemtype = \<lparr>elem_type_id = 23, hash_proc = Some hashint4,
                    hash_extended_proc = Some hashint4extended\<rparr>"

definition int8_elemtype :: "Datum ElemTypeEntry" where
  "int8_elemtype = \<lparr>elem_type_id = 20, hash_proc = Some hashint8,
                    hash_extended_proc = Some hashint8extended\<rparr>"

definition date_elemtype :: "Datum ElemTypeEntry" where
  "date_elemtype = \<lparr>elem_type_id = 1082, hash_proc = Some hashint4,
                    hash_extended_proc = Some hashint4extended\<rparr>"

definition timestamp_elemtype :: "Datum ElemTypeEntry" where
  "timestamp_elemtype = \<lparr>elem_type_id = 1114, hash_proc = Some hashint8,
                         hash_extended_proc = Some hashint8extended\<rparr>"

definition int4range_typcache :: "Datum TypeCacheEntry" where
  "int4range_typcache =
     (let e = \<lparr>type_id = 3904, rngelemtype = Some int4_elemtype, rng_cmp_proc = btint4cmp,
               rng_canonical = None, rng_subdiff = Some int4range_subdiff\<rparr>
      in e\<lparr>rng_canonical := Some (int4range_canonical e)\<rparr>)"

definition int8range_typcache :: "Datum TypeCacheEntry" where
  "int8range_typcache =
     (let e = \<lparr>type_id = 3926, rngelemtype = Some int8_elemtype, rng_cmp_proc = btint8cmp,
               rng_canonical = None, rng_subdiff = Some int8range_subdiff\<rparr>
      in e\<lparr>rng_canonical := Some (int8range_canonical e)\<rparr>)"

definition daterange_typcache :: "Datum TypeCacheEntry" where
  "daterange_typcache =
     (let e = \<lparr>type_id = 3912, rngelemtype = Some date_elemtype, rng_cmp_proc = date_cmp,
               rng_canonical = None, rng_subdiff = Some daterange_subdiff\<rparr>
      in e\<lparr>rng_canonical := Some (daterange_canonical e)\<rparr>)"

definition tsrange_typcache :: "Datum TypeCacheEntry" where
  "tsrange_typcache =
     \<lparr>type_id = 3908, rngelemtype = Some timestamp_elemtype,
      rng_cmp_proc = timestamp_cmp_internal,
      rng_canonical = None, rng_subdiff = Some tsrange_subdiff\<rparr>"

section \<open>The contract of a discrete range type\<close>

text \<open>
  The three canonicalization functions are one scheme, over the check whether a value
  has a successor and the successor function.
\<close>

definition step_bound ::
  "('a \<Rightarrow> bool) \<Rightarrow> ('a \<Rightarrow> 'a res) \<Rightarrow> 'a RangeBound \<Rightarrow> 'a RangeBound res" where
  "step_bound fin succ b =
     (if \<not> rb_infinite b \<and> fin (rb_val b) \<and> rb_inclusive b \<noteq> rb_lower b
      then rbind (succ (rb_val b)) (\<lambda>v. Inr (b\<lparr>rb_val := v, rb_inclusive := rb_lower b\<rparr>))
      else Inr b)"

definition discrete_canonical ::
  "('a \<Rightarrow> bool) \<Rightarrow> ('a \<Rightarrow> 'a res) \<Rightarrow> ('a::zero) TypeCacheEntry \<Rightarrow> 'a RangeType \<Rightarrow> 'a RangeType res"
  where
  "discrete_canonical fin succ tc r =
     (case range_deserialize tc r of (lower, upper, emp) \<Rightarrow>
        if emp then Inr r
        else rbind (step_bound fin succ lower) (\<lambda>lower.
             rbind (step_bound fin succ upper) (\<lambda>upper.
             range_serialize tc lower upper False)))"

definition discrete_canon :: "('a \<Rightarrow> bool) \<Rightarrow> 'a RangeBound \<Rightarrow> bool" where
  "discrete_canon fin b \<longleftrightarrow> rb_infinite b \<or> \<not> fin (rb_val b) \<or> rb_inclusive b = rb_lower b"

locale discrete_range = range_opclass tc for tc :: "('a::zero) TypeCacheEntry" +
  fixes key :: "'a \<Rightarrow> int" and fin :: "'a \<Rightarrow> bool" and succ :: "'a \<Rightarrow> 'a res"
  assumes cmp_key: "cle (rng_cmp_proc tc) a b \<longleftrightarrow> key a \<le> key b"
    and succ_key: "fin a \<Longrightarrow> succ a = Inr b \<Longrightarrow> key b = key a + 1"
    and canonical_eq: "rng_canonical tc = Some (discrete_canonical fin succ tc)"
begin

lemma step_bound_sel:
  assumes "step_bound fin succ b = Inr b'"
  shows "rb_lower b' = rb_lower b" and "rb_infinite b' = rb_infinite b"
    and "discrete_canon fin b'"
  using assms by (auto simp: step_bound_def discrete_canon_def split: if_splits)

lemma step_boundE:
  assumes "step_bound fin succ b = Inr b'"
  obtains "b' = b" | w where "\<not> rb_infinite b" and "rb_inclusive b \<noteq> rb_lower b"
    and "key w = key (rb_val b) + 1" and "b' = b\<lparr>rb_val := w, rb_inclusive := rb_lower b\<rparr>"
proof (cases "\<not> rb_infinite b \<and> fin (rb_val b) \<and> rb_inclusive b \<noteq> rb_lower b")
  case True
  with assms obtain w where "succ (rb_val b) = Inr w"
    and "b' = b\<lparr>rb_val := w, rb_inclusive := rb_lower b\<rparr>"
    by (auto simp: step_bound_def rbind_Inr_iff)
  with True succ_key [of "rb_val b" w] that(2) [of w] show ?thesis by simp
next
  case False
  then have "step_bound fin succ b = Inr b" by (auto simp: step_bound_def)
  with assms have "b' = b" by simp
  then show ?thesis by (rule that(1))
qed

lemma step_bound_pt:
  assumes "step_bound fin succ b = Inr b'"
  shows "rb_lower b \<Longrightarrow> cle (range_cmp_bounds tc) b' (pt v) \<longleftrightarrow> cle (range_cmp_bounds tc) b (pt v)"
    and "\<not> rb_lower b \<Longrightarrow> cle (range_cmp_bounds tc) (pt v) b' \<longleftrightarrow> cle (range_cmp_bounds tc) (pt v) b"
  by (rule step_boundE [OF assms];
      auto simp: cmp_bounds_le_iff bnd_cls_def bnd_off_def cmp_key)+

lemma step_bound_canon: "discrete_canon fin b \<Longrightarrow> step_bound fin succ b = Inr b"
  by (auto simp: step_bound_def discrete_canon_def)

lemma canon_norm: "discrete_canon fin (norm_bound b) = discrete_canon fin b"
  by (auto simp: discrete_canon_def norm_bound_def)

end

sublocale discrete_range \<subseteq> range_type tc "discrete_canon fin"
proof
  fix canonical r r' l u e
  assume c: "rng_canonical tc = Some canonical" and wf: "range_wf tc r" and ne: "\<not> RangeIsEmpty r"
    and r': "canonical r = Inr r'" and d': "range_deserialize tc r' = (l, u, e)"
  obtain l0 u0 where d: "range_deserialize tc r = (l0, u0, False)"
    using ne deserialize_fields(3) by (metis prod_cases3)
  have "canonical = discrete_canonical fin succ tc"
    using c canonical_eq by simp
  with r' obtain l1 u1 where s: "step_bound fin succ l0 = Inr l1" "step_bound fin succ u0 = Inr u1"
    "range_serialize tc l1 u1 False = Inr r'"
    by (simp add: discrete_canonical_def d) blast
  note low = deserialize_fields(1,2) [OF d]
  have low1: "rb_lower l1" "\<not> rb_lower u1"
    using step_bound_sel(1) s low by blast+
  have "e \<or> discrete_canon fin l \<and> discrete_canon fin u"
    using deserialize_serialize [OF s(3) low1] d' step_bound_sel(3) [OF s(1)]
      step_bound_sel(3) [OF s(2)]
    by (auto simp: canon_norm split: if_splits)
  moreover have "range_contains_elem_internal tc r' v = range_contains_elem_internal tc r v" for v
    using serialize_elem [OF s(3) low1, of v] contains_elem_iff [OF d, of v]
      step_bound_pt(1) [OF s(1) low(1)] step_bound_pt(2) [OF s(2) low(2)] by simp
  ultimately show "range_wf tc r' \<and> (e \<or> discrete_canon fin l \<and> discrete_canon fin u) \<and>
    (\<forall>v. range_contains_elem_internal tc r' v = range_contains_elem_internal tc r v)"
    using serialize_wf [OF s(3) low1] by blast
next
  fix canonical l u
  assume c: "rng_canonical tc = Some canonical"
    and cb: "discrete_canon fin l" "discrete_canon fin u" and low: "rb_lower l" "\<not> rb_lower u"
    and le: "cle (range_cmp_bounds tc) l u"
  have "canonical (range_repr tc l u) = range_serialize tc (norm_bound l) (norm_bound u) False"
    using c cb by (auto simp: canonical_eq discrete_canonical_def deserialize_range_repr [OF low]
        step_bound_canon canon_norm)
  also have "\<dots> = Inr (range_repr tc (norm_bound l) (norm_bound u))"
    using le cle_values [of "norm_bound l" "norm_bound u"] low by (simp add: serialize_cases)
  also have "range_repr tc (norm_bound l) (norm_bound u) = range_repr tc l u"
    by (simp add: range_repr_def norm_bound_def)
  finally show "canonical (range_repr tc l u) = Inr (range_repr tc l u)" .
qed (auto simp: canonical_eq canon_norm, auto simp: discrete_canon_def)

text \<open>
  Over a discrete type, ranges with finite bounds are equal exactly when they have the
  same elements.
\<close>

context discrete_range
begin

lemma canonical_elem:
  assumes ok: "range_ok tc (discrete_canon fin) r" and d: "range_deserialize tc r = (l, u, False)"
    and "\<not> rb_infinite l" and "\<not> rb_infinite u" and "fin (rb_val l)" and "fin (rb_val u)"
  shows "range_contains_elem_internal tc r v \<longleftrightarrow> key (rb_val l) \<le> key v \<and> key v < key (rb_val u)"
    and "key (rb_val l) < key (rb_val u)"
    and "rb_inclusive l" and "\<not> rb_inclusive u"
proof -
  note D = range_okD [OF ok d]
  show i: "rb_inclusive l" and x: "\<not> rb_inclusive u"
    using D(2-5) assms(3-6) by (simp_all add: discrete_canon_def)
  show "range_contains_elem_internal tc r v \<longleftrightarrow> key (rb_val l) \<le> key v \<and> key v < key (rb_val u)"
    unfolding contains_elem_iff [OF d] cmp_bounds_le_iff using assms(3,4) i x D(2,3)
    by (auto simp: bnd_cls_def bnd_off_def cmp_key)
  show "key (rb_val l) < key (rb_val u)"
    using D(6) unfolding cmp_bounds_le_iff using assms(3,4) i x D(2,3)
    by (auto simp: bnd_cls_def bnd_off_def cmp_key)
qed

lemma finite_bounds_eq:
  assumes "rb_lower a = rb_lower b" and "\<not> rb_infinite a" and "\<not> rb_infinite b"
    and "rb_inclusive a = rb_inclusive b"
  shows "range_cmp_bounds tc a b = 0 \<longleftrightarrow> key (rb_val a) = key (rb_val b)"
  unfolding bnd.zero_iff cmp_bounds_le_iff using assms
  by (auto simp: bnd_cls_def bnd_off_def cmp_key)

lemma canonical_elem_all:
  assumes ok: "range_ok tc (discrete_canon fin) r" and d: "range_deserialize tc r = (l, u, e)"
    and f: "e \<or> \<not> rb_infinite l \<and> \<not> rb_infinite u \<and> fin (rb_val l) \<and> fin (rb_val u)"
  shows "range_contains_elem_internal tc r v \<longleftrightarrow>
      \<not> e \<and> key (rb_val l) \<le> key v \<and> key v < key (rb_val u)"
    and "\<not> e \<Longrightarrow> key (rb_val l) < key (rb_val u)"
    and "\<not> e \<Longrightarrow> rb_inclusive l" and "\<not> e \<Longrightarrow> \<not> rb_inclusive u"
proof -
  have "\<not> e \<Longrightarrow> range_deserialize tc r = (l, u, False)" using d by simp
  note C = canonical_elem [OF ok this]
  show "range_contains_elem_internal tc r v \<longleftrightarrow>
      \<not> e \<and> key (rb_val l) \<le> key v \<and> key v < key (rb_val u)"
    using C(1) [of v] f contains_elem_iff [OF d, of v] by blast
  show "\<not> e \<Longrightarrow> key (rb_val l) < key (rb_val u)"
    and "\<not> e \<Longrightarrow> rb_inclusive l" and "\<not> e \<Longrightarrow> \<not> rb_inclusive u"
    using C(2-4) f by blast+
qed

lemma eq_keys:
  assumes ok1: "range_ok tc (discrete_canon fin) r1" and ok2: "range_ok tc (discrete_canon fin) r2"
    and d1: "range_deserialize tc r1 = (l1, u1, e1)" and d2: "range_deserialize tc r2 = (l2, u2, e2)"
    and f1: "e1 \<or> \<not> rb_infinite l1 \<and> \<not> rb_infinite u1 \<and> fin (rb_val l1) \<and> fin (rb_val u1)"
    and f2: "e2 \<or> \<not> rb_infinite l2 \<and> \<not> rb_infinite u2 \<and> fin (rb_val l2) \<and> fin (rb_val u2)"
  shows "range_eq_internal tc r1 r2 = Inr (e1 \<and> e2 \<or> \<not> e1 \<and> \<not> e2 \<and>
    key (rb_val l1) = key (rb_val l2) \<and> key (rb_val u1) = key (rb_val u2))"
proof (cases "e1 \<or> e2")
  case True
  have "rangetypid r1 = rangetypid r2"
    using ok1 ok2 by (simp add: ok_typid)
  then show ?thesis using internal_ops_empty(1) [OF _ d1 d2 True] True by auto
next
  case False
  note k1 = canonical_elem_all(3,4) [OF ok1 d1 f1] and k2 = canonical_elem_all(3,4) [OF ok2 d2 f2]
  have "range_cmp_bounds tc l1 l2 = 0 \<longleftrightarrow> key (rb_val l1) = key (rb_val l2)"
    "range_cmp_bounds tc u1 u2 = 0 \<longleftrightarrow> key (rb_val u1) = key (rb_val u2)"
    using deserialize_fields(1,2) [OF d1] deserialize_fields(1,2) [OF d2] f1 f2 k1 k2 False
    by (intro finite_bounds_eq; blast)+
  moreover have "rangetypid r1 = rangetypid r2"
    using ok1 ok2 by (simp add: ok_typid)
  ultimately show ?thesis
    using internal_ops_nonempty(1) [of r1 r2 tc l1 u1 l2 u2] d1 d2 False by simp
qed

lemma eq_extensional:
  assumes ok1: "range_ok tc (discrete_canon fin) r1" and ok2: "range_ok tc (discrete_canon fin) r2"
    and d1: "range_deserialize tc r1 = (l1, u1, e1)" and d2: "range_deserialize tc r2 = (l2, u2, e2)"
    and f1: "e1 \<or> \<not> rb_infinite l1 \<and> \<not> rb_infinite u1 \<and> fin (rb_val l1) \<and> fin (rb_val u1)"
    and f2: "e2 \<or> \<not> rb_infinite l2 \<and> \<not> rb_infinite u2 \<and> fin (rb_val l2) \<and> fin (rb_val u2)"
  shows "range_eq_internal tc r1 r2 =
    Inr (\<forall>v. range_contains_elem_internal tc r1 v = range_contains_elem_internal tc r2 v)"
proof -
  note k1 = canonical_elem_all [OF ok1 d1 f1] and k2 = canonical_elem_all [OF ok2 d2 f2]
  have "(e1 \<and> e2 \<or> \<not> e1 \<and> \<not> e2 \<and>
    key (rb_val l1) = key (rb_val l2) \<and> key (rb_val u1) = key (rb_val u2)) \<longleftrightarrow>
    (\<forall>v. range_contains_elem_internal tc r1 v = range_contains_elem_internal tc r2 v)"
  proof (intro iffI allI)
    assume H: "\<forall>v. range_contains_elem_internal tc r1 v = range_contains_elem_internal tc r2 v"
    have I: "(\<not> e1 \<and> key (rb_val l1) \<le> key (rb_val b) \<and> key (rb_val b) < key (rb_val u1)) =
      (\<not> e2 \<and> key (rb_val l2) \<le> key (rb_val b) \<and> key (rb_val b) < key (rb_val u2))" for b
      using H k1(1) [of "rb_val b"] k2(1) [of "rb_val b"] by blast
    have e: "e1 = e2"
      using I [of l1] I [of l2] k1(2) k2(2) by auto
    show "e1 \<and> e2 \<or> \<not> e1 \<and> \<not> e2 \<and>
      key (rb_val l1) = key (rb_val l2) \<and> key (rb_val u1) = key (rb_val u2)"
    proof (cases e1)
      case False
      then have lt: "key (rb_val l1) < key (rb_val u1)" "key (rb_val l2) < key (rb_val u2)"
        using k1(2) k2(2) e by simp_all
      have l: "key (rb_val l1) = key (rb_val l2)"
        using I [of l1] I [of l2] lt False e by simp
      have "key (rb_val u1) = key (rb_val u2)"
        using I [of u1] I [of u2] lt l False e by simp
      then show ?thesis using l e by blast
    qed (simp add: e)
  qed (auto simp: k1(1) k2(1))
  then show ?thesis
    using eq_keys [OF ok1 ok2 d1 d2 f1 f2] by simp
qed

end

section \<open>The built-in types satisfy the contract\<close>

lemma DatumGetInt32_Int32GetDatum [simp]: "DatumGetInt32 (Int32GetDatum x) = x"
  by (rule bit_word_eqI) (simp add: DatumGetInt32_def Int32GetDatum_def bit_simps)

lemma sint_of_bounded:
  "- (2 ^ (LENGTH('w) - 1)) \<le> i \<Longrightarrow> i < 2 ^ (LENGTH('w) - 1) \<Longrightarrow>
   sint (word_of_int i :: 'w::len word) = i"
  by (simp add: sint_sbintrunc' signed_take_bit_int_eq_self)

lemma sint_range32: "- 2147483648 \<le> sint (x :: 32 word)" "sint (x :: 32 word) \<le> 2147483647"
  using sint_ge [of x] sint_lt [of x] by simp_all

lemma sint_range64:
  "- 9223372036854775808 \<le> sint (x :: 64 word)" "sint (x :: 64 word) \<le> 9223372036854775807"
  using sint_ge [of x] sint_lt [of x] by simp_all

lemma sint_succ32: "sint (x :: 32 word) \<noteq> 2147483647 \<Longrightarrow> sint (x + 1) = sint x + 1"
  using sint_range32 [of x] sint_of_bounded [where 'w = 32, of "sint x + 1"] by simp

lemma sint_succ64: "sint (x :: 64 word) \<noteq> 9223372036854775807 \<Longrightarrow> sint (x + 1) = sint x + 1"
  using sint_range64 [of x] sint_of_bounded [where 'w = 64, of "sint x + 1"] by simp

lemma int4pl_one:
  "int4pl v (Int32GetDatum 1) =
     (if sint (DatumGetInt32 v) = 2147483647 then Inl Integer_out_of_range
      else Inr (Int32GetDatum (DatumGetInt32 v + 1)))"
  using sint_range32 [of "DatumGetInt32 v"]
  by (auto simp: int4pl_def pg_add_s32_overflow_def Let_def)

lemma int8pl_one:
  "int8pl v 1 =
     (if sint v = 9223372036854775807 then Inl Bigint_out_of_range
      else Inr (v + 1))"
  using sint_range64 [of v]
  by (auto simp: int8pl_def pg_add_s64_overflow_def Let_def)

lemma int4pl_key:
  "int4pl v (Int32GetDatum 1) = Inr w \<Longrightarrow> sint (DatumGetInt32 w) = sint (DatumGetInt32 v) + 1"
  by (auto simp: int4pl_one sint_succ32 split: if_splits)

lemma int8pl_key: "int8pl v 1 = Inr w \<Longrightarrow> sint w = sint v + 1"
  by (auto simp: int8pl_one sint_succ64 split: if_splits)

lemma date_pli_key:
  assumes "date_pli v (Int32GetDatum 1) = Inr w" and "\<not> DATE_NOT_FINITE (DatumGetInt32 v)"
  shows "sint (DatumGetInt32 w) = sint (DatumGetInt32 v) + 1"
  using assms sint_succ32 [of "DatumGetInt32 v"]
  by (auto simp: date_pli_def DATE_NOT_FINITE_def Let_def split: if_splits)


lemma sign_cmp_preorder:
  assumes "\<And>a b. c a b = (if k a < k b then -1 else if k b < k a then 1 else 0)"
  shows "cmp_preorder (c :: 'a \<Rightarrow> 'a \<Rightarrow> int)" and "cle c a b \<longleftrightarrow> (k a :: int) \<le> k b"
  by unfold_locales (auto simp: assms cle_def split: if_splits)

abbreviation int4_key :: "Datum \<Rightarrow> int" where
  "int4_key v \<equiv> sint (DatumGetInt32 v)"

lemma btint4cmp_key:
  "btint4cmp a b = (if int4_key a < int4_key b then -1 else if int4_key b < int4_key a then 1 else 0)"
  by (auto simp: btint4cmp_def Let_def)

lemma btint8cmp_key:
  "btint8cmp a b = (if sint a < sint b then -1 else if sint b < sint a then 1 else 0)"
  by (auto simp: btint8cmp_def Let_def)

lemma date_cmp_key:
  "date_cmp a b = (if int4_key a < int4_key b then -1 else if int4_key b < int4_key a then 1 else 0)"
  by (auto simp: date_cmp_def Let_def)

text \<open>A canonicalization function does not look at the entry's canonicalization function.\<close>

lemma discrete_canonical_cong:
  assumes "type_id tc = type_id tc'" and "rng_cmp_proc tc = rng_cmp_proc tc'"
  shows "discrete_canonical fin succ tc = discrete_canonical fin succ tc'"
  unfolding discrete_canonical_def range_serialize_def range_serialize_flags_def
    range_cmp_bound_values_def range_deserialize_def assms ..

lemma int4range_canonical_discrete:
  "int4range_canonical tc = discrete_canonical (\<lambda>_. True) (\<lambda>v. int4pl v (Int32GetDatum 1)) tc"
proof (rule ext)
  fix r
  obtain l u e where d: "range_deserialize tc r = (l, u, e)" by (metis prod_cases3)
  show "int4range_canonical tc r = discrete_canonical (\<lambda>_. True)
      (\<lambda>v. int4pl v (Int32GetDatum 1)) tc r"
    unfolding int4range_canonical_def discrete_canonical_def step_bound_def d
    using deserialize_fields(1,2) [OF d] by simp
qed

lemma int8range_canonical_discrete:
  "int8range_canonical tc = discrete_canonical (\<lambda>_. True) (\<lambda>v. int8pl v 1) tc"
proof (rule ext)
  fix r
  obtain l u e where d: "range_deserialize tc r = (l, u, e)" by (metis prod_cases3)
  show "int8range_canonical tc r = discrete_canonical (\<lambda>_. True)
      (\<lambda>v. int8pl v 1) tc r"
    unfolding int8range_canonical_def discrete_canonical_def step_bound_def d
    using deserialize_fields(1,2) [OF d] by simp
qed

lemma daterange_canonical_discrete:
  "daterange_canonical tc =
     discrete_canonical (\<lambda>v. \<not> DATE_NOT_FINITE (DatumGetInt32 v))
       (\<lambda>v. date_pli v (Int32GetDatum 1)) tc"
proof (rule ext)
  fix r
  obtain l u e where d: "range_deserialize tc r = (l, u, e)" by (metis prod_cases3)
  show "daterange_canonical tc r = discrete_canonical (\<lambda>v. \<not> DATE_NOT_FINITE (DatumGetInt32 v))
      (\<lambda>v. date_pli v (Int32GetDatum 1)) tc r"
    unfolding daterange_canonical_def discrete_canonical_def step_bound_def d
    using deserialize_fields(1,2) [OF d] by simp
qed

lemma int4_canonical_eq:
  "rng_canonical int4range_typcache =
     Some (discrete_canonical (\<lambda>_. True) (\<lambda>v. int4pl v (Int32GetDatum 1)) int4range_typcache)"
  unfolding int4range_canonical_discrete [symmetric]
  by (simp add: int4range_typcache_def Let_def int4range_canonical_discrete)
    (rule discrete_canonical_cong; simp)

interpretation int4: discrete_range int4range_typcache int4_key "\<lambda>_. True"
  "\<lambda>v. int4pl v (Int32GetDatum 1)"
proof -
  have c: "rng_cmp_proc int4range_typcache = btint4cmp"
    by (simp add: int4range_typcache_def Let_def)
  show "discrete_range int4range_typcache int4_key (\<lambda>_. True) (\<lambda>v. int4pl v (Int32GetDatum 1))"
    unfolding discrete_range_def discrete_range_axioms_def range_opclass_def c
    using sign_cmp_preorder [where c = btint4cmp and k = int4_key, OF btint4cmp_key] int4pl_key
      int4_canonical_eq by simp
qed

lemma int8_canonical_eq:
  "rng_canonical int8range_typcache =
     Some (discrete_canonical (\<lambda>_. True) (\<lambda>v. int8pl v 1) int8range_typcache)"
  unfolding int8range_canonical_discrete [symmetric]
  by (simp add: int8range_typcache_def Let_def int8range_canonical_discrete)
    (rule discrete_canonical_cong; simp)

interpretation int8: discrete_range int8range_typcache sint "\<lambda>_. True"
  "\<lambda>v. int8pl v 1"
proof -
  have c: "rng_cmp_proc int8range_typcache = btint8cmp"
    by (simp add: int8range_typcache_def Let_def)
  show "discrete_range int8range_typcache sint (\<lambda>_. True) (\<lambda>v. int8pl v 1)"
    unfolding discrete_range_def discrete_range_axioms_def range_opclass_def c
    using sign_cmp_preorder [where c = btint8cmp and k = sint, OF btint8cmp_key] int8pl_key
      int8_canonical_eq by simp
qed

lemma date_canonical_eq:
  "rng_canonical daterange_typcache =
     Some (discrete_canonical (\<lambda>v. \<not> DATE_NOT_FINITE (DatumGetInt32 v)) (\<lambda>v. date_pli v (Int32GetDatum 1)) daterange_typcache)"
  unfolding daterange_canonical_discrete [symmetric]
  by (simp add: daterange_typcache_def Let_def daterange_canonical_discrete)
    (rule discrete_canonical_cong; simp)

interpretation dater: discrete_range daterange_typcache int4_key "\<lambda>v. \<not> DATE_NOT_FINITE (DatumGetInt32 v)"
  "\<lambda>v. date_pli v (Int32GetDatum 1)"
proof -
  have c: "rng_cmp_proc daterange_typcache = date_cmp"
    by (simp add: daterange_typcache_def Let_def)
  show "discrete_range daterange_typcache int4_key (\<lambda>v. \<not> DATE_NOT_FINITE (DatumGetInt32 v)) (\<lambda>v. date_pli v (Int32GetDatum 1))"
    unfolding discrete_range_def discrete_range_axioms_def range_opclass_def c
    using sign_cmp_preorder [where c = date_cmp and k = int4_key, OF date_cmp_key] date_pli_key
      date_canonical_eq by simp
qed

interpretation tsr: range_type tsrange_typcache "\<lambda>_. True"
proof -
  have "cmp_preorder timestamp_cmp_internal"
    by (rule sign_cmp_preorder(1) [where k = sint]) (simp add: timestamp_cmp_internal_def)
  then show "range_type tsrange_typcache (\<lambda>_. True)"
    by (simp add: range_type_def range_type_axioms_def range_opclass_def tsrange_typcache_def)
qed

section \<open>Overflow of the canonical form\<close>

context discrete_range
begin

lemma step_bound_error:
  "step_bound fin succ b = Inl x \<longleftrightarrow>
     \<not> rb_infinite b \<and> fin (rb_val b) \<and> rb_inclusive b \<noteq> rb_lower b \<and> succ (rb_val b) = Inl x"
  unfolding step_bound_def
  by (cases "\<not> rb_infinite b \<and> fin (rb_val b) \<and> rb_inclusive b \<noteq> rb_lower b")
    (auto simp: rbind_Inl_iff)

lemma canonical_bounds_le:
  assumes "step_bound fin succ l = Inr l'" and "step_bound fin succ u = Inr u'"
    and "rb_lower l" and "\<not> rb_lower u" and "cle (range_cmp_bounds tc) l u"
  shows "range_cmp_bound_values tc l' u' \<le> 0"
proof (cases "rb_infinite l \<or> rb_infinite u")
  case True
  then show ?thesis
    using step_bound_sel(1,2) [OF assms(1)] step_bound_sel(1,2) [OF assms(2)] assms(3,4)
    by (auto simp: range_cmp_bound_values_def)
next
  case False
  have le: "key (rb_val l) \<le> key (rb_val u)"
    and lt: "\<not> rb_inclusive l \<Longrightarrow> key (rb_val l) < key (rb_val u)"
    using assms(3-5) False unfolding cmp_bounds_le_iff
    by (auto simp: bnd_cls_def bnd_off_def cmp_key split: if_splits)
  have "key (rb_val l') \<le> key (rb_val u)"
    by (rule step_boundE [OF assms(1)]) (use le lt assms(3) in auto)
  also have "\<dots> \<le> key (rb_val u')"
    by (rule step_boundE [OF assms(2)]) auto
  finally show ?thesis
    using False step_bound_sel(2) [OF assms(1)] step_bound_sel(2) [OF assms(2)]
    by (simp add: range_cmp_bound_values_def nonpos_iff cmp_key)
qed

lemma make_range_error:
  assumes "rb_lower l" and "\<not> rb_lower u"
  shows "make_range tc l u False = Inl x \<longleftrightarrow>
    (if range_cmp_bound_values tc l u > 0 then x = Lower_bound_above_upper
     else cle (range_cmp_bounds tc) l u \<and>
       (step_bound fin succ l = Inl x \<or>
        (\<exists>l'. step_bound fin succ l = Inr l') \<and> step_bound fin succ u = Inl x))"
proof (cases "range_cmp_bound_values tc l u > 0 \<or> \<not> cle (range_cmp_bounds tc) l u")
  case True
  then show ?thesis
    using assms by (auto simp: make_range_def serialize_cases canonical_eq)
next
  case False
  have norm: "step_bound fin succ (norm_bound b) = rbind (step_bound fin succ b) (\<lambda>b. Inr (norm_bound b))"
    for b by (auto simp: step_bound_def norm_bound_def rbind_def split: sum.split)
  have m: "make_range tc l u False =
    rbind (step_bound fin succ (norm_bound l)) (\<lambda>l'.
    rbind (step_bound fin succ (norm_bound u)) (\<lambda>u'. range_serialize tc l' u' False))"
    using assms False
    by (simp add: make_range_def serialize_cases canonical_eq discrete_canonical_def
        deserialize_range_repr)
  have s: "range_serialize tc l' u' False \<noteq> Inl x"
    if "step_bound fin succ (norm_bound l) = Inr l'" "step_bound fin succ (norm_bound u) = Inr u'" for l' u'
    using canonical_bounds_le [OF that] step_bound_sel(1) [OF that(1)] step_bound_sel(1) [OF that(2)]
      serialize_error_iff [of l' u' False x] assms False by simp
  show ?thesis
    using False s unfolding m norm
    by (cases "step_bound fin succ l"; cases "step_bound fin succ u") auto
qed

end

end
