(* ===== verification/Range_Core.thy ===== *)
theory Range_Core
  imports Range_Builtin
begin

text \<open>
  The properties of range values and of the generic operations of \<open>rangetypes.c\<close>,
  for every range type whose support functions obey their contracts. The witnesses
  are values of the built-in types.
\<close>

section \<open>Sample values\<close>

definition int4_bound :: "int \<Rightarrow> bool \<Rightarrow> bool \<Rightarrow> Datum RangeBound" where
  "int4_bound a inc low =
     \<lparr>rb_val = word_of_int a, rb_infinite = False, rb_inclusive = inc, rb_lower = low\<rparr>"

definition int4_rng :: "int \<Rightarrow> int \<Rightarrow> Datum RangeType" where
  "int4_rng a b = range_repr int4range_typcache (int4_bound a True True) (int4_bound b False False)"

abbreviation int4_cb :: "Datum RangeBound \<Rightarrow> bool" where
  "int4_cb \<equiv> discrete_canon (\<lambda>_. True)"

definition int4_lookup :: "Datum lookup" where
  "int4_lookup oid = (if oid = 3904 then int4range_typcache
     else int4range_typcache\<lparr>type_id := oid, rngelemtype := None\<rparr>)"

section \<open>Storage\<close>

text \<open>
  C4. Storing two bounds with \<open>range_serialize\<close> fails exactly when the range is not
  flagged empty and the lower value is above the upper one. Otherwise the stored value
  is well-formed and \<open>range_deserialize\<close> returns the empty range when it was flagged
  empty or the bounds enclose nothing, and else the same bounds (an infinite bound
  loses its value and its inclusive flag).
\<close>

theorem range_serialize_deserialize:
  assumes "range_opclass tc" and "rb_lower l" and "\<not> rb_lower u"
  shows "case range_serialize tc l u e of
      Inl x \<Rightarrow> \<not> e \<and> range_cmp_bound_values tc l u > 0 \<and> x = Lower_bound_above_upper
    | Inr r \<Rightarrow> (e \<or> range_cmp_bound_values tc l u \<le> 0) \<and> range_wf tc r \<and>
        range_deserialize tc r =
          (if e \<or> range_cmp_bounds tc l u > 0 then (empty_bound True, empty_bound False, True)
           else (norm_bound l, norm_bound u, False))"
proof (cases "range_serialize tc l u e")
  case (Inl x)
  then show ?thesis
    using range_opclass.serialize_error_iff [OF assms, of e x] by simp
next
  case (Inr r)
  have "\<not> (\<not> e \<and> range_cmp_bound_values tc l u > 0)"
    using range_opclass.serialize_error_iff [OF assms, of e Lower_bound_above_upper] Inr by auto
  then show ?thesis
    using range_opclass.deserialize_serialize [OF assms(1) Inr assms(2,3)]
      range_opclass.serialize_wf [OF assms(1) Inr assms(2,3)] Inr
    by (auto simp: cle_def)
qed

theorem range_serialize_deserialize_witness:
  "range_serialize int4range_typcache (int4_bound 3 False True) (int4_bound 7 True False) False
     = Inr \<lparr>rangetypid = 3904, rbounds = [3, 7], rflags = RANGE_UB_INC\<rparr> \<and>
   range_deserialize int4range_typcache \<lparr>rangetypid = 3904, rbounds = [3, 7], rflags = RANGE_UB_INC\<rparr>
     = (int4_bound 3 False True, int4_bound 7 True False, False)"
proof -
  have s: "range_serialize int4range_typcache (int4_bound 3 False True) (int4_bound 7 True False) False
     = Inr \<lparr>rangetypid = 3904, rbounds = [3, 7], rflags = RANGE_UB_INC\<rparr>"
    by code_simp
  have n: "\<not> range_cmp_bounds int4range_typcache (int4_bound 3 False True) (int4_bound 7 True False) > 0"
    by code_simp
  show ?thesis
    using range_serialize_deserialize [OF int4.range_opclass_axioms, of "int4_bound 3 False True"
        "int4_bound 7 True False" False] s n
    by (simp add: int4_bound_def)
qed

text \<open>
  C5. A well-formed stored range is rebuilt exactly by storing its own bounds again:
  \<open>range_serialize\<close> inverts \<open>range_deserialize\<close>.
\<close>

theorem range_deserialize_serialize:
  assumes "range_opclass tc" and "range_wf tc r" and "range_deserialize tc r = (l, u, e)"
  shows "range_serialize tc l u e = Inr r"
  using assms by (rule range_opclass.serialize_deserialize)

theorem range_deserialize_serialize_witness:
  "range_serialize int4range_typcache (int4_bound 1 True True) (int4_bound 10 False False) False
     = Inr (int4_rng 1 10)"
proof -
  have "range_wf int4range_typcache (int4_rng 1 10)"
    and "range_deserialize int4range_typcache (int4_rng 1 10) =
      (int4_bound 1 True True, int4_bound 10 False False, False)"
    by code_simp+
  then show ?thesis
    by (rule range_deserialize_serialize [OF int4.range_opclass_axioms])
qed

text \<open>
  C6. What \<open>make_range\<close> builds is well-formed, its bounds are in the canonical form of
  the type, and its elements are exactly the values between the given bounds.
\<close>

theorem make_range_elements:
  assumes "range_type tc cb" and "make_range tc l u e = Inr r" and "rb_lower l" and "\<not> rb_lower u"
  shows "range_ok tc cb r \<and> (range_contains_elem_internal tc r v \<longleftrightarrow>
      \<not> e \<and> cle (range_cmp_bounds tc) l (pt v) \<and> cle (range_cmp_bounds tc) (pt v) u)"
  using range_type.make_range_ok [OF assms] by blast

theorem make_range_elements_witness:
  "make_range int4range_typcache (int4_bound 2 False True) (int4_bound 7 True False) False
     = Inr (int4_rng 3 8) \<and> range_ok int4range_typcache int4_cb (int4_rng 3 8) \<and>
   range_contains_elem_internal int4range_typcache (int4_rng 3 8) 7"
proof -
  have m: "make_range int4range_typcache (int4_bound 2 False True) (int4_bound 7 True False) False
     = Inr (int4_rng 3 8)"
    by code_simp
  have b: "rb_lower (int4_bound 2 False True)" "\<not> rb_lower (int4_bound 7 True False)"
    by (simp_all add: int4_bound_def)
  have "cle (range_cmp_bounds int4range_typcache) (int4_bound 2 False True) (pt 7)"
    "cle (range_cmp_bounds int4range_typcache) (pt 7) (int4_bound 7 True False)"
    by code_simp+
  then show ?thesis
    using make_range_elements [OF int4.range_type_axioms m b] m by blast
qed

section \<open>Order and comparison operators\<close>

lemma ok_ranges:
  "range_ok int4range_typcache int4_cb (int4_rng 1 10)"
  "range_ok int4range_typcache int4_cb (int4_rng 5 20)"
  "range_ok int4range_typcache int4_cb (int4_rng 10 30)"
  "range_ok int4range_typcache int4_cb (int4_rng 1 30)"
  by code_simp+

lemma int4_lookup_found: "typcache_found int4_lookup None int4range_typcache"
  by (simp add: typcache_found_def int4_lookup_def int4range_typcache_def Let_def)

lemma ok_wf: "range_ok tc cb r \<Longrightarrow> range_wf tc r"
  by (simp add: range_ok_def)

text \<open>
  C7. \<open>range_cmp\<close> is a total preorder of the values of a range type, \<open>range_eq\<close> holds
  exactly where it is zero, and \<open>range_lt\<close>, \<open>range_le\<close>, \<open>range_ge\<close> and \<open>range_gt\<close>
  return its sign.
\<close>

theorem range_cmp_order:
  assumes "range_opclass tc" and "typcache_found lk fx tc"
    and "rangetypid r1 = type_id tc" and "rangetypid r2 = type_id tc" and "rangetypid r3 = type_id tc"
  shows "\<exists>c12 c21 c23 c13.
    range_cmp lk fx r1 r2 = Inr (c12, Some tc) \<and> range_cmp lk fx r2 r1 = Inr (c21, Some tc) \<and>
    range_cmp lk fx r2 r3 = Inr (c23, Some tc) \<and> range_cmp lk fx r1 r3 = Inr (c13, Some tc) \<and>
    (c12 < 0 \<longleftrightarrow> c21 > 0) \<and> (c12 \<le> 0 \<and> c23 \<le> 0 \<longrightarrow> c13 \<le> 0) \<and>
    range_eq lk fx r1 r2 = Inr (c12 = 0, Some tc) \<and> range_lt lk fx r1 r2 = Inr (c12 < 0, Some tc) \<and>
    range_le lk fx r1 r2 = Inr (c12 \<le> 0, Some tc) \<and> range_ge lk fx r1 r2 = Inr (c12 \<ge> 0, Some tc) \<and>
    range_gt lk fx r1 r2 = Inr (c12 > 0, Some tc)"
  using assms(2-5) range_opclass.cmp_body_order(1) [OF assms(1), of r1 r2]
    range_opclass.cmp_body_order(2) [OF assms(1), of r1 r2 r3]
  by (simp add: range_cmp_def range_eq_def range_lt_def range_le_def range_ge_def range_gt_def
      range_opclass.eq_iff_cmp [OF assms(1)])

theorem range_cmp_order_witness:
  "range_lt int4_lookup None (int4_rng 1 10) (int4_rng 5 20) = Inr (True, Some int4range_typcache) \<and>
   range_eq int4_lookup None (int4_rng 1 10) (int4_rng 5 20) = Inr (False, Some int4range_typcache)"
proof -
  have c: "range_cmp int4_lookup None (int4_rng 1 10) (int4_rng 5 20) =
    Inr (-1, Some int4range_typcache)"
    by (simp add: range_cmp_def int4_lookup_found int4.ok_typid [OF ok_ranges(1)]
        int4.ok_typid [OF ok_ranges(2)]) code_simp
  show ?thesis
    using range_cmp_order [OF int4.range_opclass_axioms int4_lookup_found
        int4.ok_typid [OF ok_ranges(1)] int4.ok_typid [OF ok_ranges(2)]
        int4.ok_typid [OF ok_ranges(3)]] c by auto
qed

text \<open>
  C8. Of two non-empty ranges of a type exactly one holds: the first is strictly left
  of the second, they overlap, or the first is strictly right of the second; and they
  overlap exactly when each lower bound is not above the other's upper bound.
\<close>

theorem before_overlaps_after:
  assumes "range_opclass tc" and "typcache_found lk fx tc"
    and "range_wf tc r1" and "range_wf tc r2"
    and "range_deserialize tc r1 = (l1, u1, False)" and "range_deserialize tc r2 = (l2, u2, False)"
  shows "\<exists>b p a. range_before lk fx r1 r2 = Inr (b, Some tc) \<and>
    range_overlaps lk fx r1 r2 = Inr (p, Some tc) \<and> range_after lk fx r1 r2 = Inr (a, Some tc) \<and>
    of_bool b + of_bool p + of_bool a = (1::nat) \<and>
    (p \<longleftrightarrow> cle (range_cmp_bounds tc) l1 u2 \<and> cle (range_cmp_bounds tc) l2 u1)"
proof -
  have t: "rangetypid r1 = type_id tc" "rangetypid r2 = type_id tc"
    using assms(3,4) by (simp_all add: wf_typid)
  have ne: "\<not> RangeIsEmpty r1" "\<not> RangeIsEmpty r2"
    using assms(5,6) deserialize_fields(3) by blast+
  have ov: "range_overlaps_internal tc r1 r2 =
    Inr (cle (range_cmp_bounds tc) l1 u2 \<and> cle (range_cmp_bounds tc) l2 u1)"
    using range_opclass.overlaps_nonempty [OF assms(1) _ assms(5,6)] t
      range_opclass.wf_le [OF assms(1,3,5)] range_opclass.wf_le [OF assms(1,4,6)] by simp
  from range_opclass.trichotomy [OF assms(1,3,4) ne] obtain b p a
    where "range_before_internal tc r1 r2 = Inr b" "range_overlaps_internal tc r1 r2 = Inr p"
      "range_after_internal tc r1 r2 = Inr a" and
      "b \<and> \<not> p \<and> \<not> a \<or> \<not> b \<and> p \<and> \<not> a \<or> \<not> b \<and> \<not> p \<and> a" .
  then show ?thesis
    using assms(2) t ov by (auto simp: range_before_def range_overlaps_def range_after_def)
qed

theorem before_overlaps_after_witness:
  "range_overlaps int4_lookup None (int4_rng 1 10) (int4_rng 5 20) = Inr (True, Some int4range_typcache)"
proof -
  have d: "range_deserialize int4range_typcache (int4_rng 1 10) =
      (int4_bound 1 True True, int4_bound 10 False False, False)"
    "range_deserialize int4range_typcache (int4_rng 5 20) =
      (int4_bound 5 True True, int4_bound 20 False False, False)"
    by code_simp+
  have "cle (range_cmp_bounds int4range_typcache) (int4_bound 1 True True) (int4_bound 20 False False)"
    "cle (range_cmp_bounds int4range_typcache) (int4_bound 5 True True) (int4_bound 10 False False)"
    by code_simp+
  then show ?thesis
    using before_overlaps_after [OF int4.range_opclass_axioms int4_lookup_found
        ok_wf [OF ok_ranges(1)] ok_wf [OF ok_ranges(2)] d] by auto
qed

text \<open>
  C9. Containment of ranges is inclusion of their elements, and two ranges are equal
  exactly when each contains the other; equal ranges have the same elements.
\<close>

theorem range_contains_elements:
  assumes "range_opclass tc" and "typcache_found lk fx tc"
    and "rangetypid r1 = type_id tc" and "rangetypid r2 = type_id tc"
  shows "\<exists>c12 c21. range_contains lk fx r1 r2 = Inr (c12, Some tc) \<and>
    range_contained_by lk fx r1 r2 = Inr (c21, Some tc) \<and>
    range_eq lk fx r1 r2 = Inr (c12 \<and> c21, Some tc) \<and>
    (c12 \<longrightarrow> (\<forall>v. range_contains_elem_internal tc r2 v \<longrightarrow> range_contains_elem_internal tc r1 v))"
proof -
  have t: "rangetypid r1 = rangetypid r2" using assms(3,4) by simp
  obtain c12 c21 q where "range_contains_internal tc r1 r2 = Inr c12"
    "range_contains_internal tc r2 r1 = Inr c21" "range_eq_internal tc r1 r2 = Inr q"
    using internal_defined [OF t] internal_defined [OF t [symmetric]] by metis
  then show ?thesis
    using assms(2-4) range_opclass.contains_antisym [OF assms(1) t]
      range_opclass.contains_elems [OF assms(1) t]
    by (auto simp: range_contains_def range_contained_by_def range_contained_by_internal_def
        range_eq_def)
qed

theorem range_contains_elements_witness:
  "range_contains int4_lookup None (int4_rng 1 30) (int4_rng 5 20) = Inr (True, Some int4range_typcache) \<and>
   range_contains_elem_internal int4range_typcache (int4_rng 1 30) 7"
proof -
  have c: "range_contains int4_lookup None (int4_rng 1 30) (int4_rng 5 20) =
    Inr (True, Some int4range_typcache)"
    by (simp add: range_contains_def int4_lookup_found int4.ok_typid [OF ok_ranges(4)]
        rbind_Inr_iff) code_simp
  have "range_contains_elem_internal int4range_typcache (int4_rng 5 20) 7"
    by code_simp
  then show ?thesis
    using range_contains_elements [OF int4.range_opclass_axioms int4_lookup_found
        int4.ok_typid [OF ok_ranges(4)] int4.ok_typid [OF ok_ranges(2)]] c by auto
qed

section \<open>Set operations\<close>

text \<open>
  C1. \<open>range_union\<close> of two stored ranges of a type returns a stored range whose
  elements are those of either argument, and raises its error exactly when both are
  non-empty and they neither overlap nor are adjacent.
\<close>

theorem range_union_elements:
  assumes "range_type tc cb" and "typcache_found lk fx tc"
    and "range_ok tc cb r1" and "range_ok tc cb r2"
  shows "case range_union lk fx r1 r2 of
      Inl x \<Rightarrow> x = Union_not_contiguous \<and> \<not> RangeIsEmpty r1 \<and> \<not> RangeIsEmpty r2 \<and>
        range_overlaps lk fx r1 r2 = Inr (False, Some tc) \<and>
        range_adjacent lk fx r1 r2 = Inr (False, Some tc)
    | Inr (r, fx') \<Rightarrow> fx' = Some tc \<and> range_ok tc cb r \<and>
        (RangeIsEmpty r1 \<or> RangeIsEmpty r2 \<or> range_overlaps lk fx r1 r2 = Inr (True, Some tc) \<or>
         range_adjacent lk fx r1 r2 = Inr (True, Some tc)) \<and>
        (\<forall>v. range_contains_elem_internal tc r v \<longleftrightarrow>
          range_contains_elem_internal tc r1 v \<or> range_contains_elem_internal tc r2 v)"
proof -
  have t: "rangetypid r1 = type_id tc"
    using range_type.ok_typid [OF assms(1,3)] .
  obtain ov adj where o: "range_overlaps_internal tc r1 r2 = Inr ov"
    and a: "range_adjacent_internal tc r1 r2 = Inr adj"
    and s: "range_union_internal tc r1 r2 True =
      (if RangeIsEmpty r1 \<or> RangeIsEmpty r2 \<or> ov \<or> adj then range_union_internal tc r1 r2 False
       else Inl Union_not_contiguous)"
    by (rule range_type.union_strict [OF assms(1,3,4)])
  obtain m where m: "range_union_internal tc r1 r2 False = Inr m"
    by (rule range_type.merge_least [OF assms(1,3,4,3)])
  show ?thesis
    using assms(2) t o a s m range_type.union_elems [OF assms(1,3,4), of m]
    by (auto simp: range_union_def range_overlaps_def range_adjacent_def)
qed

theorem range_union_elements_witness:
  "range_union int4_lookup None (int4_rng 1 10) (int4_rng 10 30) =
     Inr (int4_rng 1 30, Some int4range_typcache) \<and>
   range_contains_elem_internal int4range_typcache (int4_rng 1 30) 20"
proof -
  have u: "range_union int4_lookup None (int4_rng 1 10) (int4_rng 10 30) =
     Inr (int4_rng 1 30, Some int4range_typcache)"
    by (simp add: range_union_def int4_lookup_found int4.ok_typid [OF ok_ranges(1)]
        rbind_Inr_iff) code_simp
  have "range_contains_elem_internal int4range_typcache (int4_rng 10 30) 20"
    by code_simp
  then show ?thesis
    using range_union_elements [OF int4.range_type_axioms int4_lookup_found ok_ranges(1,3)] u
    by auto
qed

text \<open>
  C3. \<open>range_intersect\<close> of two stored ranges of a type never fails and returns a stored
  range whose elements are those of both arguments.
\<close>

theorem range_intersect_elements:
  assumes "range_type tc cb" and "typcache_found lk fx tc"
    and "range_ok tc cb r1" and "range_ok tc cb r2"
  shows "\<exists>r. range_intersect lk fx r1 r2 = Inr (r, Some tc) \<and> range_ok tc cb r \<and>
    (\<forall>v. range_contains_elem_internal tc r v \<longleftrightarrow>
      range_contains_elem_internal tc r1 v \<and> range_contains_elem_internal tc r2 v)"
  by (rule range_type.intersect_ok [OF assms]) blast

theorem range_intersect_elements_witness:
  "\<exists>r. range_intersect int4_lookup None (int4_rng 1 10) (int4_rng 5 20) =
       Inr (r, Some int4range_typcache) \<and>
     range_contains_elem_internal int4range_typcache r 7 \<and>
     \<not> range_contains_elem_internal int4range_typcache r 3"
proof -
  have "range_contains_elem_internal int4range_typcache (int4_rng 1 10) 7"
    "range_contains_elem_internal int4range_typcache (int4_rng 5 20) 7"
    "\<not> range_contains_elem_internal int4range_typcache (int4_rng 5 20) 3"
    by code_simp+
  then show ?thesis
    using range_intersect_elements [OF int4.range_type_axioms int4_lookup_found ok_ranges(1,2)]
    by blast
qed

text \<open>
  C2. \<open>range_minus\<close> of two stored ranges of a type returns a stored range whose elements
  are those of the first argument that are not in the second, and fails exactly when
  the second lies strictly inside the first, with the "not contiguous" error; the
  "unexpected case" error is never raised.
\<close>

theorem range_minus_elements:
  assumes "range_type tc cb" and "typcache_found lk fx tc"
    and "range_ok tc cb r1" and "range_ok tc cb r2"
    and "range_deserialize tc r1 = (l1, u1, e1)" and "range_deserialize tc r2 = (l2, u2, e2)"
  shows "case range_minus lk fx r1 r2 of
      Inl x \<Rightarrow> x = Difference_not_contiguous \<and> \<not> e1 \<and> \<not> e2 \<and>
        range_cmp_bounds tc l1 l2 < 0 \<and> range_cmp_bounds tc u1 u2 > 0
    | Inr (r, fx') \<Rightarrow> fx' = Some tc \<and> range_ok tc cb r \<and>
        \<not> (\<not> e1 \<and> \<not> e2 \<and> range_cmp_bounds tc l1 l2 < 0 \<and> range_cmp_bounds tc u1 u2 > 0) \<and>
        (\<forall>v. range_contains_elem_internal tc r v \<longleftrightarrow>
          range_contains_elem_internal tc r1 v \<and> \<not> range_contains_elem_internal tc r2 v)"
proof -
  have t: "rangetypid r1 = type_id tc" "rangetypid r2 = type_id tc"
    using range_type.ok_typid [OF assms(1,3)] range_type.ok_typid [OF assms(1,4)] by auto
  note err = range_type.minus_error [OF assms(1,3-6)]
  show ?thesis
  proof (cases "range_minus_body tc r1 r2")
    case (Inl x)
    then show ?thesis using assms(2) t err [of x] by (simp add: range_minus_def)
  next
    case (Inr r)
    then show ?thesis
      using assms(2) t err [of Difference_not_contiguous] range_type.minus_elems [OF assms(1,3,4) Inr]
      by (simp add: range_minus_def)
  qed
qed

theorem range_minus_elements_witness:
  "range_minus int4_lookup None (int4_rng 1 10) (int4_rng 5 20) =
     Inr (int4_rng 1 5, Some int4range_typcache) \<and>
   \<not> range_contains_elem_internal int4range_typcache (int4_rng 1 5) 7"
proof -
  have m: "range_minus int4_lookup None (int4_rng 1 10) (int4_rng 5 20) =
     Inr (int4_rng 1 5, Some int4range_typcache)"
    by (simp add: range_minus_def int4_lookup_found int4.ok_typid [OF ok_ranges(1)]
        int4.ok_typid [OF ok_ranges(2)] rbind_Inr_iff) code_simp
  have d: "range_deserialize int4range_typcache (int4_rng 1 10) =
      (int4_bound 1 True True, int4_bound 10 False False, False)"
    "range_deserialize int4range_typcache (int4_rng 5 20) =
      (int4_bound 5 True True, int4_bound 20 False False, False)"
    by code_simp+
  have "range_contains_elem_internal int4range_typcache (int4_rng 5 20) 7"
    by code_simp
  then show ?thesis
    using range_minus_elements [OF int4.range_type_axioms int4_lookup_found ok_ranges(1,2) d] m
    by auto
qed

text \<open>
  C10. \<open>range_merge\<close> never fails on stored ranges of a type, and returns the least range
  that contains both arguments.
\<close>

theorem range_merge_least:
  assumes "range_type tc cb" and "typcache_found lk fx tc"
    and "range_ok tc cb r1" and "range_ok tc cb r2" and "range_ok tc cb r3"
  shows "\<exists>r. range_merge lk fx r1 r2 = Inr (r, Some tc) \<and> range_ok tc cb r \<and>
    range_contains_internal tc r r1 = Inr True \<and> range_contains_internal tc r r2 = Inr True \<and>
    (range_contains_internal tc r3 r1 = Inr True \<and> range_contains_internal tc r3 r2 = Inr True \<longrightarrow>
     range_contains_internal tc r3 r = Inr True)"
proof -
  have t: "rangetypid r1 = type_id tc"
    using range_type.ok_typid [OF assms(1,3)] .
  obtain r where "range_union_internal tc r1 r2 False = Inr r" "range_ok tc cb r"
    "range_contains_internal tc r r1 = Inr True" "range_contains_internal tc r r2 = Inr True"
    "range_contains_internal tc r3 r1 = Inr True \<Longrightarrow> range_contains_internal tc r3 r2 = Inr True
      \<Longrightarrow> range_contains_internal tc r3 r = Inr True"
    using range_type.merge_least [OF assms(1,3-5)] by blast
  then show ?thesis
    using assms(2) t by (simp add: range_merge_def)
qed

theorem range_merge_least_witness:
  "range_merge int4_lookup None (int4_rng 1 10) (int4_rng 5 20) =
     Inr (int4_rng 1 20, Some int4range_typcache) \<and>
   range_contains_internal int4range_typcache (int4_rng 1 30) (int4_rng 1 20) = Inr True"
proof -
  have m: "range_merge int4_lookup None (int4_rng 1 10) (int4_rng 5 20) =
     Inr (int4_rng 1 20, Some int4range_typcache)"
    by (simp add: range_merge_def int4_lookup_found int4.ok_typid [OF ok_ranges(1)]
        rbind_Inr_iff) code_simp
  have "range_contains_internal int4range_typcache (int4_rng 1 30) (int4_rng 1 10) = Inr True"
    "range_contains_internal int4range_typcache (int4_rng 1 30) (int4_rng 5 20) = Inr True"
    by code_simp+
  then show ?thesis
    using range_merge_least [OF int4.range_type_axioms int4_lookup_found ok_ranges(1,2,4)] m
    by auto
qed

text \<open>
  C11. Two adjacent ranges do not overlap and share no element, and their union is
  contiguous: \<open>range_union\<close> succeeds on them.
\<close>

theorem range_adjacent_union:
  assumes "range_type tc cb" and "typcache_found lk fx tc"
    and "range_ok tc cb r1" and "range_ok tc cb r2"
    and "range_adjacent lk fx r1 r2 = Inr (True, Some tc)"
  shows "range_overlaps lk fx r1 r2 = Inr (False, Some tc) \<and>
    (\<forall>v. \<not> (range_contains_elem_internal tc r1 v \<and> range_contains_elem_internal tc r2 v)) \<and>
    (\<exists>r. range_union lk fx r1 r2 = Inr (r, Some tc))"
proof -
  have t: "rangetypid r1 = type_id tc"
    using range_type.ok_typid [OF assms(1,3)] .
  then have a: "range_adjacent_internal tc r1 r2 = Inr True"
    using assms(2,5) by (auto simp: range_adjacent_def rbind_Inr_iff)
  obtain r where "range_union_internal tc r1 r2 False = Inr r"
    by (rule range_type.merge_least [OF assms(1,3,4,3)])
  then have "range_union_internal tc r1 r2 True = Inr r"
    using a by (rule_tac range_type.union_strict [OF assms(1,3,4)]) simp
  then show ?thesis
    using range_type.adjacent_disjoint [OF assms(1,3,4) a] assms(2) t
    by (simp add: range_overlaps_def range_union_def)
qed

theorem range_adjacent_union_witness:
  "range_overlaps int4_lookup None (int4_rng 1 10) (int4_rng 10 30) = Inr (False, Some int4range_typcache)"
proof -
  have "range_adjacent int4_lookup None (int4_rng 1 10) (int4_rng 10 30) =
    Inr (True, Some int4range_typcache)"
    by (simp add: range_adjacent_def int4_lookup_found int4.ok_typid [OF ok_ranges(1)]
        rbind_Inr_iff) code_simp
  then show ?thesis
    using range_adjacent_union [OF int4.range_type_axioms int4_lookup_found ok_ranges(1,3)] by blast
qed

section \<open>Hashing\<close>

text \<open>
  C12. Equal ranges have equal hash codes, plain and extended, when the element type's
  hash functions respect its comparison function.
\<close>

theorem hash_range_respects_eq:
  assumes "range_opclass tc" and "typcache_found lk fx tc"
    and "range_wf tc r1" and "range_wf tc r2"
    and "range_eq lk fx r1 r2 = Inr (True, Some tc)"
    and "rngelemtype tc = Some el" and "hash_proc el = Some h" and "hash_extended_proc el = Some hx"
    and "\<forall>a b s. rng_cmp_proc tc a b = 0 \<longrightarrow> h a = h b \<and> hx a s = hx b s"
  shows "hash_range lkh lk fx r1 = hash_range lkh lk fx r2 \<and>
    hash_range_extended lkh lk fx r1 seed = hash_range_extended lkh lk fx r2 seed"
proof -
  have t: "rangetypid r1 = type_id tc" "rangetypid r2 = type_id tc"
    using assms(3,4) by (simp_all add: wf_typid)
  then have e: "range_eq_internal tc r1 r2 = Inr True"
    using assms(2,5) by (auto simp: range_eq_def rbind_Inr_iff)
  have "hash_range_body lkh tc el r1 = hash_range_body lkh tc el r2"
    using assms(7,9) by (intro range_opclass.hash_respects_eq [OF assms(1,3,4) e]) auto
  moreover have "hash_range_extended_body lkh tc el r1 seed = hash_range_extended_body lkh tc el r2 seed"
    using assms(8,9) by (intro range_opclass.hash_extended_respects_eq [OF assms(1,3,4) e]) auto
  ultimately show ?thesis
    using assms(2,6) t by (simp add: hash_range_def hash_range_extended_def)
qed

text \<open>Two stored values of 5 that differ in the high half of the datum, which \<open>int4\<close> ignores.\<close>

definition int4_rng_alias :: "Datum RangeType" where
  "int4_rng_alias = range_repr int4range_typcache (int4_bound (5 + 2 ^ 32) True True)
     (int4_bound 20 False False)"

theorem hash_range_respects_eq_witness:
  "hash_range (\<lambda>_. int4_elemtype) int4_lookup None (int4_rng 5 20) =
     hash_range (\<lambda>_. int4_elemtype) int4_lookup None int4_rng_alias"
proof -
  have w: "range_wf int4range_typcache int4_rng_alias"
    by code_simp
  have e: "range_eq int4_lookup None (int4_rng 5 20) int4_rng_alias = Inr (True, Some int4range_typcache)"
    by (simp add: range_eq_def int4_lookup_found int4.ok_typid [OF ok_ranges(2)]
        rbind_Inr_iff) code_simp
  have h: "\<forall>a b s. rng_cmp_proc int4range_typcache a b = 0 \<longrightarrow>
    hashint4 a = hashint4 b \<and> hashint4extended a s = hashint4extended b s"
    by (auto simp: int4range_typcache_def Let_def btint4cmp_def hashint4_def hashint4extended_def
        split: if_splits dest: signed_word_eqI)
  show ?thesis
    using hash_range_respects_eq [OF int4.range_opclass_axioms int4_lookup_found
        ok_wf [OF ok_ranges(2)] w e _ _ _ h, of int4_elemtype]
    by (simp add: int4range_typcache_def Let_def int4_elemtype_def)
qed

section \<open>Canonical form of the discrete types\<close>

text \<open>
  C13. Stored ranges with finite bounds over a discrete type (\<open>int4range\<close>,
  \<open>int8range\<close>, \<open>daterange\<close>) are equal exactly when they have the same elements, so
  that canonicalization makes range equality extensional.
\<close>

theorem discrete_range_eq_extensional:
  assumes "discrete_range tc key fin succ"
    and "range_ok tc (discrete_canon fin) r1" and "range_ok tc (discrete_canon fin) r2"
    and "range_deserialize tc r1 = (l1, u1, e1)" and "range_deserialize tc r2 = (l2, u2, e2)"
    and "e1 \<or> \<not> rb_infinite l1 \<and> \<not> rb_infinite u1 \<and> fin (rb_val l1) \<and> fin (rb_val u1)"
    and "e2 \<or> \<not> rb_infinite l2 \<and> \<not> rb_infinite u2 \<and> fin (rb_val l2) \<and> fin (rb_val u2)"
  shows "range_eq_internal tc r1 r2 =
    Inr (\<forall>v. range_contains_elem_internal tc r1 v = range_contains_elem_internal tc r2 v)"
  using assms by (rule discrete_range.eq_extensional)

theorem discrete_range_eq_extensional_witness:
  "\<not> (\<forall>v. range_contains_elem_internal int4range_typcache (int4_rng 1 10) v =
           range_contains_elem_internal int4range_typcache (int4_rng 5 20) v)"
proof -
  have d: "range_deserialize int4range_typcache (int4_rng 1 10) =
      (int4_bound 1 True True, int4_bound 10 False False, False)"
    "range_deserialize int4range_typcache (int4_rng 5 20) =
      (int4_bound 5 True True, int4_bound 20 False False, False)"
    by code_simp+
  have "range_eq_internal int4range_typcache (int4_rng 1 10) (int4_rng 5 20) = Inr False"
    by code_simp
  then show ?thesis
    using discrete_range_eq_extensional [OF int4.discrete_range_axioms ok_ranges(1,2) d]
    by (simp add: int4_bound_def)
qed

text \<open>
  C14. Building an \<open>int4range\<close> from two bounds fails exactly when the lower value is
  above the upper one, or the bounds enclose something and the canonical form needs
  the successor of the largest \<open>int4\<close>: an exclusive lower or an inclusive upper bound
  of 2147483647.
\<close>

theorem int4range_make_errors:
  assumes "rb_lower l" and "\<not> rb_lower u"
  shows "make_range int4range_typcache l u False = Inl x \<longleftrightarrow>
    (if range_cmp_bound_values int4range_typcache l u > 0 then x = Lower_bound_above_upper
     else x = Integer_out_of_range \<and> range_cmp_bounds int4range_typcache l u \<le> 0 \<and>
       (\<not> rb_infinite l \<and> \<not> rb_inclusive l \<and> int4_key (rb_val l) = 2147483647 \<or>
        \<not> rb_infinite u \<and> rb_inclusive u \<and> int4_key (rb_val u) = 2147483647))"
proof -
  have s: "step_bound (\<lambda>_. True) (\<lambda>v. int4pl v (Int32GetDatum 1)) b = Inl x \<longleftrightarrow>
    x = Integer_out_of_range \<and> \<not> rb_infinite b \<and> rb_inclusive b \<noteq> rb_lower b \<and>
    int4_key (rb_val b) = 2147483647" for b x
    unfolding int4.step_bound_error by (auto simp: int4pl_one)
  have n: "(\<exists>l'. step_bound (\<lambda>_. True) (\<lambda>v. int4pl v (Int32GetDatum 1)) l = Inr l') \<longleftrightarrow>
    \<not> (\<exists>x. step_bound (\<lambda>_. True) (\<lambda>v. int4pl v (Int32GetDatum 1)) l = Inl x)"
    by (cases "step_bound (\<lambda>_. True) (\<lambda>v. int4pl v (Int32GetDatum 1)) l") simp_all
  show ?thesis
    unfolding int4.make_range_error [OF assms] n s using assms
    by (auto simp: cle_def)
qed

theorem int4range_make_errors_witness:
  "make_range int4range_typcache (int4_bound 1 True True) (int4_bound 2147483647 True False) False
     = Inl Integer_out_of_range"
proof -
  have "\<not> range_cmp_bound_values int4range_typcache (int4_bound 1 True True)
      (int4_bound 2147483647 True False) > 0"
    "range_cmp_bounds int4range_typcache (int4_bound 1 True True) (int4_bound 2147483647 True False) \<le> 0"
    "int4_key (rb_val (int4_bound 2147483647 True False)) = 2147483647"
    by code_simp+
  then show ?thesis
    using int4range_make_errors [of "int4_bound 1 True True" "int4_bound 2147483647 True False"
        Integer_out_of_range]
    by (simp add: int4_bound_def)
qed

section \<open>The call-site cache\<close>

text \<open>
  C15. The type cache entry a call site keeps in \<open>fn_extra\<close> is transparent: with any
  entry of the catalog left there by an earlier call, \<open>range_get_typcache\<close> returns
  what it returns with nothing cached, the error for a type that is not a range type
  included.
\<close>

theorem fn_extra_transparent:
  assumes "\<forall>oid. type_id (lk oid) = oid" and "rngelemtype (lk cached) \<noteq> None"
  shows "range_get_typcache lk (Some (lk cached)) oid = range_get_typcache lk None oid"
  using range_get_typcache_transparent [of lk cached oid] assms
  by (auto simp: range_get_typcache_def Let_def rbind_def)

theorem fn_extra_transparent_witness:
  "range_get_typcache int4_lookup (Some (int4_lookup 3904)) 3906 = Inl (Not_a_range_type 3906)"
proof -
  have "range_get_typcache int4_lookup (Some (int4_lookup 3904)) 3906 =
    range_get_typcache int4_lookup None 3906"
    by (rule fn_extra_transparent) (simp_all add: int4_lookup_def int4range_typcache_def Let_def)
  then show ?thesis
    by (simp add: range_get_typcache_def int4_lookup_def Let_def)
qed

end
