(* ===== verification/Qsort.thy ===== *)
theory Qsort
  imports Prelude
begin

text \<open>
  \<open>qsort_arg\<close> and \<open>pg_qsort\<close> of \<open>src/port\<close>, the sorting routine of the range
  statistics and of the index split functions: insertion sort below seven elements, a
  check for sorted input, a median of three or nine as pivot, the split of the array
  into smaller, equal and larger elements by swapping, and recursion on the outer
  parts.

  An array segment is a list, a pointer into it the index of the element; sorting a
  part of an array replaces that part of the list. The comparison function takes the
  elements (the pass-through argument of \<open>qsort_arg\<close> is applied already).
\<close>

section \<open>Definitions\<close>

definition swap_elems :: "'a list \<Rightarrow> nat \<Rightarrow> nat \<Rightarrow> 'a list" where
  "swap_elems xs i j = xs[i := xs ! j, j := xs ! i]"

text \<open>\<open>vecswap\<close>: exchange \<open>n\<close> elements from \<open>i\<close> on with those from \<open>j\<close> on.\<close>

definition vecswap :: "'a list \<Rightarrow> nat \<Rightarrow> nat \<Rightarrow> nat \<Rightarrow> 'a list" where
  "vecswap xs i j n = fold (\<lambda>k xs. swap_elems xs (i + k) (j + k)) [0..<n] xs"

definition med3 :: "('a \<Rightarrow> 'a \<Rightarrow> int) \<Rightarrow> 'a list \<Rightarrow> nat \<Rightarrow> nat \<Rightarrow> nat \<Rightarrow> nat" where
  "med3 cmp xs a b c =
     (if cmp (xs ! a) (xs ! b) < 0 then
        (if cmp (xs ! b) (xs ! c) < 0 then b else if cmp (xs ! a) (xs ! c) < 0 then c else a)
      else
        (if cmp (xs ! b) (xs ! c) > 0 then b else if cmp (xs ! a) (xs ! c) < 0 then a else c))"

text \<open>The insertion sort of a short array.\<close>

fun insert_down :: "('a \<Rightarrow> 'a \<Rightarrow> int) \<Rightarrow> 'a list \<Rightarrow> nat \<Rightarrow> 'a list" where
  "insert_down cmp xs 0 = xs"
| "insert_down cmp xs (Suc pl) =
     (if cmp (xs ! pl) (xs ! Suc pl) > 0
      then insert_down cmp (swap_elems xs (Suc pl) pl) pl else xs)"

definition insertion_sort :: "('a \<Rightarrow> 'a \<Rightarrow> int) \<Rightarrow> 'a list \<Rightarrow> 'a list" where
  "insertion_sort cmp xs = fold (\<lambda>pm xs. insert_down cmp xs pm) [1..<length xs] xs"

definition presorted :: "('a \<Rightarrow> 'a \<Rightarrow> int) \<Rightarrow> 'a list \<Rightarrow> bool" where
  "presorted cmp xs \<longleftrightarrow> list_all (\<lambda>pm. \<not> cmp (xs ! (pm - 1)) (xs ! pm) > 0) [1..<length xs]"

definition pivot :: "('a \<Rightarrow> 'a \<Rightarrow> int) \<Rightarrow> 'a list \<Rightarrow> nat" where
  "pivot cmp xs =
     (let n = length xs; pm = n div 2 in
      if n > 7 then
        let pl = 0; pn = n - 1;
            (pl, pm, pn) =
              (if n > 40 then
                 let d = n div 8 in
                 (med3 cmp xs pl (pl + d) (pl + 2 * d), med3 cmp xs (pm - d) pm (pm + d),
                  med3 cmp xs (pn - 2 * d) (pn - d) pn)
               else (pl, pm, pn))
        in med3 cmp xs pl pm pn
      else pm)"

text \<open>
  The two scans and the loop around them. The pivot is at index 0, so \<open>pb\<close> is at least
  1 and \<open>pc\<close> never falls below the array.
\<close>

function scan_up :: "('a \<Rightarrow> 'a \<Rightarrow> int) \<Rightarrow> 'a list \<Rightarrow> nat \<Rightarrow> nat \<Rightarrow> nat \<Rightarrow> 'a list \<times> nat \<times> nat" where
  "scan_up cmp xs pa pb pc =
     (if pb \<le> pc then
        let r = cmp (xs ! pb) (xs ! 0) in
        if r \<le> 0 then
          if r = 0 then scan_up cmp (swap_elems xs pa pb) (pa + 1) (pb + 1) pc
          else scan_up cmp xs pa (pb + 1) pc
        else (xs, pa, pb)
      else (xs, pa, pb))"
  by pat_completeness auto
termination
  by (relation "measure (\<lambda>(cmp, xs, pa, pb, pc). Suc pc - pb)") auto

function scan_down :: "('a \<Rightarrow> 'a \<Rightarrow> int) \<Rightarrow> 'a list \<Rightarrow> nat \<Rightarrow> nat \<Rightarrow> nat \<Rightarrow> 'a list \<times> nat \<times> nat" where
  "scan_down cmp xs pb pc pd =
     (if 0 < pb \<and> pb \<le> pc then
        let r = cmp (xs ! pc) (xs ! 0) in
        if r \<ge> 0 then
          if r = 0 then scan_down cmp (swap_elems xs pc pd) pb (pc - 1) (pd - 1)
          else scan_down cmp xs pb (pc - 1) pd
        else (xs, pc, pd)
      else (xs, pc, pd))"
  by pat_completeness auto
termination
  by (relation "measure (\<lambda>(cmp, xs, pb, pc, pd). pc)") auto

declare scan_up.simps [simp del] scan_down.simps [simp del]

lemma scan_up_bound: "scan_up cmp xs pa pb pc = (xs', pa', pb') \<Longrightarrow> pb \<le> pb'"
proof (induction cmp xs pa pb pc rule: scan_up.induct)
  case (1 cmp xs pa pb pc)
  then show ?case
    by (subst (asm) (3) scan_up.simps) (fastforce simp: Let_def split: if_splits)
qed

lemma scan_down_bound: "scan_down cmp xs pb pc pd = (xs', pc', pd') \<Longrightarrow> pc' \<le> pc"
proof (induction cmp xs pb pc pd rule: scan_down.induct)
  case (1 cmp xs pb pc pd)
  then show ?case
    by (subst (asm) (3) scan_down.simps) (fastforce simp: Let_def split: if_splits)
qed

function partition_loop ::
  "('a \<Rightarrow> 'a \<Rightarrow> int) \<Rightarrow> 'a list \<Rightarrow> nat \<Rightarrow> nat \<Rightarrow> nat \<Rightarrow> nat \<Rightarrow> 'a list \<times> nat \<times> nat \<times> nat \<times> nat" where
  "partition_loop cmp xs pa pb pc pd =
     (case scan_up cmp xs pa pb pc of (xs1, pa1, pb1) \<Rightarrow>
      case scan_down cmp xs1 pb1 pc pd of (xs2, pc1, pd1) \<Rightarrow>
        if pb1 > pc1 then (xs2, pa1, pb1, pc1, pd1)
        else partition_loop cmp (swap_elems xs2 pb1 pc1) pa1 (pb1 + 1) (pc1 - 1) pd1)"
  by pat_completeness auto
termination
  by (relation "measure (\<lambda>(cmp, xs, pa, pb, pc, pd). Suc pc - pb)")
    (auto dest!: scan_up_bound [OF sym] scan_down_bound [OF sym])


declare partition_loop.simps [simp del]

text \<open>
  One round: the partly swapped array and the lengths \<open>d1\<close> and \<open>d2\<close> of its parts
  below and above the pivot.
\<close>

definition partition_step :: "('a \<Rightarrow> 'a \<Rightarrow> int) \<Rightarrow> 'a list \<Rightarrow> 'a list \<times> nat \<times> nat" where
  "partition_step cmp xs =
     (let n = length xs;
          xs = swap_elems xs 0 (pivot cmp xs);
          (xs, pa, pb, pc, pd) = partition_loop cmp xs 1 1 (n - 1) (n - 1);
          d1 = min pa (pb - pa);
          xs = vecswap xs 0 (pb - d1) d1;
          d1 = min (pd - pc) (n - pd - 1);
          xs = vecswap xs pb (n - d1) d1
      in (xs, pb - pa, pd - pc))"

section \<open>Swapping\<close>

lemma length_swap_elems [simp]: "length (swap_elems xs i j) = length xs"
  by (simp add: swap_elems_def)

lemma nth_swap_elems:
  "i < length xs \<Longrightarrow> j < length xs \<Longrightarrow> k < length xs \<Longrightarrow>
   swap_elems xs i j ! k = (if k = i then xs ! j else if k = j then xs ! i else xs ! k)"
  by (auto simp: swap_elems_def nth_list_update)

lemma swap_elems_0 [simp]: "0 < i \<Longrightarrow> 0 < j \<Longrightarrow> swap_elems xs i j ! 0 = xs ! 0"
  by (simp add: swap_elems_def)

lemma mset_swap_elems [simp]:
  "i < length xs \<Longrightarrow> j < length xs \<Longrightarrow> mset (swap_elems xs i j) = mset xs"
  by (simp add: swap_elems_def mset_swap)

lemma length_vecswap [simp]: "length (vecswap xs i j n) = length xs"
proof (induction n)
  case (Suc n)
  then show ?case by (simp add: vecswap_def)
qed (simp add: vecswap_def)

lemma vecswap_Suc: "vecswap xs i j (Suc n) = swap_elems (vecswap xs i j n) (i + n) (j + n)"
  by (simp add: vecswap_def)

lemma mset_vecswap [simp]:
  "i + n \<le> length xs \<Longrightarrow> j + n \<le> length xs \<Longrightarrow> mset (vecswap xs i j n) = mset xs"
proof (induction n)
  case (Suc n)
  then show ?case by (simp add: vecswap_Suc)
qed (simp add: vecswap_def)

lemma nth_vecswap:
  "i + n \<le> j \<Longrightarrow> j + n \<le> length xs \<Longrightarrow> k < length xs \<Longrightarrow>
   vecswap xs i j n ! k =
     (if i \<le> k \<and> k < i + n then xs ! (j + (k - i))
      else if j \<le> k \<and> k < j + n then xs ! (i + (k - j)) else xs ! k)"
proof (induction n arbitrary: k)
  case (Suc n)
  then show ?case
    by (auto simp: vecswap_Suc nth_swap_elems)
qed (auto simp: vecswap_def)

section \<open>Insertion sort\<close>

lemma length_insert_down [simp]: "length (insert_down cmp xs pl) = length xs"
  by (induction cmp xs pl rule: insert_down.induct) auto

lemma mset_insert_down [simp]: "pl < length xs \<Longrightarrow> mset (insert_down cmp xs pl) = mset xs"
  by (induction cmp xs pl rule: insert_down.induct) auto

lemma insert_down_above: "pl < k \<Longrightarrow> k < length xs \<Longrightarrow> insert_down cmp xs pl ! k = xs ! k"
  by (induction cmp xs pl rule: insert_down.induct) (auto simp: nth_swap_elems)

context cmp_preorder
begin

lemma insert_down_sorted:
  assumes "pl \<le> pm" and "pm < length xs"
    and "\<And>i j. i < j \<Longrightarrow> j \<le> pm \<Longrightarrow> j \<noteq> pl \<Longrightarrow> cle c (xs ! i) (xs ! j)"
    and "i < j" and "j \<le> pm"
  shows "cle c (insert_down c xs pl ! i) (insert_down c xs pl ! j)"
  using assms(1-3)
proof (induction pl arbitrary: xs)
  case 0
  then show ?case using assms(4,5) by simp
next
  case (Suc pl)
  note inv = Suc.prems(3)
  show ?case
  proof (cases "c (xs ! pl) (xs ! Suc pl) > 0")
    case True
    let ?ys = "swap_elems xs (Suc pl) pl"
    have gt: "cle c (xs ! Suc pl) (xs ! pl)"
      using True cle_total by (auto simp: pos_iff)
    have "cle c (?ys ! i) (?ys ! j)" if "i < j" "j \<le> pm" "j \<noteq> pl" for i j
      using that Suc.prems(1,2) gt inv [of i j] inv [of i pl] inv [of pl j] inv [of "Suc pl" j]
      by (auto simp: nth_swap_elems)
    then show ?thesis
      using True Suc.IH [of ?ys] Suc.prems(1,2) by simp
  next
    case False
    then have le: "cle c (xs ! pl) (xs ! Suc pl)" by (simp add: pos_iff)
    have "cle c (xs ! i) (xs ! j)"
    proof (cases "j = Suc pl")
      case True
      then show ?thesis
        using le inv [of i pl] cle_trans assms(4,5) Suc.prems(1) by (cases "i = pl") auto
    next
      case False
      then show ?thesis using inv assms(4,5) by blast
    qed
    then show ?thesis using False by simp
  qed
qed

lemma insertion_prefix:
  assumes "n \<le> length xs"
  shows "let ys = fold (\<lambda>pm xs. insert_down c xs pm) [1..<n] xs in
    length ys = length xs \<and> mset ys = mset xs \<and>
    (\<forall>i j. i < j \<longrightarrow> j < n \<longrightarrow> cle c (ys ! i) (ys ! j))"
  using assms
proof (induction n)
  case (Suc n)
  show ?case
  proof (cases "n = 0")
    case False
    define ys where "ys = fold (\<lambda>pm xs. insert_down c xs pm) [1..<n] xs"
    have ys: "length ys = length xs" "mset ys = mset xs"
      and s: "\<And>i j. i < j \<Longrightarrow> j < n \<Longrightarrow> cle c (ys ! i) (ys ! j)"
      using Suc by (auto simp: ys_def Let_def)
    have "fold (\<lambda>pm xs. insert_down c xs pm) [1..<Suc n] xs = insert_down c ys n"
      using False by (simp add: ys_def)
    then show ?thesis
      using ys s Suc.prems insert_down_sorted [of n n ys] by (auto simp: Let_def)
  qed simp
qed simp

lemma insertion_sort_correct:
  "mset (insertion_sort c xs) = mset xs" "sorted_wrt (cle c) (insertion_sort c xs)"
  using insertion_prefix [of "length xs" xs]
  by (auto simp: insertion_sort_def Let_def sorted_wrt_iff_nth_less)

lemma presorted_sorted:
  assumes "presorted c xs"
  shows "sorted_wrt (cle c) xs"
proof -
  have step: "cle c (xs ! i) (xs ! Suc i)" if "Suc i < length xs" for i
    using assms that
    by (auto simp: presorted_def list_all_iff pos_iff dest!: bspec [where x = "Suc i"])
  have "cle c (xs ! i) (xs ! j)" if "i < j" "j < length xs" for i j
    using that
  proof (induction j)
    case (Suc j)
    then show ?case
      using step [of j] cle_trans by (cases "i = j") auto
  qed simp
  then show ?thesis by (simp add: sorted_wrt_iff_nth_less)
qed

end

section \<open>Partitioning\<close>

definition partition_inv ::
  "('a \<Rightarrow> 'a \<Rightarrow> int) \<Rightarrow> 'a \<Rightarrow> 'a list \<Rightarrow> nat \<Rightarrow> nat \<Rightarrow> nat \<Rightarrow> nat \<Rightarrow> bool" where
  "partition_inv cmp p xs pa pb pc pd \<longleftrightarrow>
     1 \<le> pa \<and> pa \<le> pb \<and> pb \<le> pc + 1 \<and> pc \<le> pd \<and> pd < length xs \<and> xs ! 0 = p \<and>
     (\<forall>i. 1 \<le> i \<and> i < pa \<longrightarrow> cmp (xs ! i) p = 0) \<and>
     (\<forall>i. pa \<le> i \<and> i < pb \<longrightarrow> cmp (xs ! i) p < 0) \<and>
     (\<forall>i. pc < i \<and> i \<le> pd \<longrightarrow> cmp (xs ! i) p > 0) \<and>
     (\<forall>i. pd < i \<and> i < length xs \<longrightarrow> cmp (xs ! i) p = 0)"

lemma scan_up_inv:
  "partition_inv cmp p xs pa pb pc pd \<Longrightarrow> scan_up cmp xs pa pb pc = (xs', pa', pb') \<Longrightarrow>
   partition_inv cmp p xs' pa' pb' pc pd \<and> mset xs' = mset xs \<and> (pb' \<le> pc \<longrightarrow> cmp (xs' ! pb') p > 0)"
proof (induction cmp xs pa pb pc rule: scan_up.induct)
  case (1 cmp xs pa pb pc)
  note inv = 1(3) [unfolded partition_inv_def]
  show ?case
  proof (cases "pb \<le> pc \<and> cmp (xs ! pb) (xs ! 0) \<le> 0")
    case False
    then show ?thesis
      using 1(3,4) inv by (subst (asm) scan_up.simps) (auto simp: Let_def split: if_splits)
  next
    case True
    show ?thesis
    proof (cases "cmp (xs ! pb) (xs ! 0) = 0")
      case eq: True
      have "partition_inv cmp p (swap_elems xs pa pb) (pa + 1) (pb + 1) pc pd"
        using True eq inv by (auto simp: partition_inv_def nth_swap_elems)
      then show ?thesis
        using 1(1) 1(4) True eq inv by (subst (asm) (2) scan_up.simps) simp
    next
      case lt: False
      have "partition_inv cmp p xs pa (pb + 1) pc pd"
        using True lt inv by (auto simp: partition_inv_def less_Suc_eq)
      then show ?thesis
        using 1(2) 1(4) True lt by (subst (asm) (2) scan_up.simps) simp
    qed
  qed
qed

lemma scan_down_inv:
  "partition_inv cmp p xs pa pb pc pd \<Longrightarrow> (pb \<le> pc \<longrightarrow> cmp (xs ! pb) p > 0) \<Longrightarrow>
   scan_down cmp xs pb pc pd = (xs', pc', pd') \<Longrightarrow>
   partition_inv cmp p xs' pa pb pc' pd' \<and> mset xs' = mset xs \<and>
   (pb \<le> pc' \<longrightarrow> cmp (xs' ! pb) p > 0 \<and> cmp (xs' ! pc') p < 0)"
proof (induction cmp xs pb pc pd rule: scan_down.induct)
  case (1 cmp xs pb pc pd)
  note inv = 1(3) [unfolded partition_inv_def]
  show ?case
  proof (cases "pb \<le> pc \<and> cmp (xs ! pc) (xs ! 0) \<ge> 0")
    case False
    then show ?thesis
      using 1(3-5) inv by (subst (asm) scan_down.simps) (auto simp: Let_def split: if_splits)
  next
    case True
    then have pos: "0 < pb" "0 < pb \<and> pb \<le> pc" using inv by auto
    then obtain pc0 pd0 where S: "pc = Suc pc0" "pd = Suc pd0"
      using inv by (metis Suc_pred' le_less_trans less_le_trans zero_le)
    show ?thesis
    proof (cases "cmp (xs ! pc) (xs ! 0) = 0")
      case eq: True
      then have ne: "pb \<noteq> pc" using 1(4) inv by auto
      have "partition_inv cmp p (swap_elems xs pc pd) pa pb (pc - 1) (pd - 1)"
        using True eq inv ne pos by (auto simp: S partition_inv_def nth_swap_elems)
      moreover have "swap_elems xs pc pd ! pb = xs ! pb"
        using True ne inv by (simp add: nth_swap_elems)
      ultimately show ?thesis
        using 1(1) 1(4,5) pos True eq inv by (subst (asm) (2) scan_down.simps) simp
    next
      case gt: False
      have "cmp (xs ! i) p > 0" if "pc0 < i" "i \<le> pd" for i
        using that inv True gt S by (cases "i = pc") auto
      then have "partition_inv cmp p xs pa pb (pc - 1) pd"
        using inv True unfolding partition_inv_def by (simp add: S)
      then show ?thesis
        using 1(2) 1(4,5) pos True gt by (subst (asm) (2) scan_down.simps) simp
    qed
  qed
qed

lemma partition_loop_inv:
  "partition_inv cmp p xs pa pb pc pd \<Longrightarrow> partition_loop cmp xs pa pb pc pd = (xs', pa', pb', pc', pd') \<Longrightarrow>
   partition_inv cmp p xs' pa' pb' pc' pd' \<and> mset xs' = mset xs \<and> pb' = pc' + 1"
proof (induction cmp xs pa pb pc pd rule: partition_loop.induct)
  case (1 cmp xs pa pb pc pd)
  obtain xs1 pa1 pb1 where u: "scan_up cmp xs pa pb pc = (xs1, pa1, pb1)" by (metis prod_cases3)
  obtain xs2 pc1 pd1 where d: "scan_down cmp xs1 pb1 pc pd = (xs2, pc1, pd1)" by (metis prod_cases3)
  note U = scan_up_inv [OF 1(2) u]
  have D: "partition_inv cmp p xs2 pa1 pb1 pc1 pd1" "mset xs2 = mset xs"
    "pb1 \<le> pc1 \<Longrightarrow> cmp (xs2 ! pb1) p > 0 \<and> cmp (xs2 ! pc1) p < 0"
    using scan_down_inv [OF _ _ d] U by auto
  note inv = D(1) [unfolded partition_inv_def]
  show ?case
  proof (cases "pb1 > pc1")
    case True
    then show ?thesis
      using 1(3) D inv by (subst (asm) partition_loop.simps) (auto simp: u d)
  next
    case False
    then have lt: "pb1 < pc1" using D(3) by (cases "pb1 = pc1") auto
    have A: "partition_inv cmp p (swap_elems xs2 pb1 pc1) pa1 (pb1 + 1) (pc1 - 1) pd1"
      using lt inv D(3) by (auto simp: partition_inv_def nth_swap_elems less_Suc_eq)
    have B: "mset (swap_elems xs2 pb1 pc1) = mset xs"
      using lt inv D(2) by simp
    have C: "partition_loop cmp (swap_elems xs2 pb1 pc1) pa1 (pb1 + 1) (pc1 - 1) pd1 =
      (xs', pa', pb', pc', pd')"
      using 1(3) False by (subst (asm) partition_loop.simps) (simp add: u d)
    show ?thesis
      using 1(1) [OF u [symmetric] refl d [symmetric] refl False A C] B by auto
  qed
qed


lemma partition_start:
  assumes "1 < length xs"
  shows "partition_inv cmp (xs ! 0) xs 1 1 (length xs - 1) (length xs - 1)"
  using assms by (auto simp: partition_inv_def)

lemma med3_less: "a < n \<Longrightarrow> b < n \<Longrightarrow> c < n \<Longrightarrow> med3 cmp xs a b c < n"
  by (simp add: med3_def)

lemma pivot_less:
  assumes "0 < length xs"
  shows "pivot cmp xs < length xs"
proof -
  have "length xs div 2 < length xs" "length xs - 1 < length xs"
    using assms by simp_all
  moreover have "2 * (length xs div 8) < length xs"
    "length xs div 2 + length xs div 8 < length xs"
    using assms by linarith+
  ultimately show ?thesis
    unfolding pivot_def Let_def using assms
    by (auto intro!: med3_less)
qed

text \<open>Where the elements of the regions end up after the two block exchanges.\<close>

lemma vecswap_low:
  fixes pa pb e :: nat
  assumes e: "e = min pa (pb - pa)" and "pa \<le> pb" and "pb \<le> length zs"
  shows "i < pb - pa \<Longrightarrow> \<exists>k. pa \<le> k \<and> k < pb \<and> vecswap zs 0 (pb - e) e ! i = zs ! k"
    and "pb - pa \<le> i \<Longrightarrow> i < pb \<Longrightarrow> \<exists>k. k < pa \<and> vecswap zs 0 (pb - e) e ! i = zs ! k"
    and "pb \<le> i \<Longrightarrow> i < length zs \<Longrightarrow> vecswap zs 0 (pb - e) e ! i = zs ! i"
proof -
  have b: "e \<le> pa" "pa + e \<le> pb" and E: "e = pa \<or> pa + e = pb"
    using e assms(2) by auto
  have v: "vecswap zs 0 (pb - e) e ! i =
    (if i < e then zs ! (pb - e + i) else if pb - e \<le> i \<and> i < pb then zs ! (i - (pb - e)) else zs ! i)"
    if "i < length zs" for i
    using nth_vecswap [of 0 e "pb - e" zs i] that b assms(3) by auto
  show "\<exists>k. pa \<le> k \<and> k < pb \<and> vecswap zs 0 (pb - e) e ! i = zs ! k" if "i < pb - pa"
  proof (cases "i < e")
    case True
    then have "vecswap zs 0 (pb - e) e ! i = zs ! (pb - e + i)" "pa \<le> pb - e + i" "pb - e + i < pb"
      using v [of i] b that assms(3) by simp_all
    then show ?thesis by blast
  next
    case False
    then have "pa \<le> i" "\<not> pb - e \<le> i" using E that b by linarith+
    then have "vecswap zs 0 (pb - e) e ! i = zs ! i" "i < pb"
      using v [of i] False that assms(3) by simp_all
    with \<open>pa \<le> i\<close> show ?thesis by blast
  qed
  show "\<exists>k. k < pa \<and> vecswap zs 0 (pb - e) e ! i = zs ! k" if "pb - pa \<le> i" "i < pb"
  proof (cases "pb - e \<le> i")
    case True
    then have "\<not> i < e" using b by linarith
    with True have "vecswap zs 0 (pb - e) e ! i = zs ! (i - (pb - e))" "i - (pb - e) < pa"
      using v [of i] b that assms(3) by simp_all
    then show ?thesis by blast
  next
    case False
    then have "i < pa" "\<not> i < e" using E that b by linarith+
    then have "vecswap zs 0 (pb - e) e ! i = zs ! i"
      using v [of i] False that assms(3) by simp
    with \<open>i < pa\<close> show ?thesis by blast
  qed
  show "vecswap zs 0 (pb - e) e ! i = zs ! i" if "pb \<le> i" "i < length zs"
    using that b v [of i] by simp
qed

lemma vecswap_high:
  fixes pc pd n e :: nat
  assumes e: "e = min (pd - pc) (n - pd - 1)" and "pc \<le> pd" and "pd < n" and "n = length zs"
  shows "i \<le> pc \<Longrightarrow> vecswap zs (pc + 1) (n - e) e ! i = zs ! i"
    and "pc < i \<Longrightarrow> i < n - (pd - pc) \<Longrightarrow>
      \<exists>k. pd < k \<and> k < n \<and> vecswap zs (pc + 1) (n - e) e ! i = zs ! k"
    and "n - (pd - pc) \<le> i \<Longrightarrow> i < n \<Longrightarrow>
      \<exists>k. pc < k \<and> k \<le> pd \<and> vecswap zs (pc + 1) (n - e) e ! i = zs ! k"
proof -
  have b: "pc + e \<le> pd" "pd + e < n" and E: "pc + e = pd \<or> pd + e + 1 = n"
    using e assms(2,3) by auto
  have v: "vecswap zs (pc + 1) (n - e) e ! i =
    (if pc < i \<and> i < pc + 1 + e then zs ! (n - e + (i - (pc + 1)))
     else if n - e \<le> i then zs ! (pc + 1 + (i - (n - e))) else zs ! i)"
    if "i < n" for i
    using nth_vecswap [of "pc + 1" e "n - e" zs i] that b assms(4) by auto
  show "vecswap zs (pc + 1) (n - e) e ! i = zs ! i" if "i \<le> pc"
  proof -
    have "i < n" "\<not> n - e \<le> i" using that b by linarith+
    then show ?thesis using v [of i] that by simp
  qed
  show "\<exists>k. pd < k \<and> k < n \<and> vecswap zs (pc + 1) (n - e) e ! i = zs ! k"
    if "pc < i" "i < n - (pd - pc)"
  proof (cases "i < pc + 1 + e")
    case True
    then have "vecswap zs (pc + 1) (n - e) e ! i = zs ! (n - e + (i - (pc + 1)))"
      "pd < n - e + (i - (pc + 1))" "n - e + (i - (pc + 1)) < n"
      using v [of i] b that by simp_all
    then show ?thesis by blast
  next
    case False
    then have "pd < i" "\<not> n - e \<le> i" "i < n" using E that b by linarith+
    then have "vecswap zs (pc + 1) (n - e) e ! i = zs ! i"
      using v [of i] False by simp
    with \<open>pd < i\<close> \<open>i < n\<close> show ?thesis by blast
  qed
  show "\<exists>k. pc < k \<and> k \<le> pd \<and> vecswap zs (pc + 1) (n - e) e ! i = zs ! k"
    if "n - (pd - pc) \<le> i" "i < n"
  proof (cases "n - e \<le> i")
    case True
    then have "\<not> i < pc + 1 + e" using b by linarith
    with True have "vecswap zs (pc + 1) (n - e) e ! i = zs ! (pc + 1 + (i - (n - e)))"
      "pc < pc + 1 + (i - (n - e))" "pc + 1 + (i - (n - e)) \<le> pd"
      using v [of i] b that by simp_all
    then show ?thesis by blast
  next
    case False
    then have "i \<le> pd" "pc < i" "\<not> i < pc + 1 + e" using E that b by linarith+
    then have "vecswap zs (pc + 1) (n - e) e ! i = zs ! i"
      using v [of i] False that by simp
    with \<open>pc < i\<close> \<open>i \<le> pd\<close> show ?thesis by blast
  qed
qed

lemma partition_step_correct:
  assumes "partition_step cmp xs = (ys, d1, d2)" and "1 < length xs"
    and p: "p = xs ! pivot cmp xs"
  shows "mset ys = mset xs" and "d1 + d2 < length xs"
    and "\<And>i. i < d1 \<Longrightarrow> cmp (ys ! i) p < 0"
    and "\<And>i. d1 \<le> i \<Longrightarrow> i < length xs - d2 \<Longrightarrow> ys ! i = p \<or> cmp (ys ! i) p = 0"
    and "\<And>i. length xs - d2 \<le> i \<Longrightarrow> i < length xs \<Longrightarrow> cmp (ys ! i) p > 0"
proof -
  define n where "n = length xs"
  define ws where "ws = swap_elems xs 0 (pivot cmp xs)"
  obtain zs pa pb pc pd where l: "partition_loop cmp ws 1 1 (n - 1) (n - 1) = (zs, pa, pb, pc, pd)"
    by (metis prod_cases5)
  have piv: "pivot cmp xs < n" using pivot_less [of xs cmp] assms(2) unfolding n_def by linarith
  have ne: "xs \<noteq> []" using assms(2) by auto
  have ws: "length ws = n" "mset ws = mset xs" "ws ! 0 = p"
    using piv ne by (auto simp: ws_def n_def p nth_swap_elems)
  have "partition_inv cmp p ws 1 1 (n - 1) (n - 1)"
    using partition_start [of ws cmp] ws assms(2) by (simp add: n_def)
  from partition_loop_inv [OF this l] have inv: "partition_inv cmp p zs pa pb pc pd"
    and m: "mset zs = mset ws" and pb: "pb = pc + 1" by blast+
  have len: "length zs = n" using m ws(1) by (metis size_mset)
  define e1 where "e1 = min pa (pb - pa)"
  define e2 where "e2 = min (pd - pc) (n - pd - 1)"
  define z1 where "z1 = vecswap zs 0 (pb - e1) e1"
  have "partition_step cmp xs = (vecswap z1 pb (n - e2) e2, pb - pa, pd - pc)"
    unfolding partition_step_def Let_def n_def [symmetric] ws_def [symmetric] l prod.case
      e1_def [symmetric] z1_def [symmetric] e2_def [symmetric] ..
  then have r: "ys = vecswap z1 pb (n - e2) e2" "d1 = pb - pa" "d2 = pd - pc"
    using assms(1) by simp_all
  note I = inv [unfolded partition_inv_def len]
  have b: "1 \<le> pa" "pa \<le> pb" "pc \<le> pd" "pd < n" using I by blast+
  have b': "pb \<le> n" "pb \<le> length zs" "n = length z1"
    using b pb len by (simp_all add: z1_def)
  have e: "e1 \<le> pb" "0 + e1 \<le> pb - e1" "pb + e2 \<le> n - e2" "e2 \<le> n"
    using b pb unfolding e1_def e2_def by linarith+
  note low = vecswap_low [OF e1_def b(2) b'(2), folded z1_def]
    and high = vecswap_high [OF e2_def b(3,4) b'(3), folded pb, folded r(1)]
  have "mset z1 = mset zs"
    unfolding z1_def by (rule mset_vecswap) (use e b' in linarith)+
  moreover have "mset ys = mset z1"
    unfolding r(1) by (rule mset_vecswap) (use e b' in linarith)+
  ultimately show "mset ys = mset xs" using m ws by simp
  show "d1 + d2 < length xs" using b pb r by (simp add: n_def [symmetric])
  show "cmp (ys ! i) p < 0" if i: "i < d1" for i
  proof -
    obtain k where "pa \<le> k" "k < pb" "z1 ! i = zs ! k" using low(1) [of i] i r(2) by auto
    moreover have "ys ! i = z1 ! i" using high(1) [of i] i r(2) pb by simp
    ultimately show ?thesis using I by simp
  qed
  show "cmp (ys ! i) p > 0" if i: "length xs - d2 \<le> i" "i < length xs" for i
  proof -
    obtain k where k: "pc < k" "k \<le> pd" "ys ! i = z1 ! k"
      using high(3) [of i] i unfolding r(3) n_def by blast
    then have "z1 ! k = zs ! k" using low(3) [of k] pb b(4) len by simp
    with k show ?thesis using I by simp
  qed
  show "ys ! i = p \<or> cmp (ys ! i) p = 0" if i: "d1 \<le> i" "i < length xs - d2" for i
  proof (cases "i < pb")
    case True
    then obtain k where "k < pa" "z1 ! i = zs ! k" using low(2) [of i] i r(2) by auto
    moreover have "ys ! i = z1 ! i" using high(1) [of i] True pb by simp
    ultimately show ?thesis using I by (cases "k = 0") auto
  next
    case False
    then obtain k where k: "pd < k" "k < n" "ys ! i = z1 ! k"
      using high(2) [of i] i pb unfolding r(3) n_def by auto
    then have "z1 ! k = zs ! k" using low(3) [of k] pb b(3) len by simp
    with k show ?thesis using I by simp
  qed
qed

lemma partition_step_lengths:
  assumes "partition_step cmp xs = (ys, d1, d2)" and "\<not> length xs < 7"
  shows "length ys = length xs \<and> d1 + d2 < length xs"
  using partition_step_correct(1,2) [OF assms(1) _ refl] assms(2) by (auto dest: mset_eq_length)

text \<open>The three parts of the array after a round.\<close>

lemma partition_parts:
  assumes p: "partition_step d xs = (ys, d1, d2)" and gt1: "1 < length xs" and q: "q = xs ! pivot d xs"
  shows "x \<in> set (take d1 ys) \<Longrightarrow> d x q < 0"
    and "x \<in> set (take (length ys - d2 - d1) (drop d1 ys)) \<Longrightarrow> x = q \<or> d x q = 0"
    and "x \<in> set (drop (length ys - d2) ys) \<Longrightarrow> d x q > 0"
proof -
  note P = partition_step_correct [OF p gt1 q]
  have len: "length ys = length xs" using P(1) by (metis size_mset)
  show "d x q < 0" if "x \<in> set (take d1 ys)"
    using that P(3) by (auto simp: in_set_conv_nth)
  show "x = q \<or> d x q = 0" if x: "x \<in> set (take (length ys - d2 - d1) (drop d1 ys))"
  proof -
    from x obtain i where i: "i < length xs - d2 - d1" "x = ys ! (d1 + i)"
      using P(2) len by (auto simp: in_set_conv_nth)
    show ?thesis unfolding i(2) by (rule P(4)) (use i(1) in linarith)+
  qed
  show "d x q > 0" if x: "x \<in> set (drop (length ys - d2) ys)"
  proof -
    from x obtain i where i: "i < d2" "x = ys ! (length xs - d2 + i)"
      using P(2) len by (auto simp: in_set_conv_nth)
    show ?thesis unfolding i(2) by (rule P(5)) (use i(1) P(2) in simp_all)
  qed
qed

section \<open>The sort\<close>

text \<open>
  The recursion on the smaller part and the iteration on the larger one work on
  disjoint parts of the array, so the order of the two does not matter.
\<close>

function qsort_arg :: "('a \<Rightarrow> 'a \<Rightarrow> int) \<Rightarrow> 'a list \<Rightarrow> 'a list" where
  "qsort_arg cmp xs =
     (if length xs < 7 then insertion_sort cmp xs
      else if presorted cmp xs then xs
      else case partition_step cmp xs of (ys, d1, d2) \<Rightarrow>
        let n = length ys;
            left = take d1 ys; middle = take (n - d2 - d1) (drop d1 ys); right = drop (n - d2) ys
        in (if d1 > 1 then qsort_arg cmp left else left) @ middle
           @ (if d2 > 1 then qsort_arg cmp right else right))"
  by pat_completeness auto
termination
  by (relation "measure (\<lambda>(cmp, xs). length xs)") (auto dest!: partition_step_lengths [OF sym])

declare qsort_arg.simps [simp del]

lemma split3:
  assumes "d1 + d2 \<le> length ys"
  shows "take d1 ys @ take (length ys - d2 - d1) (drop d1 ys) @ drop (length ys - d2) ys = ys"
proof -
  have "drop (length ys - d2) ys = drop (length ys - d2 - d1) (drop d1 ys)"
    using assms by simp
  then show ?thesis by (simp only: append_take_drop_id)
qed

lemma mset_insertion_sort: "mset (insertion_sort cmp xs) = mset xs"
proof -
  have "n \<le> length xs \<Longrightarrow> length (fold (\<lambda>pm xs. insert_down cmp xs pm) [1..<n] xs) = length xs \<and>
    mset (fold (\<lambda>pm xs. insert_down cmp xs pm) [1..<n] xs) = mset xs" for n
  proof (induction n)
    case (Suc n)
    then show ?case by (cases "n = 0") auto
  qed simp
  then show ?thesis by (simp add: insertion_sort_def)
qed

lemma mset_qsort_arg: "mset (qsort_arg cmp xs) = mset xs"
proof (induction cmp xs rule: qsort_arg.induct)
  case (1 cmp xs)
  show ?case
  proof (cases "length xs < 7 \<or> presorted cmp xs")
    case True
    then show ?thesis by (subst qsort_arg.simps) (auto simp: mset_insertion_sort)
  next
    case False
    obtain ys d1 d2 where p: "partition_step cmp xs = (ys, d1, d2)" by (metis prod_cases3)
    have m: "mset ys = mset xs"
      using partition_step_correct(1) [OF p _ refl] False by auto
    have len: "length ys = length xs" "d1 + d2 < length xs"
      using partition_step_lengths [OF p] False by auto
    have "mset (qsort_arg cmp xs) = mset (take d1 ys) +
      (mset (take (length ys - d2 - d1) (drop d1 ys)) + mset (drop (length ys - d2) ys))"
      using 1(1) [OF _ _ p [symmetric] refl refl refl refl refl]
        1(2) [OF _ _ p [symmetric] refl refl refl refl refl] False
      by (subst qsort_arg.simps) (simp add: p Let_def)
    also have "\<dots> = mset ys"
      using arg_cong [OF split3 [of d1 d2 ys], of mset] len by (simp add: less_imp_le)
    finally show ?thesis using m by simp
  qed
qed

text \<open>
  The sort only compares elements of the array, so the laws have to hold for these
  only: \<open>d\<close> may differ from the preorder \<open>c\<close> elsewhere.
\<close>

definition cmp_agree :: "'a set \<Rightarrow> ('a \<Rightarrow> 'a \<Rightarrow> int) \<Rightarrow> ('a \<Rightarrow> 'a \<Rightarrow> int) \<Rightarrow> bool" where
  "cmp_agree A d c \<longleftrightarrow> (\<forall>x \<in> A. \<forall>y \<in> A. d x y = c x y)"

lemma cmp_agree_subset: "cmp_agree A d c \<Longrightarrow> B \<subseteq> A \<Longrightarrow> cmp_agree B d c"
  by (auto simp: cmp_agree_def)

lemma insert_down_agree:
  "cmp_agree (set xs) d c \<Longrightarrow> pl < length xs \<Longrightarrow> insert_down d xs pl = insert_down c xs pl"
proof (induction c xs pl rule: insert_down.induct)
  case (2 c xs pl)
  have "d (xs ! pl) (xs ! Suc pl) = c (xs ! pl) (xs ! Suc pl)"
    using 2(2,3) by (simp add: cmp_agree_def)
  moreover have "set (swap_elems xs (Suc pl) pl) = set xs"
    using 2(3) by (intro mset_eq_setD mset_swap_elems) auto
  ultimately show ?case using 2 by simp
qed simp

lemma insertion_sort_agree:
  assumes "cmp_agree (set xs) d c"
  shows "insertion_sort d xs = insertion_sort c xs"
proof -
  have "fold (\<lambda>pm xs. insert_down d xs pm) [1..<n] xs = fold (\<lambda>pm xs. insert_down c xs pm) [1..<n] xs \<and>
    length (fold (\<lambda>pm xs. insert_down c xs pm) [1..<n] xs) = length xs \<and>
    mset (fold (\<lambda>pm xs. insert_down c xs pm) [1..<n] xs) = mset xs" if "n \<le> length xs" for n
    using that
  proof (induction n)
    case (Suc n)
    show ?case
    proof (cases "n = 0")
      case False
      let ?ys = "fold (\<lambda>pm xs. insert_down c xs pm) [1..<n] xs"
      have "set ?ys = set xs" using Suc by (intro mset_eq_setD) simp
      then show ?thesis
        using False Suc insert_down_agree [of ?ys d c n] assms by simp
    qed simp
  qed simp
  then show ?thesis by (simp add: insertion_sort_def)
qed

lemma presorted_agree: "cmp_agree (set xs) d c \<Longrightarrow> presorted d xs = presorted c xs"
  unfolding presorted_def by (rule list.pred_cong [OF refl]) (simp add: cmp_agree_def less_imp_diff_less)

context cmp_preorder
begin

lemma sorted_qsort_arg_agree: "cmp_agree (set xs) d c \<Longrightarrow> sorted_wrt (cle c) (qsort_arg d xs)"
proof (induction "length xs" arbitrary: xs rule: less_induct)
  case less
  show ?case
  proof (cases "length xs < 7 \<or> presorted d xs")
    case True
    then show ?thesis
      using less.prems by (subst qsort_arg.simps)
        (auto simp: insertion_sort_agree presorted_agree insertion_sort_correct presorted_sorted)
  next
    case False
    obtain ys d1 d2 where p: "partition_step d xs = (ys, d1, d2)" by (metis prod_cases3)
    define q where "q = xs ! pivot d xs"
    have gt1: "1 < length xs" using False by simp
    note P = partition_step_correct(1,2) [OF p gt1 q_def]
    have len: "length ys = length xs" using P(1) by (metis size_mset)
    define L M R where "L = take d1 ys" and "M = take (length ys - d2 - d1) (drop d1 ys)"
      and "R = drop (length ys - d2) ys"
    define L' R' where "L' = (if d1 > 1 then qsort_arg d L else L)"
      and "R' = (if d2 > 1 then qsort_arg d R else R)"
    have set: "set L' = set L" "set R' = set R"
      using mset_qsort_arg [of d] by (auto simp: L'_def R'_def dest: mset_eq_setD)
    have sub: "set L \<subseteq> set xs" "set M \<subseteq> set xs" "set R \<subseteq> set xs"
      using mset_eq_setD [OF P(1)] by (auto simp: L_def M_def R_def dest: in_set_takeD in_set_dropD)
    have "q \<in> set xs" unfolding q_def using pivot_less [of xs d] gt1 by (intro nth_mem) linarith
    then have dc: "d x q = c x q" if "x \<in> set xs" for x
      using that less.prems by (simp add: cmp_agree_def)
    note parts = partition_parts [OF p gt1 q_def, folded L_def M_def R_def]
    have L: "cle c x q" if "x \<in> set L" for x
      using parts(1) [OF that] dc [of x] sub(1) that by (auto simp: cle_def)
    have R: "cle c q x" if "x \<in> set R" for x
      using parts(3) [OF that] dc [of x] sub(3) that by (auto simp: nonneg_iff [symmetric])
    have M: "cle c q x \<and> cle c x q" if "x \<in> set M" for x
      using parts(2) [OF that] dc [of x] sub(2) that by (auto simp: zero_iff)
    have "sorted_wrt (cle c) L'" "sorted_wrt (cle c) R'"
      using less.hyps [of L] less.hyps [of R] cmp_agree_subset [OF less.prems] sub P(2) len
      by (auto simp: L'_def L_def R'_def R_def sorted_wrt01)
    moreover have "sorted_wrt (cle c) M"
      unfolding sorted_wrt_iff_nth_less using M cle_trans [of _ q] nth_mem order_less_trans
      by metis
    moreover have "qsort_arg d xs = L' @ M @ R'"
      using False by (subst qsort_arg.simps)
        (simp add: p Let_def L'_def R'_def L_def M_def R_def)
    moreover have "cle c x y" if "x \<in> set L' \<and> y \<in> set M \<union> set R' \<or> x \<in> set M \<and> y \<in> set R'" for x y
      using that L M R set cle_trans [of x q y] by blast
    ultimately show ?thesis
      by (simp add: sorted_wrt_append)
  qed
qed

lemma sorted_qsort_arg: "sorted_wrt (cle c) (qsort_arg c xs)"
  by (rule sorted_qsort_arg_agree) (simp add: cmp_agree_def)

end

section \<open>Order statistics\<close>

text \<open>
  Sorting two lists whose elements are pairwise ordered keeps them pairwise ordered.
\<close>

context cmp_preorder
begin

lemma count_le_mono:
  assumes "list_all2 (cle c) as bs"
  shows "length (filter (\<lambda>x. cle c x t) bs) \<le> length (filter (\<lambda>x. cle c x t) as)"
  using assms by (induction rule: list_all2_induct) (auto dest: cle_trans)

lemma sorted_prefix_count:
  assumes "sorted_wrt (cle c) xs" and "k < length (filter (\<lambda>x. cle c x t) xs)"
  shows "cle c (xs ! k) t"
proof -
  obtain i where i: "k \<le> i" "i < length xs" "cle c (xs ! i) t"
  proof (rule ccontr)
    assume "\<not> thesis"
    with that have none: "\<And>i. k \<le> i \<Longrightarrow> i < length xs \<Longrightarrow> \<not> cle c (xs ! i) t" by blast
    have "filter (\<lambda>x. cle c x t) (drop k xs) = []"
      using none by (auto simp: filter_empty_conv in_set_conv_nth)
    then have "filter (\<lambda>x. cle c x t) xs = filter (\<lambda>x. cle c x t) (take k xs)"
      by (metis append_Nil2 append_take_drop_id filter_append)
    then show False
      using assms(2) length_filter_le [of "\<lambda>x. cle c x t" "take k xs"] by simp
  qed
  then show ?thesis
    using sorted_wrt_nth [OF assms(1) i(1,2)] cle_trans by blast
qed

lemma order_statistics:
  assumes "list_all2 (cle c) as bs" and "mset as' = mset as" and "mset bs' = mset bs"
    and "sorted_wrt (cle c) as'" and "sorted_wrt (cle c) bs'" and "k < length bs"
  shows "cle c (as' ! k) (bs' ! k)"
proof (rule sorted_prefix_count [OF assms(4)])
  let ?P = "\<lambda>x. cle c x (bs' ! k)"
  have len: "length bs' = length bs" using assms(3) by (rule mset_eq_length)
  have "\<And>x. x \<in> set (take (Suc k) bs') \<Longrightarrow> ?P x"
    using sorted_wrt_nth [OF assms(5), of _ k] assms(6) len
    by (auto simp: in_set_conv_nth less_Suc_eq_le)
  then have "length (filter ?P (take (Suc k) bs')) = Suc k"
    using assms(6) len by simp
  then have "Suc k \<le> length (filter ?P bs')"
    by (metis append_take_drop_id filter_append le_add1 length_append)
  also have "\<dots> = length (filter ?P bs)"
    using assms(3) by (metis mset_filter size_mset)
  also have "\<dots> \<le> length (filter ?P as)"
    by (rule count_le_mono [OF assms(1)])
  also have "\<dots> = length (filter ?P as')"
    using assms(2) by (metis mset_filter size_mset)
  finally show "k < length (filter ?P as')" by simp
qed

end

section \<open>Correctness\<close>

text \<open>
  C16. With any comparison function that obeys the sign laws, the sort returns a
  permutation of its input in non-decreasing order.
\<close>

theorem qsort_arg_sorts:
  assumes "cmp_preorder cmp"
  shows "mset (qsort_arg cmp xs) = mset xs \<and> sorted_wrt (cle cmp) (qsort_arg cmp xs)"
  using mset_qsort_arg cmp_preorder.sorted_qsort_arg [OF assms] by blast

theorem qsort_arg_sorts_witness:
  "sorted_wrt (cle (\<lambda>a b. a - b)) (qsort_arg (\<lambda>a b. a - b) [5, 3, 9, 1, 7, 2, 8, 3, 6 :: int]) \<and>
   qsort_arg (\<lambda>a b. a - b) [5, 3, 9, 1, 7, 2, 8, 3, 6 :: int] = [1, 2, 3, 3, 5, 6, 7, 8, 9]"
proof -
  have "cmp_preorder (\<lambda>a b :: int. a - b)"
    by unfold_locales auto
  then have "sorted_wrt (cle (\<lambda>a b. a - b)) (qsort_arg (\<lambda>a b. a - b) [5, 3, 9, 1, 7, 2, 8, 3, 6 :: int])"
    using qsort_arg_sorts by blast
  moreover have "qsort_arg (\<lambda>a b. a - b) [5, 3, 9, 1, 7, 2, 8, 3, 6 :: int] = [1, 2, 3, 3, 5, 6, 7, 8, 9]"
    by code_simp
  ultimately show ?thesis by blast
qed

end
