(* ===== verification/Range_Typanalyze.thy ===== *)
theory Range_Typanalyze
  imports Range_Core Qsort "HOL-Library.Signed_Division"
begin

text \<open>
  Statistics gathering for range columns, \<open>rangetypes_typanalyze.c\<close>: the bounds and
  length histograms of \<open>compute_range_stats\<close> and the frequency histogram this fork
  adds (\<open>ComputeFrequencyHistogram\<close>, \<open>count_frequencies\<close>).

  C \<open>int\<close> values are integers with the wrap-around to 32 bits written out
  (\<open>to_int32\<close>); a \<open>Datum\<close> is an unsigned 64-bit word, and an \<open>int\<close> that meets a
  \<open>Datum\<close> in an expression is converted to it first (\<open>to_u64\<close>), as the C conversion
  rules say. Single and double precision arithmetic is exact (theory \<open>Float8\<close>).
\<close>

section \<open>C conversions\<close>

definition to_int32 :: "int \<Rightarrow> int" where
  "to_int32 x = sint (word_of_int x :: 32 word)"

definition to_u64 :: "int \<Rightarrow> int" where
  "to_u64 x = x mod 2 ^ 64"

text \<open>Conversion of a floating point value to \<open>int\<close> truncates.\<close>

definition c_trunc :: "real \<Rightarrow> int" where
  "c_trunc x = (if x < 0 then \<lceil>x\<rceil> else \<lfloor>x\<rfloor>)"

text \<open>
  Reading an array of bounds; \<open>oob\<close> is what lies in memory past its end.
\<close>

definition rd :: "'a \<Rightarrow> 'a list \<Rightarrow> nat \<Rightarrow> 'a" where
  "rd oob xs i = (if i < length xs then xs ! i else oob)"

section \<open>The frequency histogram\<close>

definition roundUpDivision :: "int \<Rightarrow> int \<Rightarrow> int res" where
  "roundUpDivision numerator divider =
     (if divider = 0 \<or> (numerator = - (2 ^ 31) \<and> divider = - 1) then Inl Division_by_zero
      else
        let div' = numerator sdiv divider in
        Inr (if numerator smod divider \<noteq> 0 then to_int32 (div' + 1) else div'))"

text \<open>
  The three loops of one bucket: ranges begun in an earlier bucket, ranges that begin
  in this bucket, and the step over ranges that end in it.
\<close>

definition carried_mult :: "Datum \<Rightarrow> int \<Rightarrow> int \<Rightarrow> int" where
  "carried_mult uval sup' interval_length =
     (if uint uval < to_u64 sup'
      then to_int32 (uint uval - to_int32 (sup' - interval_length + 1))
      else interval_length)"

definition starting_mult :: "Datum \<Rightarrow> Datum \<Rightarrow> int \<Rightarrow> int" where
  "starting_mult lval uval sup' =
     (if to_u64 sup' \<le> uint uval then to_int32 (to_int32 (1 + sup') - uint lval)
      else to_int32 (uint uval - uint lval))"

definition freq_share :: "int \<Rightarrow> Datum \<Rightarrow> Datum \<Rightarrow> float8" where
  "freq_share m lval uval =
     f_div (Fin (of_int m)) (Fin (of_int (to_u64 (uint uval - uint lval))))"

definition carried_count ::
  "Datum RangeBound list \<Rightarrow> Datum RangeBound list \<Rightarrow> nat \<Rightarrow> nat \<Rightarrow> int \<Rightarrow> int \<Rightarrow> float8" where
  "carried_count lowers uppers u l sup' interval_length =
     fold (\<lambda>k cnt.
       let uval = rb_val (uppers ! k); lval = rb_val (lowers ! k) in
       f_add cnt (freq_share (carried_mult uval sup' interval_length) lval uval)) [u..<l] (Fin 0)"

function starting_loop ::
  "Datum RangeBound \<Rightarrow> Datum RangeBound list \<Rightarrow> Datum RangeBound list \<Rightarrow> nat \<Rightarrow> int \<Rightarrow> nat \<Rightarrow> float8
     \<Rightarrow> nat \<times> float8" where
  "starting_loop oob lowers uppers rows sup' l cnt =
     (if to_int32 (uint (rb_val (rd oob lowers l))) \<le> sup' \<and> l < rows then
        let uval = rb_val (uppers ! l); lval = rb_val (lowers ! l) in
        starting_loop oob lowers uppers rows sup' (l + 1)
          (f_add cnt (freq_share (starting_mult lval uval sup') lval uval))
      else (l, cnt))"
  by pat_completeness auto
termination
  by (relation "measure (\<lambda>(oob, lowers, uppers, rows, sup', l, cnt). rows - l)") auto

function ending_loop ::
  "Datum RangeBound \<Rightarrow> Datum RangeBound list \<Rightarrow> nat \<Rightarrow> int \<Rightarrow> nat \<Rightarrow> nat" where
  "ending_loop oob uppers rows sup' u =
     (if to_int32 (uint (rb_val (rd oob uppers u))) \<le> to_int32 (sup' + 1) \<and> u < rows
      then ending_loop oob uppers rows sup' (u + 1) else u)"
  by pat_completeness auto
termination
  by (relation "measure (\<lambda>(oob, uppers, rows, sup', u). rows - u)") auto

declare starting_loop.simps [simp del] ending_loop.simps [simp del]

primrec count_frequencies_loop ::
  "Datum RangeBound \<Rightarrow> Datum RangeBound list \<Rightarrow> Datum RangeBound list \<Rightarrow> nat \<Rightarrow> int \<Rightarrow> nat
     \<Rightarrow> nat \<Rightarrow> nat \<Rightarrow> int \<Rightarrow> float8 list" where
  "count_frequencies_loop oob lowers uppers rows interval_length 0 l u sup' = []"
| "count_frequencies_loop oob lowers uppers rows interval_length (Suc n) l u sup' =
     (let sup' = to_int32 (sup' + interval_length);
          cnt = carried_count lowers uppers u l sup' interval_length;
          (l', cnt) = starting_loop oob lowers uppers rows sup' l cnt;
          u' = ending_loop oob uppers rows sup' u
      in cnt # count_frequencies_loop oob lowers uppers rows interval_length n l' u' sup')"

definition count_frequencies ::
  "Datum RangeBound \<Rightarrow> Datum RangeBound list \<Rightarrow> Datum RangeBound list \<Rightarrow> nat \<Rightarrow> nat \<Rightarrow> int \<Rightarrow> int
     \<Rightarrow> float8 list" where
  "count_frequencies oob lowers uppers nb_of_intervals rows interval_length min' =
     count_frequencies_loop oob lowers uppers rows interval_length nb_of_intervals 0 0
       (to_int32 (min' - 1))"

text \<open>
  \<open>ComputeFrequencyHistogram\<close>. The bound arrays are \<open>None\<close> when the caller never set
  the pointers; \<open>rows\<close> is then 0.
\<close>

definition ComputeFrequencyHistogram ::
  "Datum RangeBound \<Rightarrow> Datum RangeBound list option \<Rightarrow> Datum RangeBound list option \<Rightarrow> nat
     \<Rightarrow> float8 list res" where
  "ComputeFrequencyHistogram oob lowers uppers rows =
     (case (lowers, uppers) of
        (Some lowers, Some uppers) \<Rightarrow>
          if rows = 0 then Inl Undefined_behavior
          else
            let min' = to_int32 (uint (rb_val (lowers ! 0)));
                max' = to_int32 (uint (rb_val (uppers ! (rows - 1))));
                length' = to_int32 (max' - min' + 1)
            in rbind (roundUpDivision length' (c_trunc (1 + 0.05 * of_int length'))) (\<lambda>nb_of_intervals.
               rbind (roundUpDivision length' nb_of_intervals) (\<lambda>interval_length.
                 if nb_of_intervals < 0 then Inl Invalid_memory_alloc
                 else Inr (count_frequencies oob lowers uppers (nat nb_of_intervals) rows
                             interval_length min')))
      | _ \<Rightarrow> Inl Undefined_behavior)"

section \<open>The statistics of a column\<close>

text \<open>
  The fields of \<open>VacAttrStats\<close> the typanalyze routine reads and sets; a slot is a kind with
  its values and numbers. The slot fields that describe the element type are constants of
  each kind and not kept; \<open>attstattarget\<close> is that of the \<open>pg_attribute\<close> row.
\<close>

datatype stavalues = RangeValues "Datum RangeType list" | Float8Values "float8 list"

record stats_slot =
  stakind :: nat
  stavals :: stavalues
  stanumbers :: "float8 list"

record VacAttrStats =
  attstattarget :: int
  minrows :: int
  extra_data :: "Datum TypeCacheEntry option"
  stats_valid :: bool
  stanullfrac :: float8
  stawidth :: int
  stadistinct :: float8
  slots :: "stats_slot list"

definition STATISTIC_KIND_RANGE_LENGTH_HISTOGRAM :: nat where
  "STATISTIC_KIND_RANGE_LENGTH_HISTOGRAM = 6"
definition STATISTIC_KIND_BOUNDS_HISTOGRAM :: nat where
  "STATISTIC_KIND_BOUNDS_HISTOGRAM = 7"
definition STATISTIC_KIND_FREQUENCY_HISTOGRAM :: nat where
  "STATISTIC_KIND_FREQUENCY_HISTOGRAM = 42"

definition range_typanalyze ::
  "Datum lookup \<Rightarrow> Datum fnx \<Rightarrow> Oid \<Rightarrow> int \<Rightarrow> VacAttrStats \<Rightarrow> (VacAttrStats \<times> Datum fnx) res" where
  "range_typanalyze lk fx basetype default_statistics_target stats =
     with_typcache lk fx basetype (\<lambda>typcache.
       let target = (if attstattarget stats < 0 then default_statistics_target
                     else attstattarget stats)
       in Inr (stats\<lparr>attstattarget := target, extra_data := Some typcache,
                     minrows := to_int32 (300 * target)\<rparr>))"

definition float8_qsort_cmp :: "float8 \<Rightarrow> float8 \<Rightarrow> int" where
  "float8_qsort_cmp f1 f2 = (if f_lt f1 f2 then -1 else if f_eq f1 f2 then 0 else 1)"

definition range_bound_qsort_cmp ::
  "Datum TypeCacheEntry \<Rightarrow> Datum RangeBound \<Rightarrow> Datum RangeBound \<Rightarrow> int" where
  "range_bound_qsort_cmp typcache b1 b2 = range_cmp_bounds typcache b1 b2"

text \<open>
  The sample loop: a sample row is NULL (\<open>None\<close>) or a range value with its stored
  size. The accumulator holds the counters and the three arrays.
\<close>

record sample_acc =
  null_cnt :: nat
  non_null_cnt :: nat
  empty_cnt :: nat
  total_width :: real
  acc_lowers :: "Datum RangeBound list"
  acc_uppers :: "Datum RangeBound list"
  acc_lengths :: "float8 list"

definition range_length ::
  "Datum TypeCacheEntry \<Rightarrow> Datum RangeBound \<Rightarrow> Datum RangeBound \<Rightarrow> float8" where
  "range_length typcache lower upper =
     (if rb_infinite lower \<or> rb_infinite upper then PInf
      else case rng_subdiff typcache of
             Some subdiff \<Rightarrow> subdiff (rb_val upper) (rb_val lower)
           | None \<Rightarrow> Fin 1)"

definition sample_step ::
  "Datum TypeCacheEntry \<Rightarrow> (Datum RangeType \<times> nat) option \<Rightarrow> sample_acc \<Rightarrow> sample_acc" where
  "sample_step typcache row acc =
     (case row of
        None \<Rightarrow> acc\<lparr>null_cnt := null_cnt acc + 1\<rparr>
      | Some (r, sz) \<Rightarrow>
          (case range_deserialize typcache r of (lower, upper, emp) \<Rightarrow>
             let acc = acc\<lparr>total_width := total_width acc + real sz\<rparr>;
                 acc = (if \<not> emp then
                          acc\<lparr>acc_lowers := acc_lowers acc @ [lower],
                              acc_uppers := acc_uppers acc @ [upper],
                              acc_lengths := acc_lengths acc @ [range_length typcache lower upper]\<rparr>
                        else acc\<lparr>empty_cnt := empty_cnt acc + 1\<rparr>)
             in acc\<lparr>non_null_cnt := non_null_cnt acc + 1\<rparr>))"

definition sample_loop ::
  "Datum TypeCacheEntry \<Rightarrow> (Datum RangeType \<times> nat) option list \<Rightarrow> sample_acc" where
  "sample_loop typcache rows =
     fold (sample_step typcache) rows
       \<lparr>null_cnt = 0, non_null_cnt = 0, empty_cnt = 0, total_width = 0,
        acc_lowers = [], acc_uppers = [], acc_lengths = []\<rparr>"

text \<open>
  The positions the histogram loops take: \<open>pos\<close> and \<open>posfrac\<close> advance by the quotient
  and the remainder of \<open>nvals - 1\<close> by \<open>num_hist - 1\<close>, with a carry.
\<close>

fun hist_positions :: "nat \<Rightarrow> nat \<Rightarrow> nat \<Rightarrow> nat \<Rightarrow> nat \<Rightarrow> nat \<Rightarrow> nat list" where
  "hist_positions num_hist delta deltafrac 0 pos posfrac = []"
| "hist_positions num_hist delta deltafrac (Suc i) pos posfrac =
     pos # (let pos' = pos + delta; posfrac' = posfrac + deltafrac in
            if posfrac' \<ge> num_hist - 1
            then hist_positions num_hist delta deltafrac i (pos' + 1) (posfrac' - (num_hist - 1))
            else hist_positions num_hist delta deltafrac i pos' posfrac')"

definition hist_sample :: "nat \<Rightarrow> nat \<Rightarrow> nat list" where
  "hist_sample nvals num_hist =
     hist_positions num_hist ((nvals - 1) div (num_hist - 1)) ((nvals - 1) mod (num_hist - 1))
       num_hist 0 0"

text \<open>\<open>num_hist\<close>, the number of entries of the bounds and of the length histogram.\<close>

definition hist_size :: "nat \<Rightarrow> int \<Rightarrow> nat" where
  "hist_size non_empty_cnt num_bins =
     (if int non_empty_cnt > num_bins then nat (num_bins + 1) else non_empty_cnt)"

primrec serialize_all ::
  "Datum TypeCacheEntry \<Rightarrow> (Datum RangeBound \<times> Datum RangeBound) list \<Rightarrow> Datum RangeType list res" where
  "serialize_all typcache [] = Inr []"
| "serialize_all typcache (b # bs) =
     rbind (range_serialize typcache (fst b) (snd b) False) (\<lambda>r.
     rbind (serialize_all typcache bs) (\<lambda>rs. Inr (r # rs)))"

definition compute_range_stats ::
  "Datum RangeBound \<Rightarrow> Datum TypeCacheEntry \<Rightarrow> (Datum RangeType \<times> nat) option list
     \<Rightarrow> VacAttrStats \<Rightarrow> VacAttrStats res" where
  "compute_range_stats oob typcache rows stats =
     (let acc = sample_loop typcache rows;
          samplerows = real (length rows);
          non_empty_cnt = length (acc_lowers acc)
      in if non_null_cnt acc > 0 then
           let nullfrac = Fin (real (null_cnt acc) / samplerows);
               stats = stats\<lparr>stats_valid := True, stanullfrac := nullfrac,
                             stawidth := c_trunc (total_width acc / real (non_null_cnt acc)),
                             stadistinct := f_mul (Fin (-1)) (f_sub (Fin 1) nullfrac), slots := []\<rparr>;
               num_hist = hist_size non_empty_cnt (attstattarget stats);
               lowers = qsort_arg (range_bound_qsort_cmp typcache) (acc_lowers acc);
               uppers = qsort_arg (range_bound_qsort_cmp typcache) (acc_uppers acc);
               lengths = qsort_arg float8_qsort_cmp (acc_lengths acc);
               positions = hist_sample non_empty_cnt num_hist;
               temp_lowers = map (\<lambda>pos. lowers ! pos) positions;
               temp_uppers = map (\<lambda>pos. uppers ! pos) positions;
               emptyfrac = Fin (real (empty_cnt acc) / real (non_null_cnt acc))
           in if non_empty_cnt \<ge> 2 then
                if num_hist = 1 then Inl Division_by_zero else
                rbind (serialize_all typcache (zip temp_lowers temp_uppers)) (\<lambda>bound_hist_values.
                rbind (ComputeFrequencyHistogram oob (Some temp_lowers) (Some temp_uppers) num_hist)
                  (\<lambda>freq.
                  Inr (stats\<lparr>slots :=
                    [\<lparr>stakind = STATISTIC_KIND_BOUNDS_HISTOGRAM,
                      stavals = RangeValues bound_hist_values, stanumbers = []\<rparr>,
                     \<lparr>stakind = STATISTIC_KIND_RANGE_LENGTH_HISTOGRAM,
                      stavals = Float8Values (map (\<lambda>pos. lengths ! pos) positions),
                      stanumbers = [emptyfrac]\<rparr>,
                     \<lparr>stakind = STATISTIC_KIND_FREQUENCY_HISTOGRAM,
                      stavals = Float8Values freq, stanumbers = []\<rparr>]\<rparr>)))
              else
                rbind (ComputeFrequencyHistogram oob None None 0) (\<lambda>freq.
                  Inr (stats\<lparr>slots :=
                    [\<lparr>stakind = STATISTIC_KIND_RANGE_LENGTH_HISTOGRAM,
                      stavals = Float8Values [], stanumbers = [emptyfrac]\<rparr>,
                     \<lparr>stakind = STATISTIC_KIND_FREQUENCY_HISTOGRAM,
                      stavals = Float8Values freq, stanumbers = []\<rparr>]\<rparr>))
         else if null_cnt acc > 0 then
           Inr (stats\<lparr>stats_valid := True, stanullfrac := Fin 1, stawidth := 0,
                      stadistinct := Fin 0\<rparr>)
         else Inr stats)"

section \<open>The histogram positions\<close>

lemma hist_positions_eq:
  assumes m: "num_hist - 1 = m" and "0 < m" and "posfrac < m" and df: "deltafrac < m"
  shows "hist_positions num_hist delta deltafrac k pos posfrac =
    map (\<lambda>j. (pos * m + posfrac + j * (delta * m + deltafrac)) div m) [0..<k]"
  using assms(3)
proof (induction k arbitrary: pos posfrac)
  case (Suc k)
  define s where "s = delta * m + deltafrac"
  obtain pos' posfrac' where
    step: "hist_positions num_hist delta deltafrac (Suc k) pos posfrac =
      pos # hist_positions num_hist delta deltafrac k pos' posfrac'"
    and sum: "pos' * m + posfrac' = pos * m + posfrac + s" and lt: "posfrac' < m"
  proof (cases "posfrac + deltafrac \<ge> m")
    case True
    then have "(pos + delta + 1) * m + (posfrac + deltafrac - m) = pos * m + posfrac + s"
      by (simp add: s_def algebra_simps)
    then show ?thesis
      using that [of "pos + delta + 1" "posfrac + deltafrac - m"] True Suc.prems df
      by (simp add: Let_def m [simplified])
  next
    case False
    then show ?thesis
      using that [of "pos + delta" "posfrac + deltafrac"]
      by (simp add: Let_def m [simplified] s_def algebra_simps)
  qed
  have "map (\<lambda>j. (pos * m + posfrac + j * s) div m) [0..<Suc k] =
    (pos * m + posfrac) div m # map (\<lambda>j. (pos * m + posfrac + s + j * s) div m) [0..<k]"
    unfolding upt_conv_Cons [OF zero_less_Suc] map_Suc_upt [symmetric]
    by (simp add: algebra_simps)
  moreover have "(pos * m + posfrac) div m = pos"
    using Suc.prems by simp
  ultimately show ?case
    using Suc.IH [OF lt, of pos'] unfolding step sum s_def [symmetric] by simp
qed simp

lemma hist_sample_eq:
  assumes "2 \<le> num_hist"
  shows "hist_sample nvals num_hist =
    map (\<lambda>i. (i * (nvals - 1)) div (num_hist - 1)) [0..<num_hist]"
  using assms unfolding hist_sample_def
  by (subst hist_positions_eq [OF refl]) (auto simp: div_mult_mod_eq)

lemma hist_sample_bound:
  assumes "2 \<le> num_hist" and "pos \<in> set (hist_sample nvals num_hist)" and "0 < nvals"
  shows "pos < nvals"
proof -
  from assms(1,2) obtain i where i: "i < num_hist" "pos = (i * (nvals - 1)) div (num_hist - 1)"
    by (auto simp: hist_sample_eq)
  then have "i * (nvals - 1) \<le> (num_hist - 1) * (nvals - 1)"
    by (intro mult_right_mono) simp_all
  then have "pos \<le> ((num_hist - 1) * (nvals - 1)) div (num_hist - 1)"
    unfolding i(2) by (rule div_le_mono)
  then have "pos \<le> nvals - 1"
    using assms(1) by simp
  then show ?thesis using assms(3) by linarith
qed

section \<open>What the frequency histogram counts\<close>

text \<open>
  The safe domain of the C arithmetic: non-negative 31-bit bound values, each lower
  value below its upper value, both arrays ascending. \<open>vl\<close> and \<open>vu\<close> are the values as
  integers.
\<close>

definition freq_dom :: "Datum RangeBound list \<Rightarrow> Datum RangeBound list \<Rightarrow> int list \<Rightarrow> int list \<Rightarrow> bool"
  where
  "freq_dom lowers uppers vl vu \<longleftrightarrow>
     map rb_val lowers = map word_of_int vl \<and> map rb_val uppers = map word_of_int vu \<and>
     length vl = length vu \<and> sorted vl \<and> sorted vu \<and>
     (\<forall>i < length vl. 0 \<le> vl ! i \<and> vl ! i < vu ! i \<and> vu ! i < 2 ^ 31 - 1)"

text \<open>
  The share of range \<open>i\<close> in the bucket whose last value is \<open>s\<close>: the values of the
  bucket in the range, and one more when the (exclusive) upper bound is the last value
  of the bucket, as a fraction of the range's length.
\<close>

definition bucket_share :: "int list \<Rightarrow> int list \<Rightarrow> int \<Rightarrow> int \<Rightarrow> nat \<Rightarrow> real" where
  "bucket_share vl vu len s i =
     of_int (max 0 (min (vu ! i) (s + 1) - max (vl ! i) (s - len + 1))
             + of_bool (vu ! i = s \<and> 2 \<le> len)) / of_int (vu ! i - vl ! i)"

lemma to_int32_id: "- (2 ^ 31) \<le> x \<Longrightarrow> x < 2 ^ 31 \<Longrightarrow> to_int32 x = x"
  using sint_of_bounded [where 'w = 32, of x] by (simp add: to_int32_def)

lemma to_u64_id: "0 \<le> x \<Longrightarrow> x < 2 ^ 64 \<Longrightarrow> to_u64 x = x"
  by (simp add: to_u64_def)

lemma uint_small: "0 \<le> x \<Longrightarrow> x < 2 ^ 31 \<Longrightarrow> uint (word_of_int x :: 64 word) = x"
  by (simp add: uint_word_of_int take_bit_int_eq_self)

lemma freq_domD:
  assumes "freq_dom lowers uppers vl vu" and "i < length vl"
  shows "uint (rb_val (lowers ! i)) = vl ! i" and "uint (rb_val (uppers ! i)) = vu ! i"
    and "0 \<le> vl ! i" and "vl ! i < vu ! i" and "vu ! i < 2 ^ 31 - 1"
    and "length lowers = length vl" and "length uppers = length vl"
proof -
  show b: "0 \<le> vl ! i" "vl ! i < vu ! i" "vu ! i < 2 ^ 31 - 1"
    using assms by (auto simp: freq_dom_def)
  have m: "map rb_val lowers = map word_of_int vl" "map rb_val uppers = map word_of_int vu"
    "length vl = length vu"
    using assms(1) by (auto simp: freq_dom_def)
  show len: "length lowers = length vl" "length uppers = length vl"
    using m map_eq_imp_length_eq by metis+
  have "rb_val (lowers ! i) = word_of_int (vl ! i)" "rb_val (uppers ! i) = word_of_int (vu ! i)"
    using m len assms(2) by (metis nth_map)+
  then show "uint (rb_val (lowers ! i)) = vl ! i" "uint (rb_val (uppers ! i)) = vu ! i"
    using b by (simp_all add: uint_small)
qed

lemma freq_share_eq:
  assumes "uint lval = L" and "uint uval = U" and "0 \<le> L" and "L < U" and "U < 2 ^ 31"
  shows "freq_share m lval uval = Fin (of_int m / of_int (U - L))"
  using assms by (simp add: freq_share_def to_u64_id)

lemma carried_mult_eq:
  assumes "uint uval = U" and "0 \<le> U" and "U < 2 ^ 31" and "0 \<le> s" and "s < 2 ^ 31"
    and "0 \<le> s - len + 1" and "1 \<le> len"
  shows "carried_mult uval s len = (if U < s then U - (s - len + 1) else len)"
  using assms by (simp add: carried_mult_def to_u64_id to_int32_id)

lemma starting_mult_eq:
  assumes "uint lval = L" and "uint uval = U" and "0 \<le> L" and "L < U" and "U < 2 ^ 31"
    and "0 \<le> s" and "s < 2 ^ 31 - 1"
  shows "starting_mult lval uval s = (if s \<le> U then 1 + s - L else U - L)"
  using assms by (simp add: starting_mult_def to_u64_id to_int32_id)

text \<open>The three loops on the safe domain.\<close>

lemma fold_add_Fin:
  "(\<And>k. k \<in> set ks \<Longrightarrow> f k = Fin (g k)) \<Longrightarrow>
   fold (\<lambda>k cnt. f_add cnt (f k)) ks (Fin x) = Fin (x + (\<Sum>k\<leftarrow>ks. g k))"
  by (induction ks arbitrary: x) (auto simp: algebra_simps)

lemma carried_count_eq:
  assumes dom: "freq_dom lowers uppers vl vu" and "l \<le> length vl" and "u \<le> l"
    and s: "0 \<le> s - len + 1" "1 \<le> len" "s < 2 ^ 31 - 1"
    and car: "\<And>i. u \<le> i \<Longrightarrow> i < l \<Longrightarrow> vl ! i < s - len + 1 \<and> s - len + 1 < vu ! i"
  shows "carried_count lowers uppers u l s len = Fin (\<Sum>i = u..<l. bucket_share vl vu len s i)"
proof -
  have "freq_share (carried_mult (rb_val (uppers ! k)) s len) (rb_val (lowers ! k)) (rb_val (uppers ! k))
    = Fin (bucket_share vl vu len s k)" if "k \<in> set [u..<l]" for k
  proof -
    have k: "u \<le> k" "k < l" "k < length vl" using that assms(2) by auto
    note D = freq_domD [OF dom k(3)]
    have m: "carried_mult (rb_val (uppers ! k)) s len =
      (if vu ! k < s then vu ! k - (s - len + 1) else len)"
      by (rule carried_mult_eq [OF D(2)]) (use D s in auto)
    have "(if vu ! k < s then vu ! k - (s - len + 1) else len) =
      max 0 (min (vu ! k) (s + 1) - max (vl ! k) (s - len + 1)) + of_bool (vu ! k = s \<and> 2 \<le> len)"
      using car [OF k(1,2)] s by (auto simp: min_def max_def)
    then show ?thesis
      unfolding m bucket_share_def using D by (subst freq_share_eq [OF D(1,2)]) auto
  qed
  then show ?thesis
    unfolding carried_count_def Let_def
    by (subst fold_add_Fin [where g = "bucket_share vl vu len s"])
      (auto simp: sum_list_distinct_conv_sum_set)
qed

lemma starting_loop_eq:
  assumes dom: "freq_dom lowers uppers vl vu" and rows: "rows = length vl" and "l \<le> rows"
    and s: "0 \<le> s - len + 1" "1 \<le> len" "s < 2 ^ 31 - 1"
    and st: "\<And>i. l \<le> i \<Longrightarrow> i < rows \<Longrightarrow> s - len + 1 \<le> vl ! i"
  shows "\<exists>l'. starting_loop oob lowers uppers rows s l (Fin x) =
      (l', Fin (x + (\<Sum>i = l..<l'. bucket_share vl vu len s i))) \<and> l \<le> l' \<and> l' \<le> rows \<and>
    (\<forall>i. l \<le> i \<and> i < l' \<longrightarrow> vl ! i \<le> s) \<and> (\<forall>i. l' \<le> i \<and> i < rows \<longrightarrow> s < vl ! i)"
  using assms(3) st
proof (induction "rows - l" arbitrary: l x)
  case 0
  then show ?case by (subst starting_loop.simps) (auto intro!: exI [of _ l])
next
  case (Suc n)
  then have lt: "l < rows" by simp
  note D = freq_domD [OF dom lt [unfolded rows]]
  have rd: "to_int32 (uint (rb_val (rd oob lowers l))) = vl ! l"
    using D lt rows by (simp add: rd_def to_int32_id)
  show ?case
  proof (cases "vl ! l \<le> s")
    case False
    have "s < vl ! i" if "l \<le> i" "i < rows" for i
      using False dom that rows sorted_nth_mono [of vl l i] by (auto simp: freq_dom_def)
    then show ?thesis
      using False rd lt by (subst starting_loop.simps) (auto intro!: exI [of _ l])
  next
    case True
    have m: "starting_mult (rb_val (lowers ! l)) (rb_val (uppers ! l)) s =
      (if s \<le> vu ! l then 1 + s - vl ! l else vu ! l - vl ! l)"
      by (rule starting_mult_eq [OF D(1,2)]) (use D s in auto)
    have "(if s \<le> vu ! l then 1 + s - vl ! l else vu ! l - vl ! l) =
      max 0 (min (vu ! l) (s + 1) - max (vl ! l) (s - len + 1)) + of_bool (vu ! l = s \<and> 2 \<le> len)"
      using Suc.prems(2) [of l] lt True s D(4) by (auto simp: min_def max_def)
    then have share: "freq_share (starting_mult (rb_val (lowers ! l)) (rb_val (uppers ! l)) s)
      (rb_val (lowers ! l)) (rb_val (uppers ! l)) = Fin (bucket_share vl vu len s l)"
      unfolding m bucket_share_def using D by (subst freq_share_eq [OF D(1,2)]) auto
    have step: "starting_loop oob lowers uppers rows s l (Fin x) =
      starting_loop oob lowers uppers rows s (l + 1) (Fin (x + bucket_share vl vu len s l))"
      using True rd lt by (subst starting_loop.simps) (simp add: share)
    have ih: "n = rows - (l + 1)" "l + 1 \<le> rows"
      "\<And>i. l + 1 \<le> i \<Longrightarrow> i < rows \<Longrightarrow> s - len + 1 \<le> vl ! i"
      using Suc.hyps(2) Suc.prems(2) lt by auto
    obtain l' where l': "starting_loop oob lowers uppers rows s (l + 1) (Fin (x + bucket_share vl vu len s l)) =
        (l', Fin (x + bucket_share vl vu len s l + (\<Sum>i = l + 1..<l'. bucket_share vl vu len s i)))"
      "l + 1 \<le> l'" "l' \<le> rows" "\<forall>i. l + 1 \<le> i \<and> i < l' \<longrightarrow> vl ! i \<le> s"
      "\<forall>i. l' \<le> i \<and> i < rows \<longrightarrow> s < vl ! i"
      using Suc.hyps(1) [OF ih, of "x + bucket_share vl vu len s l"] by blast
    have "vl ! i \<le> s" if "l \<le> i" "i < l'" for i
      using that True l'(4) by (cases "i = l") auto
    moreover have "(\<Sum>i = l..<l'. bucket_share vl vu len s i) =
      bucket_share vl vu len s l + (\<Sum>i = l + 1..<l'. bucket_share vl vu len s i)"
      using l'(2) sum.atLeast_Suc_lessThan [of l l' "bucket_share vl vu len s"] by simp
    ultimately show ?thesis
      unfolding step using l' by (intro exI [of _ l']) simp
  qed
qed

lemma ending_loop_eq:
  assumes dom: "freq_dom lowers uppers vl vu" and rows: "rows = length vl" and "u \<le> rows"
    and s: "0 \<le> s" "s < 2 ^ 31 - 1"
  shows "\<exists>u'. ending_loop oob uppers rows s u = u' \<and> u \<le> u' \<and> u' \<le> rows \<and>
    (\<forall>i. u \<le> i \<and> i < u' \<longrightarrow> vu ! i \<le> s + 1) \<and> (\<forall>i. u' \<le> i \<and> i < rows \<longrightarrow> s + 1 < vu ! i)"
  using assms(3)
proof (induction "rows - u" arbitrary: u)
  case 0
  then show ?case by (subst ending_loop.simps) auto
next
  case (Suc n)
  then have lt: "u < rows" by simp
  note D = freq_domD [OF dom lt [unfolded rows]]
  have rd: "to_int32 (uint (rb_val (rd oob uppers u))) = vu ! u" and s1: "to_int32 (s + 1) = s + 1"
    using D lt rows s by (simp_all add: rd_def to_int32_id)
  show ?case
  proof (cases "vu ! u \<le> s + 1")
    case False
    have "s + 1 < vu ! i" if "u \<le> i" "i < rows" for i
      using False dom that rows sorted_nth_mono [of vu u i] by (auto simp: freq_dom_def)
    then show ?thesis
      using False rd s1 lt by (subst ending_loop.simps) auto
  next
    case True
    have "ending_loop oob uppers rows s u = ending_loop oob uppers rows s (u + 1)"
      using True rd s1 lt by (subst ending_loop.simps) simp
    moreover have "n = rows - (u + 1)" "u + 1 \<le> rows"
      using Suc.hyps(2) lt by auto
    ultimately show ?thesis
      using Suc.hyps(1) [of "u + 1"] True by (auto simp: Suc_le_eq) (metis le_neq_implies_less)
  qed
qed

lemma bucket_share_zero:
  assumes "freq_dom lowers uppers vl vu" and "i < length vl" and "1 \<le> len"
    and "vu ! i \<le> s - len + 1 \<or> s < vl ! i"
  shows "bucket_share vl vu len s i = 0"
  using freq_domD(4) [OF assms(1,2)] assms(3,4) by (auto simp: bucket_share_def)

lemma count_frequencies_loop_eq:
  assumes dom: "freq_dom lowers uppers vl vu" and rows: "rows = length vl"
    and len: "1 \<le> len" and "0 \<le> s + 1" and "s + int n * len < 2 ^ 31 - 1"
    and "l \<le> rows" and "u \<le> rows"
    and "\<And>i. i < l \<Longrightarrow> vl ! i \<le> s" and "\<And>i. l \<le> i \<Longrightarrow> i < rows \<Longrightarrow> s < vl ! i"
    and "\<And>i. i < u \<Longrightarrow> vu ! i \<le> s + 1" and "\<And>i. u \<le> i \<Longrightarrow> i < rows \<Longrightarrow> s + 1 < vu ! i"
  shows "count_frequencies_loop oob lowers uppers rows len n l u s =
    map (\<lambda>j. Fin (\<Sum>i < rows. bucket_share vl vu len (s + int (Suc j) * len) i)) [0..<n]"
  using assms(4-)
proof (induction n arbitrary: l u s)
  case (Suc n)
  let ?t = "s + len"
  have "0 \<le> int n * len" "s + int (Suc n) * len = ?t + int n * len"
    using len by (simp_all add: algebra_simps)
  then have b: "?t < 2 ^ 31 - 1" "0 \<le> ?t - len + 1" "0 \<le> ?t" "?t + int n * len < 2 ^ 31 - 1"
    using Suc.prems(1,2) len by linarith+
  have t: "to_int32 (s + len) = ?t"
    using b by (simp add: to_int32_id)
  have ul: "u \<le> l"
  proof (rule ccontr)
    assume "\<not> u \<le> l"
    then have "vu ! l \<le> s + 1" "s < vl ! l" "l < length vl"
      using Suc.prems(6,7) [of l] Suc.prems(4) rows by auto
    then show False using freq_domD(4) [OF dom, of l] by simp
  qed
  have c: "carried_count lowers uppers u l ?t len = Fin (\<Sum>i = u..<l. bucket_share vl vu len ?t i)"
    by (rule carried_count_eq [OF dom]) (use Suc.prems rows ul len b in force)+
  obtain l' where l': "starting_loop oob lowers uppers rows ?t l
      (Fin (\<Sum>i = u..<l. bucket_share vl vu len ?t i)) =
      (l', Fin ((\<Sum>i = u..<l. bucket_share vl vu len ?t i) + (\<Sum>i = l..<l'. bucket_share vl vu len ?t i)))"
    "l \<le> l'" "l' \<le> rows" "\<forall>i. l \<le> i \<and> i < l' \<longrightarrow> vl ! i \<le> ?t" "\<forall>i. l' \<le> i \<and> i < rows \<longrightarrow> ?t < vl ! i"
    using starting_loop_eq [OF dom rows Suc.prems(3), of ?t len oob] Suc.prems(6) len b by force
  obtain u' where u': "ending_loop oob uppers rows ?t u = u'" "u \<le> u'" "u' \<le> rows"
    "\<forall>i. u \<le> i \<and> i < u' \<longrightarrow> vu ! i \<le> ?t + 1" "\<forall>i. u' \<le> i \<and> i < rows \<longrightarrow> ?t + 1 < vu ! i"
    using ending_loop_eq [OF dom rows Suc.prems(4), of ?t oob] b by force
  have z: "bucket_share vl vu len ?t i = 0" if "i < u \<or> l' \<le> i" "i < rows" for i
    by (rule bucket_share_zero [OF dom]) (use that Suc.prems(7) l'(5) rows len in force)+
  have "(\<Sum>i = u..<l. bucket_share vl vu len ?t i) + (\<Sum>i = l..<l'. bucket_share vl vu len ?t i) =
    (\<Sum>i = u..<l'. bucket_share vl vu len ?t i)"
    using ul l'(2) by (rule sum.atLeastLessThan_concat)
  also have "\<dots> = (\<Sum>i < rows. bucket_share vl vu len ?t i)"
    by (rule sum.mono_neutral_left) (use z l'(3) in auto)
  finally have sum: "(\<Sum>i = u..<l. bucket_share vl vu len ?t i) + (\<Sum>i = l..<l'. bucket_share vl vu len ?t i)
    = (\<Sum>i < rows. bucket_share vl vu len ?t i)" .
  have ih: "count_frequencies_loop oob lowers uppers rows len n l' u' ?t =
    map (\<lambda>j. Fin (\<Sum>i < rows. bucket_share vl vu len (?t + int (Suc j) * len) i)) [0..<n]"
  proof (rule Suc.IH)
    show "vl ! i \<le> ?t" if "i < l'" for i
      using that l'(4) Suc.prems(5) [of i] len by (cases "i < l") auto
    show "vu ! i \<le> ?t + 1" if "i < u'" for i
      using that u'(4) Suc.prems(7) [of i] len by (cases "i < u") auto
  qed (use b l' u' in auto)
  have "map (\<lambda>j. Fin (\<Sum>i < rows. bucket_share vl vu len (s + int (Suc j) * len) i)) [0..<Suc n] =
    Fin (\<Sum>i < rows. bucket_share vl vu len ?t i) #
    map (\<lambda>j. Fin (\<Sum>i < rows. bucket_share vl vu len (?t + int (Suc j) * len) i)) [0..<n]"
    unfolding upt_conv_Cons [OF zero_less_Suc] map_Suc_upt [symmetric]
    by (simp add: algebra_simps)
  then show ?case
    by (simp add: t c l'(1) u'(1) sum ih Let_def del: upt_Suc)
qed simp

text \<open>The rounding-up division, and the number and the length of the buckets.\<close>

lemma roundUpDivision_pos:
  assumes "0 \<le> n" and "n < 2 ^ 31" and "0 < d"
  shows "roundUpDivision n d = Inr ((n + d - 1) div d)"
proof -
  have sdm: "n sdiv d = n div d" "n smod d = n mod d"
    using assms by (auto simp: signed_divide_int_def signed_modulo_int_def sgn_if)
  have "0 \<le> n div d"
    using assms by (simp add: pos_imp_zdiv_nonneg_iff)
  then have b: "0 \<le> n div d" "n div d + 1 < 2 ^ 31" if "n mod d \<noteq> 0"
  proof -
    have "n div d * d + n mod d = n" by simp
    moreover have "n div d * 1 \<le> n div d * d" using \<open>0 \<le> n div d\<close> assms(3) by (intro mult_left_mono) auto
    moreover have "0 < n mod d" using that assms(3) pos_mod_sign [of d n] by linarith
    ultimately show "n div d + 1 < 2 ^ 31" using assms(2) by linarith
  qed simp
  have q: "(n + d - 1) div d = (if n mod d \<noteq> 0 then n div d + 1 else n div d)"
  proof -
    have e: "n + d - 1 = (n mod d + d - 1) + n div d * d" by simp
    have "(n + d - 1) div d = n div d + (n mod d + d - 1) div d"
      by (subst e) (use assms(3) in \<open>simp del: div_mult_mod_eq mult_div_mod_eq\<close>)
    moreover have "(n mod d + d - 1) div d = (if n mod d \<noteq> 0 then 1 else 0)"
      using assms(3) pos_mod_sign [of d n] pos_mod_bound [of d n] pos_mod_sign [of d n, THEN le_imp_less_or_eq]
      by (auto simp: div_pos_pos_trivial simp del: pos_mod_sign pos_mod_bound
            intro!: int_div_pos_eq [where r = "n mod d - 1"])
    ultimately show ?thesis by simp
  qed
  show ?thesis
    unfolding q using assms b by (auto simp: roundUpDivision_def sdm Let_def to_int32_id)
qed

lemma c_trunc_twentieth: "0 \<le> n \<Longrightarrow> c_trunc (1 + 0.05 * of_int n) = 1 + n div 20"
proof -
  assume "0 \<le> n"
  have "1 + 0.05 * real_of_int n = real_of_int n / 20 + 1"
    by simp
  then have "\<lfloor>1 + 0.05 * real_of_int n\<rfloor> = 1 + \<lfloor>real_of_int n / 20\<rfloor>"
    using one_add_floor [of "real_of_int n / 20"] by (simp only: add.commute)
  also have "\<lfloor>real_of_int n / 20\<rfloor> = n div 20"
    using floor_divide_of_int_eq [of n 20, where ?'a = real] by simp
  finally show ?thesis using \<open>0 \<le> n\<close> by (simp add: c_trunc_def)
qed

lemma ceil_div_bounds:
  fixes n d :: int
  assumes "1 \<le> n" and "1 \<le> d"
  shows "1 \<le> (n + d - 1) div d" and "n \<le> d * ((n + d - 1) div d)" and "d * ((n + d - 1) div d) \<le> n + d - 1"
proof -
  have e: "d * ((n + d - 1) div d) = n + d - 1 - (n + d - 1) mod d"
    by (simp add: minus_mod_eq_mult_div)
  have m: "0 \<le> (n + d - 1) mod d" "(n + d - 1) mod d < d" using assms by auto
  show "n \<le> d * ((n + d - 1) div d)" "d * ((n + d - 1) div d) \<le> n + d - 1"
    using e m by linarith+
  show "1 \<le> (n + d - 1) div d"
    using assms pos_imp_zdiv_pos_iff [of d "n + d - 1"] by simp
qed

definition bucket_number :: "int \<Rightarrow> int" where
  "bucket_number n = (n + n div 20) div (1 + n div 20)"

definition bucket_length :: "int \<Rightarrow> int" where
  "bucket_length n = (n + bucket_number n - 1) div bucket_number n"

lemma bucket_number_bounds: "1 \<le> n \<Longrightarrow> 1 \<le> bucket_number n \<and> bucket_number n \<le> 20"
proof -
  assume n: "1 \<le> n"
  define k where "k = n div 20"
  have k: "0 \<le> k" "n \<le> 20 * k + 19" "20 * k \<le> n" using n by (auto simp: k_def)
  have "(n + k) div (1 + k) < 21"
    using k zdiv_mono1 [of "n + k" "21 * (1 + k) - 1" "1 + k"] int_div_pos_eq [of "21 * (1 + k) - 1" "1 + k" 20 k]
    by (auto simp: algebra_simps)
  then show ?thesis
    unfolding bucket_number_def k_def [symmetric]
    using ceil_div_bounds(1) [of n "1 + k"] n k(1) by (simp add: algebra_simps)
qed

lemma bucket_cover:
  assumes "1 \<le> n"
  shows "1 \<le> bucket_length n" and "n \<le> bucket_number n * bucket_length n"
    and "bucket_number n * bucket_length n \<le> n + 19"
  using ceil_div_bounds [of n "bucket_number n"] bucket_number_bounds [OF assms] assms
  by (auto simp: bucket_length_def)

lemma sorted_hd_last:
  fixes xs :: "'b::linorder list"
  assumes "sorted xs" and "i < length xs"
  shows "hd xs \<le> xs ! i" and "xs ! i \<le> last xs"
proof -
  have "xs \<noteq> []" using assms(2) by auto
  then show "hd xs \<le> xs ! i" "xs ! i \<le> last xs"
    using assms sorted_nth_mono [of xs 0 i] sorted_nth_mono [of xs i "length xs - 1"]
    by (auto simp: hd_conv_nth last_conv_nth)
qed

lemma ComputeFrequencyHistogram_eq:
  assumes dom: "freq_dom lowers uppers vl vu" and "vl \<noteq> []" and top: "last vu < 2 ^ 31 - 20"
    and n: "n = last vu - hd vl + 1"
  shows "ComputeFrequencyHistogram oob (Some lowers) (Some uppers) (length vl) =
    Inr (map (\<lambda>j. Fin (\<Sum>i < length vl.
           bucket_share vl vu (bucket_length n) (hd vl - 1 + int (Suc j) * bucket_length n) i))
         [0..<nat (bucket_number n)])"
proof -
  let ?m = "length vl - 1"
  have ne: "0 < length vl" "?m < length vl" using \<open>vl \<noteq> []\<close> by auto
  have len: "length vu = length vl" using dom by (simp add: freq_dom_def)
  have hd: "hd vl = vl ! 0" and last: "last vu = vu ! ?m"
    using \<open>vl \<noteq> []\<close> len hd_conv_nth [of vl] last_conv_nth [of vu] by force+
  note D0 = freq_domD [OF dom ne(1)] and Dm = freq_domD [OF dom ne(2)]
  have le: "vl ! 0 \<le> vl ! ?m" using dom ne by (auto simp: freq_dom_def intro: sorted_nth_mono)
  have n1: "1 \<le> n" "n < 2 ^ 31" "hd vl - 1 + n < 2 ^ 31 - 20" "0 \<le> hd vl"
    using n D0 Dm le top hd last by auto
  have lm: "to_int32 (uint (rb_val (lowers ! 0))) = hd vl" "to_int32 (uint (rb_val (uppers ! ?m))) = last vu"
    "to_int32 (last vu - hd vl + 1) = n"
    using D0 Dm hd last n n1 by (simp_all add: to_int32_id)
  have "0 < 1 + n div 20" using n1 by (simp add: pos_imp_zdiv_nonneg_iff add_pos_nonneg)
  then have k: "roundUpDivision n (c_trunc (1 + 0.05 * real_of_int n)) = Inr (bucket_number n)"
    using n1 by (subst c_trunc_twentieth) (simp_all add: roundUpDivision_pos bucket_number_def)
  have b: "1 \<le> bucket_number n" "roundUpDivision n (bucket_number n) = Inr (bucket_length n)"
    using bucket_number_bounds [OF n1(1)] n1 by (auto simp: bucket_length_def roundUpDivision_pos)
  have hl: "hd vl \<le> vl ! i" if "i < length vl" for i
    using sorted_hd_last(1) [of vl i] dom that by (simp add: freq_dom_def)
  have "count_frequencies_loop oob lowers uppers (length vl) (bucket_length n) (nat (bucket_number n)) 0 0
      (hd vl - 1) = map (\<lambda>j. Fin (\<Sum>i < length vl.
           bucket_share vl vu (bucket_length n) (hd vl - 1 + int (Suc j) * bucket_length n) i))
         [0..<nat (bucket_number n)]"
  proof (rule count_frequencies_loop_eq [OF dom refl bucket_cover(1) [OF n1(1)]])
    show "hd vl - 1 + int (nat (bucket_number n)) * bucket_length n < 2 ^ 31 - 1"
      using bucket_cover(3) [OF n1(1)] b n1(3) by simp
    show "hd vl - 1 < vl ! i" if "i < length vl" for i
      using hl [OF that] by simp
    show "hd vl - 1 + 1 < vu ! i" if "i < length vl" for i
      using hl [OF that] freq_domD(4) [OF dom that] by simp
  qed (use n1 in auto)
  moreover have "to_int32 (hd vl - 1) = hd vl - 1"
    using n1 by (simp add: to_int32_id)
  ultimately show ?thesis
    using ne lm k b by (simp add: ComputeFrequencyHistogram_def count_frequencies_def Let_def)
qed

text \<open>
  The shares of one range over consecutive buckets that cover it add up to 1, plus the
  value counted twice.
\<close>

definition overlap :: "int \<Rightarrow> int \<Rightarrow> int \<Rightarrow> int \<Rightarrow> int" where
  "overlap L U a b = max 0 (min U b - max L a)"

lemma overlap_sum:
  assumes "1 \<le> len"
  shows "(\<Sum>j < k. overlap L U (a + int j * len) (a + int (Suc j) * len)) = overlap L U a (a + int k * len)"
proof (induction k)
  case (Suc k)
  have step: "overlap L U a b + overlap L U b c = overlap L U a c" if "a \<le> b" "b \<le> c" for b c
    using that by (auto simp: overlap_def min_def max_def)
  have "a \<le> a + int k * len" "a + int k * len \<le> a + int (Suc k) * len"
    using assms by (simp_all add: algebra_simps)
  from step [OF this] show ?case using Suc by simp
qed (simp add: overlap_def)

lemma bucket_hits:
  assumes "1 \<le> len" and "1 \<le> x" and "x \<le> int k * len"
  shows "(\<Sum>j < k. of_bool (x = int (Suc j) * len)) = (of_bool (len dvd x) :: int)"
proof (cases "len dvd x")
  case True
  then obtain q where q: "x = q * len" by (metis dvd_def mult.commute)
  have "1 \<le> q" using q assms(1,2) by (metis mult_le_0_iff not_le zero_less_one_class.zero_le_one int_one_le_iff_zero_less linorder_not_le order.trans)
  moreover have "q \<le> int k" using q assms by simp
  moreover have "(x = int (Suc j) * len) = (j = nat (q - 1))" for j
    using q assms(1) \<open>1 \<le> q\<close> by auto
  ultimately show ?thesis
    using True by (simp add: nat_less_iff of_bool_def)
qed (auto simp: of_bool_def intro!: sum.neutral)


lemma bucket_share_total:
  assumes dom: "freq_dom lowers uppers vl vu" and i: "i < length vl" and n: "n = last vu - hd vl + 1"
  shows "(\<Sum>j < nat (bucket_number n).
           bucket_share vl vu (bucket_length n) (hd vl - 1 + int (Suc j) * bucket_length n) i) =
    1 + of_bool (2 \<le> bucket_length n \<and> bucket_length n dvd vu ! i - hd vl + 1) / of_int (vu ! i - vl ! i)"
proof -
  let ?len = "bucket_length n" and ?k = "nat (bucket_number n)" and ?L = "vl ! i" and ?U = "vu ! i"
  note D = freq_domD [OF dom i]
  have hl: "hd vl \<le> ?L" "?U \<le> last vu"
    using sorted_hd_last [of vl i] sorted_hd_last [of vu i] dom i by (auto simp: freq_dom_def)
  have n1: "1 \<le> n" using n D hl by simp
  have c: "1 \<le> ?len" "n \<le> int ?k * ?len"
    using bucket_cover [OF n1] bucket_number_bounds [OF n1] by auto
  have ov: "overlap ?L ?U (hd vl) (hd vl + int ?k * ?len) = ?U - ?L"
    using hl c n D(4) by (auto simp: overlap_def)
  have s: "max 0 (min ?U (hd vl - 1 + int (Suc j) * ?len + 1) - max ?L (hd vl - 1 + int (Suc j) * ?len - ?len + 1))
    = overlap ?L ?U (hd vl + int j * ?len) (hd vl + int (Suc j) * ?len)" for j
    by (simp add: overlap_def algebra_simps)
  have h: "(?U = hd vl - 1 + int (Suc j) * ?len) = (?U - hd vl + 1 = int (Suc j) * ?len)" for j
    by linarith
  have hits: "(\<Sum>j < ?k. of_bool (?U - hd vl + 1 = int (Suc j) * ?len \<and> 2 \<le> ?len)) =
    (of_bool (2 \<le> ?len \<and> ?len dvd ?U - hd vl + 1) :: int)"
    using bucket_hits [of ?len "?U - hd vl + 1" ?k] c hl D(4) n by (cases "2 \<le> ?len") auto
  have "(\<Sum>j < ?k. bucket_share vl vu ?len (hd vl - 1 + int (Suc j) * ?len) i) =
    of_int ((\<Sum>j < ?k. overlap ?L ?U (hd vl + int j * ?len) (hd vl + int (Suc j) * ?len)) +
      (\<Sum>j < ?k. of_bool (?U - hd vl + 1 = int (Suc j) * ?len \<and> 2 \<le> ?len))) / of_int (?U - ?L)"
    unfolding bucket_share_def s h sum_divide_distrib [symmetric] of_int_sum [symmetric] sum.distrib ..
  also have "\<dots> = of_int (?U - ?L + of_bool (2 \<le> ?len \<and> ?len dvd ?U - hd vl + 1)) / of_int (?U - ?L)"
    unfolding overlap_sum [OF c(1)] ov hits ..
  finally show ?thesis
    using D(4) by (simp add: add_divide_distrib)
qed

lemma frequency_total:
  assumes dom: "freq_dom lowers uppers vl vu" and "vl \<noteq> []" and top: "last vu < 2 ^ 31 - 20"
    and n: "n = last vu - hd vl + 1"
  obtains fs where "ComputeFrequencyHistogram oob (Some lowers) (Some uppers) (length vl) = Inr (map Fin fs)"
    and "length fs = nat (bucket_number n)"
    and "sum_list fs = length vl + (\<Sum>i < length vl.
           of_bool (2 \<le> bucket_length n \<and> bucket_length n dvd vu ! i - hd vl + 1) / of_int (vu ! i - vl ! i))"
proof
  let ?f = "\<lambda>j. \<Sum>i < length vl.
    bucket_share vl vu (bucket_length n) (hd vl - 1 + int (Suc j) * bucket_length n) i"
  let ?fs = "map ?f [0..<nat (bucket_number n)]"
  show "ComputeFrequencyHistogram oob (Some lowers) (Some uppers) (length vl) = Inr (map Fin ?fs)"
    using ComputeFrequencyHistogram_eq [OF assms, of oob] by (simp add: comp_def)
  have "sum_list ?fs = (\<Sum>j < nat (bucket_number n). ?f j)"
    by (simp add: sum_list_distinct_conv_sum_set lessThan_atLeast0)
  also have "\<dots> = (\<Sum>i < length vl. \<Sum>j < nat (bucket_number n).
    bucket_share vl vu (bucket_length n) (hd vl - 1 + int (Suc j) * bucket_length n) i)"
    by (rule sum.swap)
  also have "\<dots> = (\<Sum>i < length vl. 1 +
    of_bool (2 \<le> bucket_length n \<and> bucket_length n dvd vu ! i - hd vl + 1) / of_int (vu ! i - vl ! i))"
    by (rule sum.cong) (use bucket_share_total [OF dom _ n] in auto)
  finally show "sum_list ?fs = length vl + (\<Sum>i < length vl.
    of_bool (2 \<le> bucket_length n \<and> bucket_length n dvd vu ! i - hd vl + 1) / of_int (vu ! i - vl ! i))"
    by (simp add: sum.distrib)
qed simp

text \<open>
  The same entries counted element by element: bucket \<open>j\<close> holds \<open>len\<close> consecutive values,
  and a range adds the fraction of its elements that are values of the bucket. A range
  whose upper bound is the last value of the bucket adds one element too many there.
\<close>

definition bucket_values :: "int list \<Rightarrow> int \<Rightarrow> nat \<Rightarrow> int set" where
  "bucket_values vl len j = {hd vl + int j * len..<hd vl + int (Suc j) * len}"

definition bucket_count :: "int list \<Rightarrow> int list \<Rightarrow> int \<Rightarrow> nat \<Rightarrow> real" where
  "bucket_count vl vu len j =
     (\<Sum>i < length vl. (real (card ({vl ! i..<vu ! i} \<inter> bucket_values vl len j))
        + of_bool (2 \<le> len \<and> vu ! i = hd vl + int (Suc j) * len - 1)) / real (card {vl ! i..<vu ! i}))"

lemma bucket_share_count:
  assumes "freq_dom lowers uppers vl vu"
  shows "(\<Sum>i < length vl. bucket_share vl vu len (hd vl - 1 + int (Suc j) * len) i) = bucket_count vl vu len j"
  unfolding bucket_count_def
proof (rule sum.cong [OF refl])
  fix i assume "i \<in> {..<length vl}"
  then have lt: "vl ! i < vu ! i" using freq_domD(4) [OF assms] by simp
  have c: "{vl ! i..<vu ! i} \<inter> bucket_values vl len j =
    {max (vl ! i) (hd vl - 1 + int (Suc j) * len - len + 1)..<min (vu ! i) (hd vl - 1 + int (Suc j) * len + 1)}"
    by (simp add: bucket_values_def algebra_simps)
  have "real (nat x) = of_int (max 0 x)" for x by simp
  then show "bucket_share vl vu len (hd vl - 1 + int (Suc j) * len) i =
    (real (card ({vl ! i..<vu ! i} \<inter> bucket_values vl len j))
        + of_bool (2 \<le> len \<and> vu ! i = hd vl + int (Suc j) * len - 1)) / real (card {vl ! i..<vu ! i})"
    unfolding c card_atLeastLessThan_int bucket_share_def using lt
    by (simp add: conj_commute algebra_simps)
qed

lemma buckets_cover:
  assumes "1 \<le> len" and "m < hd vl + int k * len"
  shows "{hd vl..m} \<subseteq> (\<Union>j < k. bucket_values vl len j)"
proof
  fix x assume x: "x \<in> {hd vl..m}"
  define j where "j = (x - hd vl) div len"
  have "0 \<le> j" using x assms(1) by (simp add: j_def pos_imp_zdiv_nonneg_iff)
  moreover have "j * len \<le> x - hd vl" "x - hd vl < (j + 1) * len"
    using assms(1) pos_mod_sign [of len "x - hd vl"] pos_mod_bound [of len "x - hd vl"]
      div_mult_mod_eq [of "x - hd vl" len, folded j_def] unfolding distrib_right by linarith+
  moreover have "j < int k"
  proof (rule mult_right_less_imp_less)
    show "j * len < int k * len" using calculation(2) x assms(2) by simp
  qed (use assms(1) in simp)
  ultimately have "nat j < k" "x \<in> bucket_values vl len (nat j)"
    by (auto simp: bucket_values_def algebra_simps)
  then show "x \<in> (\<Union>j < k. bucket_values vl len j)" by blast
qed

lemma frequency_entries:
  assumes "freq_dom lowers uppers vl vu" and "vl \<noteq> []" and "last vu < 2 ^ 31 - 20"
    and n: "n = last vu - hd vl + 1"
  shows "ComputeFrequencyHistogram oob (Some lowers) (Some uppers) (length vl) =
    Inr (map Fin (map (bucket_count vl vu (bucket_length n)) [0..<nat (bucket_number n)]))"
  unfolding ComputeFrequencyHistogram_eq [OF assms] bucket_share_count [OF assms(1)] by (simp add: comp_def)

section \<open>The sample and the bounds histogram\<close>

text \<open>The bounds of the non-empty ranges of a sample, in order.\<close>

definition sampled_bounds ::
  "Datum TypeCacheEntry \<Rightarrow> (Datum RangeType \<times> nat) option list \<Rightarrow> (Datum RangeBound \<times> Datum RangeBound) list"
  where
  "sampled_bounds tc rows = concat (map (\<lambda>row. case row of None \<Rightarrow> []
     | Some (r, _) \<Rightarrow> (case range_deserialize tc r of (l, u, e) \<Rightarrow> if e then [] else [(l, u)])) rows)"

lemma sample_loop_fields:
  "acc_lowers (sample_loop tc rows) = map fst (sampled_bounds tc rows)"
  "acc_uppers (sample_loop tc rows) = map snd (sampled_bounds tc rows)"
  "acc_lengths (sample_loop tc rows) = map (\<lambda>(l, u). range_length tc l u) (sampled_bounds tc rows)"
  "null_cnt (sample_loop tc rows) = length (filter (\<lambda>row. row = None) rows)"
  "non_null_cnt (sample_loop tc rows) = length (filter (\<lambda>row. row \<noteq> None) rows)"
  "empty_cnt (sample_loop tc rows) + length (sampled_bounds tc rows) = non_null_cnt (sample_loop tc rows)"
  by (induction rows rule: rev_induct)
    (auto simp: sample_loop_def sampled_bounds_def sample_step_def Let_def split: option.splits prod.splits)

lemma sample_counts:
  "null_cnt (sample_loop tc rows) + non_null_cnt (sample_loop tc rows) = length rows"
  unfolding sample_loop_fields by (rule sum_length_filter_compl)


lemma serialize_all_eq:
  "(\<And>b. b \<in> set bs \<Longrightarrow> range_serialize tc (fst b) (snd b) False = Inr (f b)) \<Longrightarrow>
   serialize_all tc bs = Inr (map f bs)"
  by (induction bs) auto

text \<open>
  The bounds that enter the histogram: the sorted lower bounds and the sorted upper
  bounds, at the sampled positions.
\<close>

definition hist_bounds ::
  "Datum TypeCacheEntry \<Rightarrow> (Datum RangeBound \<times> Datum RangeBound) list \<Rightarrow> nat
     \<Rightarrow> (Datum RangeBound \<times> Datum RangeBound) list" where
  "hist_bounds tc bs num_hist =
     map (\<lambda>i. (qsort_arg (range_cmp_bounds tc) (map fst bs) ! (i * (length bs - 1) div (num_hist - 1)),
               qsort_arg (range_cmp_bounds tc) (map snd bs) ! (i * (length bs - 1) div (num_hist - 1))))
       [0..<num_hist]"

definition valid_bounds ::
  "Datum TypeCacheEntry \<Rightarrow> Datum RangeBound \<Rightarrow> Datum RangeBound \<Rightarrow> bool" where
  "valid_bounds tc l u \<longleftrightarrow> rb_lower l \<and> \<not> rb_lower u \<and> norm_bound l = l \<and> norm_bound u = u \<and>
     cle (range_cmp_bounds tc) l u"

lemma position_less:
  fixes i m n :: nat
  assumes "2 \<le> m" and "0 < n" and "i < m"
  shows "i * (n - 1) div (m - 1) < n"
  using hist_sample_bound [of m "i * (n - 1) div (m - 1)" n] assms by (auto simp: hist_sample_eq)

lemma length_qsort_arg [simp]: "length (qsort_arg c xs) = length xs"
  by (rule mset_eq_length) (rule mset_qsort_arg)

lemma set_qsort_arg [simp]: "set (qsort_arg c xs) = set xs"
  by (rule mset_eq_setD) (rule mset_qsort_arg)

context range_opclass
begin

lemma cmp_bounds_preorder: "cmp_preorder (range_cmp_bounds tc)"
  by (rule bnd.cmp_preorder_axioms)

lemma norm_deserialize:
  assumes "range_wf tc r" and "range_deserialize tc r = (l, u, False)"
  shows "norm_bound l = l" and "norm_bound u = u"
proof -
  note D = deserialize_fields [OF assms(2)]
  have "range_deserialize tc (range_repr tc l u) = (l, u, False)"
    using wf_repr_eq [OF assms] assms(2) by simp
  then show "norm_bound l = l" "norm_bound u = u"
    using deserialize_range_repr [of l u tc tc] D(1,2) by auto
qed

end

lemma sampled_bounds_valid:
  assumes "range_opclass tc" and "\<And>r n. Some (r, n) \<in> set rows \<Longrightarrow> range_wf tc r"
    and "(l, u) \<in> set (sampled_bounds tc rows)"
  shows "valid_bounds tc l u"
proof -
  from assms(3) obtain r n where r: "Some (r, n) \<in> set rows" "range_deserialize tc r = (l, u, False)"
    by (auto simp: sampled_bounds_def split: option.splits prod.splits if_splits)
  note w = assms(2) [OF r(1)]
  show ?thesis
    using deserialize_fields(1,2) [OF r(2)] range_opclass.norm_deserialize [OF assms(1) w r(2)]
      range_opclass.wf_le [OF assms(1) w r(2)] by (simp add: valid_bounds_def)
qed

text \<open>
  The contents of the bounds histogram: both columns ascend, every entry is a valid
  pair of bounds, the first lower bound is a least one and the last upper bound a
  greatest one of the sample.
\<close>

lemma hist_bounds_sorted:
  assumes "range_opclass tc" and "2 \<le> m" and "bs \<noteq> []"
  shows "sorted_wrt (cle (range_cmp_bounds tc)) (map fst (hist_bounds tc bs m))"
    and "sorted_wrt (cle (range_cmp_bounds tc)) (map snd (hist_bounds tc bs m))"
proof -
  let ?c = "range_cmp_bounds tc"
  have pre: "cmp_preorder ?c"
    using assms(1) by (rule range_opclass.cmp_bounds_preorder)
  have mono: "i * (length bs - 1) div (m - 1) \<le> j * (length bs - 1) div (m - 1)" if "i < j" for i j
    using that by (intro div_le_mono mult_right_mono) auto
  have le: "cle ?c (qsort_arg ?c (map f bs) ! (i * (length bs - 1) div (m - 1)))
    (qsort_arg ?c (map f bs) ! (j * (length bs - 1) div (m - 1)))" if "i < j" "j < m" for i j
    and f :: "_ \<Rightarrow> Datum RangeBound"
    using cmp_preorder.sorted_wrt_nth [OF pre cmp_preorder.sorted_qsort_arg [OF pre] mono [OF that(1)], of "map f bs"]
      position_less [OF assms(2) _ that(2)] assms(3) by simp
  show "sorted_wrt (cle ?c) (map fst (hist_bounds tc bs m))"
    and "sorted_wrt (cle ?c) (map snd (hist_bounds tc bs m))"
    using le by (auto simp: hist_bounds_def sorted_wrt_iff_nth_less)
qed

lemma hist_bounds_valid:
  assumes "range_opclass tc" and "2 \<le> m" and "bs \<noteq> []"
    and valid: "\<And>l u. (l, u) \<in> set bs \<Longrightarrow> valid_bounds tc l u"
    and "(l, u) \<in> set (hist_bounds tc bs m)"
  shows "valid_bounds tc l u"
proof -
  let ?c = "range_cmp_bounds tc"
  have pre: "cmp_preorder ?c"
    using assms(1) by (rule range_opclass.cmp_bounds_preorder)
  from assms(5) obtain i where i: "i < m"
    and l: "l = qsort_arg ?c (map fst bs) ! (i * (length bs - 1) div (m - 1))"
    and u: "u = qsort_arg ?c (map snd bs) ! (i * (length bs - 1) div (m - 1))"
    by (auto simp: hist_bounds_def)
  have k: "i * (length bs - 1) div (m - 1) < length bs"
    using position_less [OF assms(2) _ i] assms(3) by simp
  have "l \<in> fst ` set bs" "u \<in> snd ` set bs"
    unfolding l u using k nth_mem [of _ "qsort_arg ?c (map fst bs)"] nth_mem [of _ "qsort_arg ?c (map snd bs)"]
    by auto
  then have "rb_lower l" "norm_bound l = l" "\<not> rb_lower u" "norm_bound u = u"
    using valid by (force simp: valid_bounds_def)+
  moreover have "list_all2 (cle ?c) (map fst bs) (map snd bs)"
    using valid by (auto simp: list_all2_conv_all_nth valid_bounds_def)
  then have "cle ?c l u"
    unfolding l u using k
    by (intro cmp_preorder.order_statistics [OF pre _ mset_qsort_arg mset_qsort_arg
          cmp_preorder.sorted_qsort_arg [OF pre] cmp_preorder.sorted_qsort_arg [OF pre]]) auto
  ultimately show ?thesis by (simp add: valid_bounds_def)
qed


lemma serialize_valid:
  assumes "range_opclass tc" and "valid_bounds tc l u"
  shows "range_serialize tc l u False = Inr (range_repr tc l u)"
    and "range_deserialize tc (range_repr tc l u) = (l, u, False)"
  using assms range_opclass.cle_values [OF assms(1), of l u]
  by (auto simp: range_opclass.serialize_cases [OF assms(1)] valid_bounds_def deserialize_range_repr)

lemma qsort_cmp_eq: "range_bound_qsort_cmp tc = range_cmp_bounds tc"
  by (simp add: fun_eq_iff range_bound_qsort_cmp_def)

lemma hist_sample_bounds:
  assumes "2 \<le> m" and "bs \<noteq> []"
  shows "map (\<lambda>pos. qsort_arg (range_bound_qsort_cmp tc) (map fst bs) ! pos) (hist_sample (length bs) m) =
      map fst (hist_bounds tc bs m)"
    and "map (\<lambda>pos. qsort_arg (range_bound_qsort_cmp tc) (map snd bs) ! pos) (hist_sample (length bs) m) =
      map snd (hist_bounds tc bs m)"
  using assms by (simp_all add: hist_sample_eq hist_bounds_def qsort_cmp_eq)

text \<open>The range statistics slots.\<close>

definition range_slots ::
  "Datum TypeCacheEntry \<Rightarrow> (Datum RangeBound \<times> Datum RangeBound) list \<Rightarrow> nat \<Rightarrow> nat \<Rightarrow> nat \<Rightarrow> float8 list
     \<Rightarrow> stats_slot list" where
  "range_slots tc bs m empties non_null freq =
     [\<lparr>stakind = STATISTIC_KIND_BOUNDS_HISTOGRAM,
       stavals = RangeValues (map (\<lambda>(l, u). range_repr tc l u) (hist_bounds tc bs m)), stanumbers = []\<rparr>,
      \<lparr>stakind = STATISTIC_KIND_RANGE_LENGTH_HISTOGRAM,
       stavals = Float8Values (map (\<lambda>i. qsort_arg float8_qsort_cmp (map (\<lambda>(l, u). range_length tc l u) bs)
           ! (i * (length bs - 1) div (m - 1))) [0..<m]),
       stanumbers = [Fin (real empties / real non_null)]\<rparr>,
      \<lparr>stakind = STATISTIC_KIND_FREQUENCY_HISTOGRAM, stavals = Float8Values freq, stanumbers = []\<rparr>]"

lemma compute_range_stats_eq:
  assumes opc: "range_opclass tc" and wf: "\<And>r n. Some (r, n) \<in> set rows \<Longrightarrow> range_wf tc r"
    and bs: "bs = sampled_bounds tc rows" "2 \<le> length bs"
    and m: "m = hist_size (length bs) (attstattarget stats)" "1 \<le> attstattarget stats"
    and acc: "acc = sample_loop tc rows"
  shows "compute_range_stats oob tc rows stats =
    rbind (ComputeFrequencyHistogram oob (Some (map fst (hist_bounds tc bs m)))
             (Some (map snd (hist_bounds tc bs m))) m) (\<lambda>freq.
      Inr (stats\<lparr>stats_valid := True,
                 stanullfrac := Fin (real (null_cnt acc) / real (length rows)),
                 stawidth := c_trunc (total_width acc / real (non_null_cnt acc)),
                 stadistinct := Fin (- (1 - real (null_cnt acc) / real (length rows))),
                 slots := range_slots tc bs m (empty_cnt acc) (non_null_cnt acc) freq\<rparr>))"
proof -
  have m2: "2 \<le> m" using bs(2) m by (auto simp: hist_size_def)
  have ne: "bs \<noteq> []" using bs(2) by auto
  note f = sample_loop_fields [of tc rows, folded bs(1) acc]
  have nn: "0 < non_null_cnt acc"
    using f(6) bs(2) by linarith
  have ser: "serialize_all tc (hist_bounds tc bs m) = Inr (map (\<lambda>(l, u). range_repr tc l u) (hist_bounds tc bs m))"
  proof (rule serialize_all_eq)
    fix b assume "b \<in> set (hist_bounds tc bs m)"
    then have "valid_bounds tc (fst b) (snd b)"
      using hist_bounds_valid [OF opc m2 ne, of "fst b" "snd b"] sampled_bounds_valid [OF opc wf]
      unfolding bs(1) by auto
    then show "range_serialize tc (fst b) (snd b) False = Inr (case b of (l, u) \<Rightarrow> range_repr tc l u)"
      using serialize_valid(1) [OF opc] by (simp add: case_prod_beta)
  qed
  have hl: "map (\<lambda>pos. xs ! pos) (hist_sample (length bs) m) =
      map (\<lambda>i. xs ! (i * (length bs - 1) div (m - 1))) [0..<m]" for xs :: "float8 list"
    using m2 by (simp add: hist_sample_eq)
  show ?thesis
    unfolding compute_range_stats_def Let_def acc [symmetric] f(1-3) length_map
    using m2 nn bs(2)
    by (simp add: m(1) [symmetric] hist_sample_bounds [OF m2 ne] zip_map_fst_snd ser range_slots_def hl)
qed

lemma compute_range_stats_few:
  assumes "length (sampled_bounds tc rows) < 2" and "\<exists>row \<in> set rows. row \<noteq> None"
  shows "compute_range_stats oob tc rows stats = Inl Undefined_behavior"
  using assms
  by (auto simp: compute_range_stats_def Let_def sample_loop_fields ComputeFrequencyHistogram_def filter_empty_conv)

lemma compute_range_stats_null:
  assumes "\<And>row. row \<in> set rows \<Longrightarrow> row = None"
  shows "compute_range_stats oob tc rows stats =
    Inr (if rows = [] then stats
         else stats\<lparr>stats_valid := True, stanullfrac := Fin 1, stawidth := 0, stadistinct := Fin 0\<rparr>)"
proof -
  have "filter (\<lambda>row. row \<noteq> None) rows = []" "filter (\<lambda>row. row = None) rows = rows"
    using assms by (auto simp: filter_empty_conv intro: filter_True)
  then show ?thesis
    by (simp add: compute_range_stats_def Let_def sample_loop_fields)
qed

lemma hist_bounds_ends:
  assumes "range_opclass tc" and "2 \<le> m" and "(l, u) \<in> set bs"
  shows "cle (range_cmp_bounds tc) (fst (hd (hist_bounds tc bs m))) l"
    and "cle (range_cmp_bounds tc) u (snd (last (hist_bounds tc bs m)))"
proof -
  let ?c = "range_cmp_bounds tc" and ?n = "length bs"
  have pre: "cmp_preorder ?c"
    using assms(1) by (rule range_opclass.cmp_bounds_preorder)
  note s = cmp_preorder.sorted_wrt_nth [OF pre cmp_preorder.sorted_qsort_arg [OF pre]]
  have m: "[0..<m] \<noteq> []" "hd [0..<m] = 0" "last [0..<m] = m - 1"
    using assms(2) by (auto simp: last_conv_nth)
  have e: "fst (hd (hist_bounds tc bs m)) = qsort_arg ?c (map fst bs) ! 0"
    "snd (last (hist_bounds tc bs m)) = qsort_arg ?c (map snd bs) ! (?n - 1)"
    using m assms(2) by (simp_all add: hist_bounds_def hd_map last_map)
  have "l \<in> set (qsort_arg ?c (map fst bs))" "u \<in> set (qsort_arg ?c (map snd bs))"
    using assms(3) by force+
  then obtain i j where "i < ?n" "l = qsort_arg ?c (map fst bs) ! i"
    "j < ?n" "u = qsort_arg ?c (map snd bs) ! j"
    unfolding in_set_conv_nth by auto
  then show "cle ?c (fst (hd (hist_bounds tc bs m))) l" "cle ?c u (snd (last (hist_bounds tc bs m)))"
    unfolding e using s [of 0 i "map fst bs"] s [of j "?n - 1" "map snd bs"] by auto
qed

lemma freq_dom_span: "freq_dom lowers uppers vl vu \<Longrightarrow> vl \<noteq> [] \<Longrightarrow> 1 \<le> last vu - hd vl + 1"
  using freq_domD(4) [of lowers uppers vl vu 0] sorted_hd_last(2) [of vu 0]
  by (force simp: freq_dom_def hd_conv_nth)

text \<open>
  A bound value is compared as an unsigned \<open>Datum\<close> with the signed end of a bucket: two
  ranges with negative lower bounds are counted as more than seven.
\<close>

lemma frequency_histogram_negative:
  "ComputeFrequencyHistogram (int4_bound 0 True True)
     (Some [int4_bound (-30) True True, int4_bound (-10) True True])
     (Some [int4_bound 10 False False, int4_bound 30 False False]) 2 =
   Inr (map Fin [1, 9/10, 4/5, 7/10, 3/5, 3/2, 13/10, 1/5, 1/5, 1/5, 1/10, 1/10, 1/10, 1/10, 1/10, 0])"
  by code_simp

section \<open>Properties\<close>

definition sample_wf :: "Datum TypeCacheEntry \<Rightarrow> (Datum RangeType \<times> nat) option list \<Rightarrow> bool" where
  "sample_wf tc rows \<longleftrightarrow> list_all (\<lambda>row. case row of None \<Rightarrow> True | Some (r, _) \<Rightarrow> range_wf tc r) rows"

text \<open>
  C17. For a sample with at least two non-empty ranges, \<open>compute_range_stats\<close> fails only if
  the frequency histogram does. Otherwise the bounds histogram \<open>hb\<close> has the size the
  statistics target allows, its lower bounds and its upper bounds both ascend, all its
  entries are valid ranges that read back as the sampled bounds (so the serialization
  of the independently sorted bounds never raises an error), and its ends enclose every
  sampled range; the null and the empty fraction are probabilities.
\<close>

theorem compute_range_stats_histograms:
  assumes "range_opclass tc" and "sample_wf tc rows"
    and "2 \<le> length (sampled_bounds tc rows)" and "1 \<le> attstattarget stats"
  shows "\<exists>hb lens nullfrac width emptyfrac.
    length hb = hist_size (length (sampled_bounds tc rows)) (attstattarget stats) \<and>
    length lens = length hb \<and>
    sorted_wrt (cle (range_cmp_bounds tc)) (map fst hb) \<and>
    sorted_wrt (cle (range_cmp_bounds tc)) (map snd hb) \<and>
    (\<forall>(l, u) \<in> set hb. range_wf tc (range_repr tc l u) \<and>
       range_deserialize tc (range_repr tc l u) = (l, u, False)) \<and>
    (\<forall>(l, u) \<in> set (sampled_bounds tc rows).
       cle (range_cmp_bounds tc) (fst (hd hb)) l \<and> cle (range_cmp_bounds tc) u (snd (last hb))) \<and>
    is_prob nullfrac \<and> is_prob emptyfrac \<and>
    compute_range_stats oob tc rows stats =
      rbind (ComputeFrequencyHistogram oob (Some (map fst hb)) (Some (map snd hb)) (length hb)) (\<lambda>freq.
        Inr (stats\<lparr>stats_valid := True, stanullfrac := nullfrac, stawidth := width,
          stadistinct := f_mul (Fin (-1)) (f_sub (Fin 1) nullfrac),
          slots :=
            [\<lparr>stakind = STATISTIC_KIND_BOUNDS_HISTOGRAM,
              stavals = RangeValues (map (\<lambda>(l, u). range_repr tc l u) hb), stanumbers = []\<rparr>,
             \<lparr>stakind = STATISTIC_KIND_RANGE_LENGTH_HISTOGRAM,
              stavals = Float8Values lens, stanumbers = [emptyfrac]\<rparr>,
             \<lparr>stakind = STATISTIC_KIND_FREQUENCY_HISTOGRAM,
              stavals = Float8Values freq, stanumbers = []\<rparr>]\<rparr>))"
proof -
  define bs where "bs = sampled_bounds tc rows"
  define m where "m = hist_size (length bs) (attstattarget stats)"
  define acc where "acc = sample_loop tc rows"
  note opc = assms(1)
  have wf: "range_wf tc r" if "Some (r, n) \<in> set rows" for r n
    using assms(2) that by (force simp: sample_wf_def list_all_iff)
  have bs2: "2 \<le> length bs" "bs \<noteq> []" using assms(3) by (auto simp: bs_def)
  have m2: "2 \<le> m" using bs2(1) assms(4) by (auto simp: hist_size_def m_def)
  have len: "length (hist_bounds tc bs m) = m" by (simp add: hist_bounds_def)
  have valid: "valid_bounds tc l u" if "(l, u) \<in> set (hist_bounds tc bs m)" for l u
    by (rule hist_bounds_valid [OF opc m2 bs2(2) _ that])
      (use sampled_bounds_valid [OF opc wf] in \<open>auto simp: bs_def\<close>)
  have p: "is_prob (Fin (real (null_cnt acc) / real (length rows)))"
    "is_prob (Fin (real (empty_cnt acc) / real (non_null_cnt acc)))"
    using sample_counts [of tc rows] sample_loop_fields(6) [of tc rows]
    by (auto simp: acc_def divide_le_eq_1)
  have wfb: "range_wf tc (range_repr tc l u) \<and> range_deserialize tc (range_repr tc l u) = (l, u, False)"
    if "(l, u) \<in> set (hist_bounds tc bs m)" for l u
    using valid [OF that] serialize_valid [OF opc valid [OF that]] range_opclass.wf_range_repr [OF opc]
    by (auto simp: valid_bounds_def)
  note sorted = hist_bounds_sorted [OF opc m2 bs2(2)]
  note ends = hist_bounds_ends [OF opc m2, where bs = bs]
  note eq = compute_range_stats_eq [OF opc wf bs_def bs2(1) m_def assms(4) acc_def, where oob = oob]
  have d: "Fin (- (1 - x)) = f_mul (Fin (-1)) (f_sub (Fin 1) (Fin x))" for x
    by simp
  note eq' = eq [unfolded range_slots_def d]
  let ?lens = "map (\<lambda>i. qsort_arg float8_qsort_cmp (map (\<lambda>(l, u). range_length tc l u) bs)
           ! (i * (length bs - 1) div (m - 1))) [0..<m]"
  show ?thesis
    unfolding bs_def [symmetric] m_def [symmetric]
    by (rule exI [of _ "hist_bounds tc bs m"], rule exI [of _ ?lens],
        rule exI [of _ "Fin (real (null_cnt acc) / real (length rows))"],
        rule exI [of _ "c_trunc (total_width acc / real (non_null_cnt acc))"],
        rule exI [of _ "Fin (real (empty_cnt acc) / real (non_null_cnt acc))"])
      (intro conjI len p sorted, simp only: length_map length_upt len, simp,
        use wfb ends in blast, use ends in blast, simp only: eq' len)
qed

definition sample_stats :: VacAttrStats where
  "sample_stats = \<lparr>attstattarget = 100, minrows = 30000, extra_data = Some int4range_typcache,
     stats_valid = False, stanullfrac = Fin 0, stawidth = 0, stadistinct = Fin 0, slots = []\<rparr>"

definition sample_rows :: "(Datum RangeType \<times> nat) option list" where
  "sample_rows = [Some (int4_rng 10 45, 17), None, Some (empty_repr int4range_typcache, 9),
     Some (int4_rng 0 20, 17)]"

theorem compute_range_stats_histograms_witness:
  "\<exists>hb save. length hb = 2 \<and>
    sorted_wrt (cle (range_cmp_bounds int4range_typcache)) (map fst hb) \<and>
    sorted_wrt (cle (range_cmp_bounds int4range_typcache)) (map snd hb) \<and>
    compute_range_stats (int4_bound 0 True True) int4range_typcache sample_rows sample_stats =
      rbind (ComputeFrequencyHistogram (int4_bound 0 True True) (Some (map fst hb)) (Some (map snd hb)) 2) save"
proof -
  have h: "sample_wf int4range_typcache sample_rows"
    "2 \<le> length (sampled_bounds int4range_typcache sample_rows)" "1 \<le> attstattarget sample_stats"
    "hist_size (length (sampled_bounds int4range_typcache sample_rows)) (attstattarget sample_stats) = 2"
    by code_simp+
  show ?thesis
    using compute_range_stats_histograms [OF int4.range_opclass_axioms h(1-3), of "int4_bound 0 True True"]
    unfolding h(4) by (elim exE conjE) (auto intro!: exI)
qed

text \<open>
  C20. \<open>compute_range_stats\<close> of a sample that has a value but fewer than two non-empty
  ranges reads the bound arrays of the histogram, which only the other branch sets;
  a sample without a value is handled.
\<close>

theorem compute_range_stats_few_ranges:
  "if (\<exists>row \<in> set rows. row \<noteq> None) then
     length (sampled_bounds tc rows) < 2 \<longrightarrow>
     compute_range_stats oob tc rows stats = Inl Undefined_behavior
   else compute_range_stats oob tc rows stats =
     Inr (if rows = [] then stats
          else stats\<lparr>stats_valid := True, stanullfrac := Fin 1, stawidth := 0, stadistinct := Fin 0\<rparr>)"
proof (cases "\<exists>row \<in> set rows. row \<noteq> None")
  case True
  then show ?thesis using compute_range_stats_few [of tc rows oob stats] by simp
next
  case False
  then have "row = None" if "row \<in> set rows" for row using that by blast
  from compute_range_stats_null [OF this] False show ?thesis by simp
qed

theorem compute_range_stats_few_ranges_witness:
  "compute_range_stats (int4_bound 0 True True) int4range_typcache [Some (int4_rng 10 45, 17), None] sample_stats =
     Inl Undefined_behavior"
proof -
  have "length (sampled_bounds int4range_typcache [Some (int4_rng 10 45, 17), None]) < 2" by code_simp
  then show ?thesis
    using compute_range_stats_few_ranges [of "[Some (int4_rng 10 45, 17), None]" int4range_typcache
        "int4_bound 0 True True" sample_stats] by simp
qed

text \<open>
  C19. The buckets of \<open>ComputeFrequencyHistogram\<close>, for ascending arrays of non-negative bound
  values, each lower value below its upper value and the last one below \<open>2 ^ 31 - 20\<close>: the
  histogram has between 1 and 20 entries, for buckets of one length that follow each other
  from the first lower value, cover all values up to the last upper value with fewer than
  20 to spare, and end below \<open>2 ^ 31\<close>, so that the end of a bucket never overflows. An entry
  is the sum over the ranges of the fraction of the range's elements that lie in the
  bucket, where a range that ends on the last value of a bucket of two or more values is
  counted there with one element too many.
\<close>

theorem frequency_buckets:
  assumes "freq_dom lowers uppers vl vu" and "vl \<noteq> []" and "last vu < 2 ^ 31 - 20"
  shows "\<exists>fs len. ComputeFrequencyHistogram oob (Some lowers) (Some uppers) (length vl) = Inr (map Fin fs) \<and>
    1 \<le> length fs \<and> length fs \<le> 20 \<and> 1 \<le> len \<and>
    {hd vl..last vu} \<subseteq> (\<Union>j < length fs. bucket_values vl len j) \<and>
    int (length fs) * len < last vu - hd vl + 1 + 20 \<and> hd vl + int (length fs) * len < 2 ^ 31 \<and>
    (\<forall>j < length fs. fs ! j = bucket_count vl vu len j)"
proof -
  define n where "n = last vu - hd vl + 1"
  have n1: "1 \<le> n" unfolding n_def by (rule freq_dom_span [OF assms(1,2)])
  let ?fs = "map (bucket_count vl vu (bucket_length n)) [0..<nat (bucket_number n)]"
  have k: "1 \<le> bucket_number n" "bucket_number n \<le> 20" using bucket_number_bounds [OF n1] by auto
  note c = bucket_cover [OF n1]
  have l: "int (length ?fs) = bucket_number n" "1 \<le> length ?fs" "length ?fs \<le> 20" using k by auto
  have "{hd vl..last vu} \<subseteq> (\<Union>j < length ?fs. bucket_values vl (bucket_length n) j)"
    by (rule buckets_cover [OF c(1)]) (use c(2) l(1) n_def in simp)
  moreover have "hd vl + bucket_number n * bucket_length n < 2 ^ 31" using c(3) assms(3) n_def by simp
  ultimately show ?thesis
    using frequency_entries [OF assms n_def, of oob] c(1,3) l n_def
    by (intro exI [of _ ?fs] exI [of _ "bucket_length n"]) simp
qed

theorem frequency_buckets_witness:
  "\<exists>fs len. ComputeFrequencyHistogram (int4_bound 0 True True)
       (Some [int4_bound 0 True True, int4_bound 10 True True])
       (Some [int4_bound 20 False False, int4_bound 45 False False]) 2 = Inr (map Fin fs) \<and>
     length fs \<le> 20 \<and> {0..45} \<subseteq> (\<Union>j < length fs. bucket_values [0, 10] len j) \<and>
     (\<forall>j < length fs. fs ! j = bucket_count [0, 10] [20, 45] len j)"
proof -
  have d: "freq_dom [int4_bound 0 True True, int4_bound 10 True True]
    [int4_bound 20 False False, int4_bound 45 False False] [0, 10] [20, 45]"
    by (auto simp: freq_dom_def int4_bound_def nth_Cons split: nat.splits)
  show ?thesis
    using frequency_buckets [OF d, of "int4_bound 0 True True"] by (force simp: numeral_2_eq_2)
qed

text \<open>
  C18. What the frequency histogram counts. The claim is about ascending arrays of
  non-negative bound values, each lower value below its upper value and the last one below
  \<open>2 ^ 31 - 20\<close>; with negative values it fails (\<open>frequency_histogram_negative\<close>). Every range
  adds to a bucket the fraction of its length that lies in the bucket. So the entries add up
  to the number of ranges, plus, when the buckets have a length of at least 2, one over the
  length of the range for every range whose upper bound is the last value of a bucket.
\<close>

theorem frequency_histogram_total:
  assumes "freq_dom lowers uppers vl vu" and "vl \<noteq> []" and "last vu < 2 ^ 31 - 20"
  shows "\<exists>fs nb len. ComputeFrequencyHistogram oob (Some lowers) (Some uppers) (length vl) = Inr (map Fin fs) \<and>
    length fs = nb \<and> 1 \<le> nb \<and> nb \<le> 20 \<and> 1 \<le> len \<and>
    (\<forall>j < nb. fs ! j = (\<Sum>i < length vl. bucket_share vl vu len (hd vl - 1 + int (Suc j) * len) i)) \<and>
    sum_list fs = length vl + (\<Sum>i < length vl.
           of_bool (2 \<le> len \<and> len dvd vu ! i - hd vl + 1) / of_int (vu ! i - vl ! i))"
proof -
  have "1 \<le> last vu - hd vl + 1" by (rule freq_dom_span [OF assms(1,2)])
  note b = bucket_number_bounds [OF this] bucket_cover(1) [OF this]
  from frequency_total [OF assms refl, of oob] obtain fs where
    fs: "ComputeFrequencyHistogram oob (Some lowers) (Some uppers) (length vl) = Inr (map Fin fs)"
    "length fs = nat (bucket_number (last vu - hd vl + 1))"
    "sum_list fs = length vl + (\<Sum>i < length vl.
       of_bool (2 \<le> bucket_length (last vu - hd vl + 1) \<and>
         bucket_length (last vu - hd vl + 1) dvd vu ! i - hd vl + 1) / of_int (vu ! i - vl ! i))" .
  have "map Fin fs = map (\<lambda>j. Fin (\<Sum>i < length vl. bucket_share vl vu (bucket_length (last vu - hd vl + 1))
     (hd vl - 1 + int (Suc j) * bucket_length (last vu - hd vl + 1)) i))
         [0..<nat (bucket_number (last vu - hd vl + 1))]"
    using ComputeFrequencyHistogram_eq [OF assms refl, of oob] fs(1) by simp
  then have "fs ! j = (\<Sum>i < length vl. bucket_share vl vu (bucket_length (last vu - hd vl + 1))
     (hd vl - 1 + int (Suc j) * bucket_length (last vu - hd vl + 1)) i)" if "j < length fs" for j
    using that fs(2) by (metis (no_types, lifting) add_0 float8.inject length_map length_upt minus_nat.diff_0 nth_map nth_upt)
  then show ?thesis
    using fs b by (intro exI [of _ fs] exI [of _ "length fs"] exI [of _ "bucket_length (last vu - hd vl + 1)"]) auto
qed

theorem frequency_histogram_total_witness:
  "\<exists>fs. ComputeFrequencyHistogram (int4_bound 0 True True)
       (Some [int4_bound 0 True True, int4_bound 10 True True])
       (Some [int4_bound 20 False False, int4_bound 45 False False]) 2 = Inr (map Fin fs) \<and> 2 \<le> sum_list fs"
proof -
  have d: "freq_dom [int4_bound 0 True True, int4_bound 10 True True]
    [int4_bound 20 False False, int4_bound 45 False False] [0, 10] [20, 45]"
    by (auto simp: freq_dom_def int4_bound_def nth_Cons split: nat.splits)
  show ?thesis
    using frequency_histogram_total [OF d, of "int4_bound 0 True True"]
    by (force simp: numeral_2_eq_2 lessThan_Suc)
qed

end
