(* ===== verification/Range_Selfuncs.thy ===== *)
theory Range_Selfuncs
  imports Range_Typanalyze
begin

text \<open>
  Restriction selectivity of range operators, \<open>rangetypes_selfuncs.c\<close>: the estimates of
  \<open>rangesel\<close> from the bounds and length histograms, and \<open>rangerestsel\<close>, which this fork
  adds for the operators \<open>&&\<close> and \<open><<\<close> and which works on the frequency histogram.

  The planner's view of a clause is an input: the result of \<open>get_restriction_variable\<close>
  (\<open>None\<close> when the clause has no suitable form), and the catalog lookups of functions and
  operators (\<open>catalog\<close>). A double is a \<open>float8\<close> of theory \<open>Float8\<close>; array indices are
  integers, since the binary searches return -1.
\<close>

section \<open>Operators, statistics and clauses\<close>

named_theorems oid_defs \<open>the operator OIDs\<close>

definition OID_RANGE_LESS_OP :: Oid where [oid_defs]: "OID_RANGE_LESS_OP = 3884"
definition OID_RANGE_LESS_EQUAL_OP :: Oid where [oid_defs]: "OID_RANGE_LESS_EQUAL_OP = 3885"
definition OID_RANGE_GREATER_EQUAL_OP :: Oid where [oid_defs]: "OID_RANGE_GREATER_EQUAL_OP = 3886"
definition OID_RANGE_GREATER_OP :: Oid where [oid_defs]: "OID_RANGE_GREATER_OP = 3887"
definition OID_RANGE_OVERLAP_OP :: Oid where [oid_defs]: "OID_RANGE_OVERLAP_OP = 3888"
definition OID_RANGE_CONTAINS_ELEM_OP :: Oid where [oid_defs]: "OID_RANGE_CONTAINS_ELEM_OP = 3889"
definition OID_RANGE_CONTAINS_OP :: Oid where [oid_defs]: "OID_RANGE_CONTAINS_OP = 3890"
definition OID_RANGE_ELEM_CONTAINED_OP :: Oid where [oid_defs]: "OID_RANGE_ELEM_CONTAINED_OP = 3891"
definition OID_RANGE_CONTAINED_OP :: Oid where [oid_defs]: "OID_RANGE_CONTAINED_OP = 3892"
definition OID_RANGE_LEFT_OP :: Oid where [oid_defs]: "OID_RANGE_LEFT_OP = 3893"
definition OID_RANGE_RIGHT_OP :: Oid where [oid_defs]: "OID_RANGE_RIGHT_OP = 3894"
definition OID_RANGE_OVERLAPS_LEFT_OP :: Oid where [oid_defs]: "OID_RANGE_OVERLAPS_LEFT_OP = 3895"
definition OID_RANGE_OVERLAPS_RIGHT_OP :: Oid where [oid_defs]: "OID_RANGE_OVERLAPS_RIGHT_OP = 3896"

definition DEFAULT_INEQ_SEL :: float8 where "DEFAULT_INEQ_SEL = Fin 0.3333333333333333"
definition DEFAULT_RANGE_INEQ_SEL :: float8 where "DEFAULT_RANGE_INEQ_SEL = Fin 0.005"

record pg_statistic =
  st_nullfrac :: float8
  st_slots :: "stats_slot list"

record VariableStatData =
  vartype :: Oid
  statsTuple :: "pg_statistic option"
  acl_ok :: bool

record catalog =
  get_func_leakproof :: "Oid \<Rightarrow> bool"
  get_opcode :: "Oid \<Rightarrow> Oid"
  get_commutator :: "Oid \<Rightarrow> Oid"
  rng_cmp_proc_oid :: Oid
  rng_subdiff_oid :: Oid

datatype constvalue = ElemValue Datum | RangeValue "Datum RangeType"

record Const =
  consttype :: Oid
  constisnull :: bool
  const_value :: constvalue

datatype other_node = IsConst Const | NotConst

definition statistic_proc_security_check :: "catalog \<Rightarrow> VariableStatData \<Rightarrow> Oid \<Rightarrow> bool" where
  "statistic_proc_security_check cat vardata func_oid \<longleftrightarrow>
     acl_ok vardata \<or> (func_oid \<noteq> 0 \<and> get_func_leakproof cat func_oid)"

text \<open>\<open>get_attstatsslot\<close>: the first slot of the requested kind.\<close>

definition get_attstatsslot :: "pg_statistic \<Rightarrow> nat \<Rightarrow> stats_slot option" where
  "get_attstatsslot stats reqkind = find (\<lambda>s. stakind s = reqkind) (st_slots stats)"

text \<open>The values of a slot, read as ranges or as \<open>float8\<close>s.\<close>

definition slot_ranges :: "stats_slot \<Rightarrow> Datum RangeType list res" where
  "slot_ranges s = (case stavals s of RangeValues vs \<Rightarrow> Inr vs | Float8Values _ \<Rightarrow> Inl Undefined_behavior)"

definition slot_float8s :: "stats_slot \<Rightarrow> float8 list res" where
  "slot_float8s s = (case stavals s of Float8Values vs \<Rightarrow> Inr vs | RangeValues _ \<Rightarrow> Inl Undefined_behavior)"

definition DatumGetRangeTypeP :: "constvalue \<Rightarrow> Datum RangeType res" where
  "DatumGetRangeTypeP v = (case v of RangeValue r \<Rightarrow> Inr r | ElemValue _ \<Rightarrow> Inl Undefined_behavior)"

definition default_range_selectivity :: "Oid \<Rightarrow> float8" where
  "default_range_selectivity operator =
     (if operator = OID_RANGE_OVERLAP_OP then Fin 0.01
      else if operator = OID_RANGE_CONTAINS_OP \<or> operator = OID_RANGE_CONTAINED_OP then Fin 0.005
      else if operator = OID_RANGE_CONTAINS_ELEM_OP \<or> operator = OID_RANGE_ELEM_CONTAINED_OP
        then DEFAULT_RANGE_INEQ_SEL
      else if operator \<in> {OID_RANGE_LESS_OP, OID_RANGE_LESS_EQUAL_OP, OID_RANGE_GREATER_OP,
          OID_RANGE_GREATER_EQUAL_OP, OID_RANGE_LEFT_OP, OID_RANGE_RIGHT_OP,
          OID_RANGE_OVERLAPS_LEFT_OP, OID_RANGE_OVERLAPS_RIGHT_OP}
        then DEFAULT_INEQ_SEL
      else Fin 0.01)"

section \<open>Searching and interpolating in histograms\<close>

text \<open>
  The loop of both binary searches; \<open>below\<close> tells whether the histogram entry is
  less than (or equal to) the value looked for.
\<close>

function bsearch_loop :: "(nat \<Rightarrow> bool) \<Rightarrow> int \<Rightarrow> int \<Rightarrow> int" where
  "bsearch_loop below lower upper =
     (if lower < upper then
        let middle = (lower + upper + 1) div 2 in
        if below (nat middle) then bsearch_loop below middle upper
        else bsearch_loop below lower (middle - 1)
      else lower)"
  by pat_completeness auto
termination
  by (relation "measure (\<lambda>(below, lower, upper). nat (upper - lower))") auto

declare bsearch_loop.simps [simp del]

definition rbound_bsearch ::
  "'a TypeCacheEntry \<Rightarrow> 'a RangeBound \<Rightarrow> 'a RangeBound list \<Rightarrow> bool \<Rightarrow> int" where
  "rbound_bsearch typcache value hist equal =
     bsearch_loop (\<lambda>middle.
         let cmp = range_cmp_bounds typcache (hist ! middle) value in
         cmp < 0 \<or> (equal \<and> cmp = 0))
       (-1) (int (length hist) - 1)"

definition length_hist_bsearch :: "float8 list \<Rightarrow> float8 \<Rightarrow> bool \<Rightarrow> int" where
  "length_hist_bsearch length_hist_values value equal =
     bsearch_loop (\<lambda>middle.
         let middleval = length_hist_values ! middle in
         f_lt middleval value \<or> (equal \<and> f_le middleval value))
       (-1) (int (length length_hist_values) - 1)"

definition get_position ::
  "'a TypeCacheEntry \<Rightarrow> 'a RangeBound \<Rightarrow> 'a RangeBound \<Rightarrow> 'a RangeBound \<Rightarrow> float8" where
  "get_position typcache value hist1 hist2 =
     (if \<not> rb_infinite hist1 \<and> \<not> rb_infinite hist2 then
        if rb_infinite value then Fin 0.5
        else case rng_subdiff typcache of
            None \<Rightarrow> Fin 0.5
          | Some subdiff \<Rightarrow>
              let bin_width = subdiff (rb_val hist2) (rb_val hist1) in
              if isnan bin_width \<or> f_le bin_width (Fin 0) then Fin 0.5
              else
                let position = f_div (subdiff (rb_val value) (rb_val hist1)) bin_width in
                if isnan position then Fin 0.5
                else f_min (f_max position (Fin 0)) (Fin 1)
      else if rb_infinite hist1 \<and> \<not> rb_infinite hist2 then
        (if rb_infinite value \<and> rb_lower value then Fin 0 else Fin 1)
      else if \<not> rb_infinite hist1 \<and> rb_infinite hist2 then
        (if rb_infinite value \<and> \<not> rb_lower value then Fin 1 else Fin 0)
      else Fin 0.5)"

definition get_len_position :: "float8 \<Rightarrow> float8 \<Rightarrow> float8 \<Rightarrow> float8" where
  "get_len_position value hist1 hist2 =
     (if \<not> isinf hist1 \<and> \<not> isinf hist2 then
        if isinf value then Fin 0.5
        else f_sub (Fin 1) (f_div (f_sub hist2 value) (f_sub hist2 hist1))
      else if isinf hist1 \<and> \<not> isinf hist2 then Fin 1
      else if isinf hist1 \<and> isinf hist2 then Fin 0
      else Fin 0.5)"

definition get_distance ::
  "'a TypeCacheEntry \<Rightarrow> 'a RangeBound \<Rightarrow> 'a RangeBound \<Rightarrow> float8" where
  "get_distance typcache bound1 bound2 =
     (if \<not> rb_infinite bound1 \<and> \<not> rb_infinite bound2 then
        case rng_subdiff typcache of
          Some subdiff \<Rightarrow>
            let res = subdiff (rb_val bound2) (rb_val bound1) in
            if isnan res \<or> f_lt res (Fin 0) then Fin 1 else res
        | None \<Rightarrow> Fin 1
      else if rb_infinite bound1 \<and> rb_infinite bound2 then
        (if rb_lower bound1 = rb_lower bound2 then Fin 0 else PInf)
      else PInf)"

section \<open>Selectivity from histograms\<close>

definition calc_hist_selectivity_scalar ::
  "'a TypeCacheEntry \<Rightarrow> 'a RangeBound \<Rightarrow> 'a RangeBound list \<Rightarrow> bool \<Rightarrow> float8" where
  "calc_hist_selectivity_scalar typcache constbound hist equal =
     (let index = rbound_bsearch typcache constbound hist equal;
          hist_nvalues = int (length hist);
          n1 = Fin (of_int (hist_nvalues - 1));
          selec = f_div (Fin (of_int (max index 0))) n1
      in if index \<ge> 0 \<and> index < hist_nvalues - 1
         then f_add selec (f_div (get_position typcache constbound (hist ! nat index)
                                    (hist ! (nat index + 1))) n1)
         else selec)"

text \<open>
  The loop of \<open>calc_length_hist_frac\<close> over the bins between the two lengths: it returns
  the index it stops at, the end \<open>B\<close> of the last bin, \<open>PB\<close> and the area so far.
\<close>

function length_area_loop ::
  "float8 list \<Rightarrow> float8 \<Rightarrow> bool \<Rightarrow> nat \<Rightarrow> float8 \<Rightarrow> float8 \<Rightarrow> float8 \<Rightarrow> nat \<times> float8 \<times> float8 \<times> float8" where
  "length_area_loop hist length2 equal i B PB area =
     (if i < length hist - 1 then
        let bin_upper = hist ! (i + 1) in
        if \<not> (f_lt bin_upper length2 \<or> (equal \<and> f_le bin_upper length2)) then (i, B, PB, area)
        else
          let A = B; PA = PB; B = bin_upper;
              PB = Fin (real i / real (length hist - 1));
              area = (if f_lt (Fin 0) PA \<or> f_lt (Fin 0) PB
                      then f_add area (f_mul (f_mul (Fin 0.5) (f_add PB PA)) (f_sub B A))
                      else area)
          in length_area_loop hist length2 equal (i + 1) B PB area
      else (i, B, PB, area))"
  by pat_completeness auto
termination
  by (relation "measure (\<lambda>(hist, length2, equal, i, B, PB, area). length hist - 1 - i)") auto

declare length_area_loop.simps [simp del]

definition calc_length_hist_frac :: "float8 list \<Rightarrow> float8 \<Rightarrow> float8 \<Rightarrow> bool \<Rightarrow> float8" where
  "calc_length_hist_frac hist length1 length2 equal =
     (if f_lt length2 (Fin 0) then Fin 0
      else if isinf length2 \<and> equal then Fin 1
      else
        let i = length_hist_bsearch hist length1 equal; n1 = Fin (of_int (int (length hist) - 1)) in
        if i \<ge> int (length hist) - 1 then Fin 1
        else
          let (i, pos) = (if i < 0 then (0, Fin 0)
                          else (nat i, get_len_position length1 (hist ! nat i) (hist ! (nat i + 1))));
              PB = f_div (f_add (Fin (real i)) pos) n1;
              B = length1
          in if f_eq length2 length1 then PB
             else
               let (i, B, PB, area) = length_area_loop hist length2 equal i B PB (Fin 0);
                   A = B; PA = PB; B = length2;
                   pos = (if i \<ge> length hist - 1 then Fin 0
                          else if f_eq (hist ! i) (hist ! (i + 1)) then Fin 0
                          else get_len_position length2 (hist ! i) (hist ! (i + 1)));
                   PB = f_div (f_add (Fin (real i)) pos) n1;
                   area = (if f_lt (Fin 0) PA \<or> f_lt (Fin 0) PB
                           then f_add area (f_mul (f_mul (Fin 0.5) (f_add PB PA)) (f_sub B A))
                           else area)
               in if isinf area \<and> isinf length2 then Fin 0.5
                  else f_div area (f_sub length2 length1))"

text \<open>
  The loops of \<open>calc_hist_selectivity_contained\<close> and \<open>calc_hist_selectivity_contains\<close> from
  bin \<open>i\<close> down to bin 0; the first argument is \<open>i + 1\<close>.
\<close>

fun contained_loop ::
  "'a TypeCacheEntry \<Rightarrow> 'a RangeBound \<Rightarrow> 'a RangeBound \<Rightarrow> 'a RangeBound list \<Rightarrow> float8 list
     \<Rightarrow> nat \<Rightarrow> float8 \<Rightarrow> float8 \<Rightarrow> float8 \<Rightarrow> float8" where
  "contained_loop typcache lower upper hist_lower lens 0 prev_dist bin_width sum_frac = sum_frac"
| "contained_loop typcache lower upper hist_lower lens (Suc i) prev_dist bin_width sum_frac =
     (let (dist, bin_width, final_bin) =
            (if range_cmp_bounds typcache (hist_lower ! i) lower < 0 then
               let bin_width = f_sub bin_width
                     (get_position typcache lower (hist_lower ! i) (hist_lower ! (i + 1)));
                   bin_width = (if f_lt bin_width (Fin 0) then Fin 0 else bin_width)
               in (get_distance typcache lower upper, bin_width, True)
             else (get_distance typcache (hist_lower ! i) upper, bin_width, False));
          length_hist_frac = calc_length_hist_frac lens prev_dist dist True;
          sum_frac = f_add sum_frac (f_div (f_mul length_hist_frac bin_width)
                       (Fin (of_int (int (length hist_lower) - 1))))
      in if final_bin then sum_frac
         else contained_loop typcache lower upper hist_lower lens i dist (Fin 1) sum_frac)"

definition calc_hist_selectivity_contained ::
  "'a TypeCacheEntry \<Rightarrow> 'a RangeBound \<Rightarrow> 'a RangeBound \<Rightarrow> 'a RangeBound list \<Rightarrow> float8 list
     \<Rightarrow> float8" where
  "calc_hist_selectivity_contained typcache lower upper hist_lower lens =
     (let upper = upper\<lparr>rb_inclusive := \<not> rb_inclusive upper, rb_lower := True\<rparr>;
          upper_index = rbound_bsearch typcache upper hist_lower False
      in if upper_index < 0 then Fin 0
         else
           let upper_index = nat (min upper_index (int (length hist_lower) - 2));
               upper_bin_width = get_position typcache upper (hist_lower ! upper_index)
                                   (hist_lower ! (upper_index + 1))
           in contained_loop typcache lower upper hist_lower lens (Suc upper_index) (Fin 0)
                upper_bin_width (Fin 0))"

fun contains_loop ::
  "'a TypeCacheEntry \<Rightarrow> 'a RangeBound \<Rightarrow> 'a RangeBound list \<Rightarrow> float8 list
     \<Rightarrow> nat \<Rightarrow> float8 \<Rightarrow> float8 \<Rightarrow> float8 \<Rightarrow> float8" where
  "contains_loop typcache upper hist_lower lens 0 prev_dist bin_width sum_frac = sum_frac"
| "contains_loop typcache upper hist_lower lens (Suc i) prev_dist bin_width sum_frac =
     (let dist = get_distance typcache (hist_lower ! i) upper;
          length_hist_frac = f_sub (Fin 1) (calc_length_hist_frac lens prev_dist dist False);
          sum_frac = f_add sum_frac (f_div (f_mul length_hist_frac bin_width)
                       (Fin (of_int (int (length hist_lower) - 1))))
      in contains_loop typcache upper hist_lower lens i dist (Fin 1) sum_frac)"

definition calc_hist_selectivity_contains ::
  "'a TypeCacheEntry \<Rightarrow> 'a RangeBound \<Rightarrow> 'a RangeBound \<Rightarrow> 'a RangeBound list \<Rightarrow> float8 list
     \<Rightarrow> float8" where
  "calc_hist_selectivity_contains typcache lower upper hist_lower lens =
     (let lower_index = rbound_bsearch typcache lower hist_lower True
      in if lower_index < 0 then Fin 0
         else
           let lower_index = nat (min lower_index (int (length hist_lower) - 2));
               lower_bin_width = get_position typcache lower (hist_lower ! lower_index)
                                   (hist_lower ! (lower_index + 1))
           in contains_loop typcache upper hist_lower lens (Suc lower_index)
                (get_distance typcache lower upper) lower_bin_width (Fin 0))"

text \<open>The bounds of the histogram entries; an empty range among them is an error.\<close>

primrec deserialize_hist ::
  "('a::zero) TypeCacheEntry \<Rightarrow> 'a RangeType list \<Rightarrow> ('a RangeBound \<times> 'a RangeBound) list res" where
  "deserialize_hist typcache [] = Inr []"
| "deserialize_hist typcache (v # vs) =
     (case range_deserialize typcache v of (l, u, emp) \<Rightarrow>
        if emp then Inl Histogram_has_empty_range
        else rbind (deserialize_hist typcache vs) (\<lambda>bs. Inr ((l, u) # bs)))"

definition hist_operator_selectivity ::
  "'a TypeCacheEntry \<Rightarrow> Oid \<Rightarrow> 'a RangeBound \<Rightarrow> 'a RangeBound
     \<Rightarrow> 'a RangeBound list \<Rightarrow> 'a RangeBound list \<Rightarrow> float8 list \<Rightarrow> float8 res" where
  "hist_operator_selectivity typcache operator const_lower const_upper hist_lower hist_upper lens =
     (if operator = OID_RANGE_LESS_OP then
        Inr (calc_hist_selectivity_scalar typcache const_lower hist_lower False)
      else if operator = OID_RANGE_LESS_EQUAL_OP then
        Inr (calc_hist_selectivity_scalar typcache const_lower hist_lower True)
      else if operator = OID_RANGE_GREATER_OP then
        Inr (f_sub (Fin 1) (calc_hist_selectivity_scalar typcache const_lower hist_lower False))
      else if operator = OID_RANGE_GREATER_EQUAL_OP then
        Inr (f_sub (Fin 1) (calc_hist_selectivity_scalar typcache const_lower hist_lower True))
      else if operator = OID_RANGE_LEFT_OP then
        Inr (calc_hist_selectivity_scalar typcache const_lower hist_upper False)
      else if operator = OID_RANGE_RIGHT_OP then
        Inr (f_sub (Fin 1) (calc_hist_selectivity_scalar typcache const_upper hist_lower True))
      else if operator = OID_RANGE_OVERLAPS_RIGHT_OP then
        Inr (f_sub (Fin 1) (calc_hist_selectivity_scalar typcache const_lower hist_lower False))
      else if operator = OID_RANGE_OVERLAPS_LEFT_OP then
        Inr (calc_hist_selectivity_scalar typcache const_upper hist_upper True)
      else if operator = OID_RANGE_OVERLAP_OP \<or> operator = OID_RANGE_CONTAINS_ELEM_OP then
        Inr (f_sub (Fin 1)
          (f_add (calc_hist_selectivity_scalar typcache const_lower hist_upper False)
             (f_sub (Fin 1) (calc_hist_selectivity_scalar typcache const_upper hist_lower True))))
      else if operator = OID_RANGE_CONTAINS_OP then
        Inr (calc_hist_selectivity_contains typcache const_lower const_upper hist_lower lens)
      else if operator = OID_RANGE_CONTAINED_OP then
        Inr (if rb_infinite const_lower then
               calc_hist_selectivity_scalar typcache const_upper hist_upper True
             else if rb_infinite const_upper then
               f_sub (Fin 1) (calc_hist_selectivity_scalar typcache const_lower hist_lower False)
             else calc_hist_selectivity_contained typcache const_lower const_upper hist_lower lens)
      else Inl (Unknown_range_operator operator))"

definition calc_hist_selectivity ::
  "catalog \<Rightarrow> Datum TypeCacheEntry \<Rightarrow> VariableStatData \<Rightarrow> Datum RangeType \<Rightarrow> Oid \<Rightarrow> float8 res" where
  "calc_hist_selectivity cat typcache vardata constval operator =
     (if \<not> statistic_proc_security_check cat vardata (rng_cmp_proc_oid cat) then Inr (Fin (-1))
      else if rng_subdiff typcache \<noteq> None
              \<and> \<not> statistic_proc_security_check cat vardata (rng_subdiff_oid cat) then Inr (Fin (-1))
      else case Option.bind (statsTuple vardata)
                  (\<lambda>st. get_attstatsslot st STATISTIC_KIND_BOUNDS_HISTOGRAM) of
          None \<Rightarrow> Inr (Fin (-1))
        | Some hslot \<Rightarrow>
            rbind (slot_ranges hslot) (\<lambda>hvalues.
            if length hvalues < 2 then Inr (Fin (-1))
            else rbind (deserialize_hist typcache hvalues) (\<lambda>bs.
              let estimate = (\<lambda>lens.
                    case range_deserialize typcache constval of (const_lower, const_upper, _) \<Rightarrow>
                      hist_operator_selectivity typcache operator const_lower const_upper
                        (map fst bs) (map snd bs) lens)
              in if operator = OID_RANGE_CONTAINS_OP \<or> operator = OID_RANGE_CONTAINED_OP then
                   (case Option.bind (statsTuple vardata)
                           (\<lambda>st. get_attstatsslot st STATISTIC_KIND_RANGE_LENGTH_HISTOGRAM) of
                      None \<Rightarrow> Inr (Fin (-1))
                    | Some lslot \<Rightarrow>
                        rbind (slot_float8s lslot) (\<lambda>lens.
                          if length lens < 2 then Inr (Fin (-1)) else estimate lens))
                 else estimate [])))"

text \<open>The fractions of NULLs and of empty ranges.\<close>

definition stats_fractions :: "VariableStatData \<Rightarrow> (float8 \<times> float8) res" where
  "stats_fractions vardata =
     (case statsTuple vardata of
        Some stats \<Rightarrow>
          (case get_attstatsslot stats STATISTIC_KIND_RANGE_LENGTH_HISTOGRAM of
             Some sslot \<Rightarrow>
               (case stanumbers sslot of
                  [emptyfrac] \<Rightarrow> Inr (st_nullfrac stats, emptyfrac)
                | _ \<Rightarrow> Inl Invalid_empty_fraction)
           | None \<Rightarrow> Inr (st_nullfrac stats, Fin 0))
      | None \<Rightarrow> Inr (Fin 0, Fin 0))"

text \<open>What an empty constant matches.\<close>

definition empty_const_selectivity :: "Oid \<Rightarrow> float8 \<Rightarrow> float8 res" where
  "empty_const_selectivity operator empty_frac =
     (if operator \<in> {OID_RANGE_OVERLAP_OP, OID_RANGE_OVERLAPS_LEFT_OP, OID_RANGE_OVERLAPS_RIGHT_OP,
          OID_RANGE_LEFT_OP, OID_RANGE_RIGHT_OP, OID_RANGE_LESS_OP} then Inr (Fin 0)
      else if operator \<in> {OID_RANGE_CONTAINED_OP, OID_RANGE_LESS_EQUAL_OP} then Inr empty_frac
      else if operator \<in> {OID_RANGE_CONTAINS_OP, OID_RANGE_GREATER_EQUAL_OP} then Inr (Fin 1)
      else if operator = OID_RANGE_GREATER_OP then Inr (f_sub (Fin 1) empty_frac)
      else Inl (Unexpected_operator operator))"

definition calc_rangesel ::
  "catalog \<Rightarrow> Datum TypeCacheEntry \<Rightarrow> VariableStatData \<Rightarrow> Datum RangeType \<Rightarrow> Oid \<Rightarrow> float8 res" where
  "calc_rangesel cat typcache vardata constval operator =
     rbind (stats_fractions vardata) (\<lambda>(null_frac, empty_frac).
     rbind (if RangeIsEmpty constval then empty_const_selectivity operator empty_frac
            else
              rbind (calc_hist_selectivity cat typcache vardata constval operator) (\<lambda>hist_selec.
              let hist_selec = (if f_lt hist_selec (Fin 0) then default_range_selectivity operator
                                else hist_selec);
                  selec = f_mul (f_sub (Fin 1) empty_frac) hist_selec
              in Inr (if operator = OID_RANGE_CONTAINED_OP then f_add selec empty_frac else selec)))
       (\<lambda>selec. Inr (CLAMP_PROBABILITY (f_mul selec (f_sub (Fin 1) null_frac)))))"

text \<open>
  The constant of a clause as a range, with its type cache entry; \<open>None\<close> when the
  default estimate has to do.
\<close>

definition clause_constrange ::
  "Datum lookup \<Rightarrow> Datum fnx \<Rightarrow> Oid \<Rightarrow> VariableStatData \<Rightarrow> Const
     \<Rightarrow> (Datum TypeCacheEntry \<times> Datum RangeType) option res" where
  "clause_constrange lk fx operator vardata other =
     (if operator = OID_RANGE_CONTAINS_ELEM_OP then
        rbind (range_get_typcache lk fx (vartype vardata)) (\<lambda>(typcache, _).
          if Some (consttype other) = map_option elem_type_id (rngelemtype typcache) then
            (case const_value other of
               ElemValue v \<Rightarrow>
                 rbind (range_serialize typcache
                     \<lparr>rb_val = v, rb_infinite = False, rb_inclusive = True, rb_lower = True\<rparr>
                     \<lparr>rb_val = v, rb_infinite = False, rb_inclusive = True, rb_lower = False\<rparr>
                     False) (\<lambda>r. Inr (Some (typcache, r)))
             | RangeValue _ \<Rightarrow> Inl Undefined_behavior)
          else Inr None)
      else if operator = OID_RANGE_ELEM_CONTAINED_OP then Inr None
      else if consttype other = vartype vardata then
        rbind (range_get_typcache lk fx (vartype vardata)) (\<lambda>(typcache, _).
          rbind (DatumGetRangeTypeP (const_value other)) (\<lambda>r. Inr (Some (typcache, r))))
      else Inr None)"

definition rangesel ::
  "catalog \<Rightarrow> Datum lookup \<Rightarrow> Datum fnx \<Rightarrow> Oid
     \<Rightarrow> (VariableStatData \<times> other_node \<times> bool) option \<Rightarrow> float8 res" where
  "rangesel cat lk fx operator restriction =
     (case restriction of
        None \<Rightarrow> Inr (default_range_selectivity operator)
      | Some (vardata, NotConst, varonleft) \<Rightarrow> Inr (default_range_selectivity operator)
      | Some (vardata, IsConst other, varonleft) \<Rightarrow>
          if constisnull other then Inr (Fin 0)
          else
            let operator = (if \<not> varonleft then get_commutator cat operator else operator) in
            if \<not> varonleft \<and> operator = 0 then Inr (default_range_selectivity operator)
            else
              rbind (clause_constrange lk fx operator vardata other) (\<lambda>constrange.
              rbind (case constrange of
                       Some (typcache, r) \<Rightarrow> calc_rangesel cat typcache vardata r operator
                     | None \<Rightarrow> Inr (default_range_selectivity operator)) (\<lambda>selec.
              Inr (CLAMP_PROBABILITY selec))))"

section \<open>Selectivity from the frequency histogram\<close>

definition IsInRange :: "int \<Rightarrow> int \<Rightarrow> int \<Rightarrow> int \<Rightarrow> bool" where
  "IsInRange challenge_low challenge_up low_bound up_bound \<longleftrightarrow>
     \<not> (challenge_up < low_bound \<or> challenge_low > up_bound)"

text \<open>The two loops over the buckets; bucket \<open>i\<close> is the head of the list.\<close>

fun left_loop :: "int \<Rightarrow> int \<Rightarrow> int \<Rightarrow> int \<Rightarrow> int \<Rightarrow> float8 list \<Rightarrow> float8 \<Rightarrow> float8" where
  "left_loop min1 interval_length a b i [] sm = sm"
| "left_loop min1 interval_length a b i (f # fs) sm =
     (let x = to_int32 (min1 + i * interval_length);
          y = to_int32 (min1 + (i + 1) * interval_length)
      in if IsInRange x y a b then sm
         else left_loop min1 interval_length a b (i + 1) fs (f_add sm f))"

fun overlap_loop :: "int \<Rightarrow> int \<Rightarrow> int \<Rightarrow> int \<Rightarrow> int \<Rightarrow> float8 list \<Rightarrow> nat \<Rightarrow> float8 \<Rightarrow> float8" where
  "overlap_loop min1 interval_length a b i [] out sm = sm"
| "overlap_loop min1 interval_length a b i (f # fs) out sm =
     (let x = to_int32 (min1 + i * interval_length);
          y = to_int32 (min1 + (i + 1) * interval_length)
      in if IsInRange x y a b then overlap_loop min1 interval_length a b (i + 1) fs (out + 1) (f_add sm f)
         else if out \<noteq> 0 then sm
         else overlap_loop min1 interval_length a b (i + 1) fs out sm)"

definition rangerestsel_inner ::
  "float8 list \<Rightarrow> nat \<Rightarrow> int \<Rightarrow> int \<Rightarrow> Datum RangeBound \<Rightarrow> Datum RangeBound \<Rightarrow> Oid \<Rightarrow> float8 res" where
  "rangerestsel_inner freq_values1 rows1 min1 max1 const_lower const_upper operator =
     rbind (roundUpDivision (to_int32 (max1 - min1)) (int (length freq_values1))) (\<lambda>interval_length.
       let a = to_int32 (uint (rb_val const_lower));
           b = to_int32 (uint (rb_val const_upper));
           sm = (if operator = OID_RANGE_LEFT_OP then
                   let sm = left_loop min1 interval_length a b 0 freq_values1 (Fin 0) in
                   if f_lt sm (Fin 1)
                   then f_mul (freq_values1 ! 0) (f_div (Fin (of_int a)) (Fin (of_int interval_length)))
                   else sm
                 else if operator = OID_RANGE_OVERLAP_OP then
                   overlap_loop min1 interval_length a b 0 freq_values1 0 (Fin 0)
                 else Fin 0)
       in Inr (f_div sm (Fin (real rows1))))"

definition rangerestsel ::
  "catalog \<Rightarrow> Datum lookup \<Rightarrow> Datum fnx \<Rightarrow> Oid
     \<Rightarrow> (VariableStatData \<times> other_node \<times> bool) option \<Rightarrow> float8 res" where
  "rangerestsel cat lk fx operator restriction =
     (if operator \<noteq> OID_RANGE_LEFT_OP \<and> operator \<noteq> OID_RANGE_OVERLAP_OP then Inr (Fin 0.005)
      else case restriction of
        None \<Rightarrow> Inr (default_range_selectivity operator)
      | Some (vardata1, other, varonleft) \<Rightarrow>
          rbind (range_get_typcache lk fx (vartype vardata1)) (\<lambda>(typcache, _).
          case other of
            NotConst \<Rightarrow> Inr (default_range_selectivity OID_RANGE_LEFT_OP)
          | IsConst other \<Rightarrow>
              if constisnull other \<or> \<not> varonleft then Inr (default_range_selectivity OID_RANGE_LEFT_OP)
              else if consttype other \<noteq> vartype vardata1
                then Inr (default_range_selectivity OID_RANGE_LEFT_OP)
              else
                rbind (DatumGetRangeTypeP (const_value other)) (\<lambda>constrange.
                if RangeIsEmpty constrange then Inr (Fin 0)
                else if \<not> statistic_proc_security_check cat vardata1 (get_opcode cat operator)
                  then Inr (Fin 0.005)
                else case statsTuple vardata1 of
                    None \<Rightarrow> Inr (Fin 0.005)
                  | Some st \<Rightarrow>
                      (case (get_attstatsslot st STATISTIC_KIND_BOUNDS_HISTOGRAM,
                             get_attstatsslot st STATISTIC_KIND_FREQUENCY_HISTOGRAM) of
                         (Some sslot1, Some freq_sslot1) \<Rightarrow>
                           rbind (slot_ranges sslot1) (\<lambda>values.
                           rbind (slot_float8s freq_sslot1) (\<lambda>freq_values1.
                           if values = [] then Inl Undefined_behavior
                           else
                             case range_deserialize typcache (hd values) of (r_min1, _, e1) \<Rightarrow>
                             case range_deserialize typcache (last values) of (_, r_max1, e2) \<Rightarrow>
                             if e1 \<or> e2 then Inl Histogram_has_empty_range
                             else
                               case range_deserialize typcache constrange of (const_lower, const_upper, _) \<Rightarrow>
                                 rbind (rangerestsel_inner freq_values1 (length values)
                                     (to_int32 (uint (rb_val r_min1))) (to_int32 (uint (rb_val r_max1)))
                                     const_lower const_upper operator) (\<lambda>selec.
                                   Inr (CLAMP_PROBABILITY selec))))
                       | _ \<Rightarrow> Inr (Fin 0.005)))))"

section \<open>The binary searches\<close>

lemma bsearch_loop_spec:
  assumes "\<And>i j. i \<le> j \<Longrightarrow> j < n \<Longrightarrow> below j \<Longrightarrow> below i"
    and "-1 \<le> lower" and "lower \<le> upper" and "upper < int n"
    and "\<And>i. int i \<le> lower \<Longrightarrow> below i" and "\<And>i. upper < int i \<Longrightarrow> i < n \<Longrightarrow> \<not> below i"
  shows "lower \<le> bsearch_loop below lower upper \<and> bsearch_loop below lower upper \<le> upper \<and>
    (\<forall>i < n. below i \<longleftrightarrow> int i \<le> bsearch_loop below lower upper)"
  using assms
proof (induction below lower upper rule: bsearch_loop.induct)
  case (1 below lower upper)
  note anti = 1(3) and prems = 1(4-)
  show ?case
  proof (cases "lower < upper")
    case False
    then have "bsearch_loop below lower upper = lower" "lower = upper"
      using prems(2) by (simp_all add: bsearch_loop.simps)
    then show ?thesis using prems by (force simp: not_less)
  next
    case True
    define middle where "middle = (lower + upper + 1) div 2"
    have m: "lower < middle" "middle \<le> upper" "0 \<le> middle" "nat middle < n"
      using True prems by (auto simp: middle_def)
    show ?thesis
    proof (cases "below (nat middle)")
      case below: True
      have eq: "bsearch_loop below lower upper = bsearch_loop below middle upper"
        using True below by (subst bsearch_loop.simps) (simp add: middle_def)
      have "below i" if "int i \<le> middle" for i
        using anti [OF _ m(4) below, of i] that by linarith
      from 1(1) [OF True middle_def below anti _ _ _ this] show ?thesis
        unfolding eq using m prems by force
    next
      case nbelow: False
      have eq: "bsearch_loop below lower upper = bsearch_loop below lower (middle - 1)"
        using True nbelow by (subst bsearch_loop.simps) (simp add: middle_def)
      have "\<not> below i" if "middle - 1 < int i" "i < n" for i
        using anti [of "nat middle" i] that nbelow by linarith
      from 1(2) [OF True middle_def nbelow anti _ _ _ _ this] show ?thesis
        unfolding eq using m prems by force
    qed
  qed
qed

lemma prefix_count:
  assumes "-1 \<le> r" and "r < int (length xs)"
    and "\<And>i. i < length xs \<Longrightarrow> P (xs ! i) \<longleftrightarrow> int i \<le> r"
  shows "int (length (filter P xs)) = r + 1"
proof -
  have t: "\<forall>x \<in> set (take (nat (r + 1)) xs). P x" "\<forall>x \<in> set (drop (nat (r + 1)) xs). \<not> P x"
    using assms by (auto simp: in_set_conv_nth)
  have "filter P xs = filter P (take (nat (r + 1)) xs @ drop (nat (r + 1)) xs)" by simp
  also have "\<dots> = take (nat (r + 1)) xs"
    using t by (simp only: filter_append filter_True filter_False append_Nil2)
  finally show ?thesis using assms(1,2) by simp
qed

lemma bsearch_count:
  assumes "\<And>i j. i \<le> j \<Longrightarrow> j < length xs \<Longrightarrow> P (xs ! j) \<Longrightarrow> P (xs ! i)"
  shows "bsearch_loop (\<lambda>i. P (xs ! i)) (-1) (int (length xs) - 1) = int (length (filter P xs)) - 1"
proof -
  have "-1 \<le> bsearch_loop (\<lambda>i. P (xs ! i)) (-1) (int (length xs) - 1) \<and>
    bsearch_loop (\<lambda>i. P (xs ! i)) (-1) (int (length xs) - 1) \<le> int (length xs) - 1 \<and>
    (\<forall>i < length xs. P (xs ! i) \<longleftrightarrow> int i \<le> bsearch_loop (\<lambda>i. P (xs ! i)) (-1) (int (length xs) - 1))"
    by (rule bsearch_loop_spec) (use assms in auto)
  then show ?thesis
    using prefix_count [of "bsearch_loop (\<lambda>i. P (xs ! i)) (-1) (int (length xs) - 1)" xs P] by simp
qed

text \<open>What the searches look for.\<close>

definition bound_below :: "'a TypeCacheEntry \<Rightarrow> 'a RangeBound \<Rightarrow> bool \<Rightarrow> 'a RangeBound \<Rightarrow> bool" where
  "bound_below tc v equal b \<longleftrightarrow>
     (if equal then cle (range_cmp_bounds tc) b v else \<not> cle (range_cmp_bounds tc) v b)"

definition len_below :: "float8 \<Rightarrow> bool \<Rightarrow> float8 \<Rightarrow> bool" where
  "len_below v equal x \<longleftrightarrow> f_lt x v \<or> (equal \<and> f_le x v)"

context range_opclass
begin

lemma rbound_bsearch_eq:
  "rbound_bsearch tc v hist equal =
     bsearch_loop (\<lambda>i. bound_below tc v equal (hist ! i)) (-1) (int (length hist) - 1)"
proof -
  let ?c = "range_cmp_bounds tc"
  have "(let cmp = ?c (hist ! i) v in cmp < 0 \<or> equal \<and> cmp = 0) = bound_below tc v equal (hist ! i)" for i
    using bnd.neg_iff [of "hist ! i" v] by (auto simp: bound_below_def Let_def cle_def)
  then show ?thesis
    unfolding rbound_bsearch_def by presburger
qed

lemma bound_below_anti:
  assumes "sorted_wrt (cle (range_cmp_bounds tc)) hist" and "i \<le> j" and "j < length hist"
    and "bound_below tc v equal (hist ! j)"
  shows "bound_below tc v equal (hist ! i)"
  using assms(4) bnd.sorted_wrt_nth [OF assms(1-3)] bnd.cle_trans [of "hist ! i" "hist ! j" v]
    bnd.cle_trans [of v "hist ! i" "hist ! j"]
  by (auto simp: bound_below_def split: if_splits)

lemma rbound_bsearch_spec:
  assumes "sorted_wrt (cle (range_cmp_bounds tc)) hist"
  shows "-1 \<le> rbound_bsearch tc v hist equal \<and> rbound_bsearch tc v hist equal < int (length hist) \<and>
    (\<forall>i < length hist. bound_below tc v equal (hist ! i) \<longleftrightarrow> int i \<le> rbound_bsearch tc v hist equal)"
  using bsearch_loop_spec [where below = "\<lambda>i. bound_below tc v equal (hist ! i)" and n = "length hist"
      and lower = "-1" and upper = "int (length hist) - 1", OF bound_below_anti [OF assms]]
  unfolding rbound_bsearch_eq by force

lemma rbound_bsearch_count:
  "sorted_wrt (cle (range_cmp_bounds tc)) hist \<Longrightarrow>
   rbound_bsearch tc v hist equal = int (length (filter (bound_below tc v equal) hist)) - 1"
  unfolding rbound_bsearch_eq by (rule bsearch_count) (rule bound_below_anti)

end

lemma f_lt_le_trans: "f_le x y \<Longrightarrow> f_lt y z \<Longrightarrow> f_lt x z"
  by (cases x; cases y; cases z) (auto simp: f_le_def)

lemma length_hist_bsearch_spec:
  assumes "sorted_wrt f_le hist"
  shows "-1 \<le> length_hist_bsearch hist v equal \<and> length_hist_bsearch hist v equal < int (length hist) \<and>
    (\<forall>i < length hist. len_below v equal (hist ! i) \<longleftrightarrow> int i \<le> length_hist_bsearch hist v equal)"
proof -
  have eq: "length_hist_bsearch hist v equal =
    bsearch_loop (\<lambda>i. len_below v equal (hist ! i)) (-1) (int (length hist) - 1)"
    unfolding length_hist_bsearch_def len_below_def Let_def ..
  have "len_below v equal (hist ! i)" if "i \<le> j" "j < length hist" "len_below v equal (hist ! j)" for i j
  proof -
    have "i = j \<or> f_le (hist ! i) (hist ! j)"
      using assms that by (auto simp: sorted_wrt_iff_nth_less le_less)
    then show ?thesis
      using that f_le_trans [of "hist ! i" "hist ! j" v] f_lt_le_trans [of "hist ! i" "hist ! j" v]
      by (auto simp: len_below_def)
  qed
  from bsearch_loop_spec [where below = "\<lambda>i. len_below v equal (hist ! i)" and n = "length hist"
      and lower = "-1" and upper = "int (length hist) - 1", OF this]
  show ?thesis unfolding eq by force
qed

section \<open>Interpolation\<close>

lemma get_position_prob: "is_prob (get_position tc v hist1 hist2)"
proof -
  have "is_prob (f_min (f_max p (Fin 0)) (Fin 1))" if "\<not> isnan p" for p
    using that by (cases p) (auto simp: f_min_def f_max_def)
  then show ?thesis
    by (auto simp: get_position_def Let_def split: option.splits)
qed

lemma scalar_selectivity:
  assumes opc: "range_opclass tc" and sorted: "sorted_wrt (cle (range_cmp_bounds tc)) hist"
    and len: "2 \<le> length hist" and k: "k = length (filter (bound_below tc v equal) hist)"
  shows "\<exists>x. calc_hist_selectivity_scalar tc v hist equal = Fin x \<and>
    real (k - 1) / real (length hist - 1) \<le> x \<and>
    x \<le> real (min k (length hist - 1)) / real (length hist - 1)"
proof -
  note index = range_opclass.rbound_bsearch_count [OF opc sorted, of v equal, folded k]
  have kl: "k \<le> length hist" unfolding k by (rule length_filter_le)
  have n1: "real_of_int (int (length hist) - 1) = real (length hist - 1)" "0 < real (length hist - 1)"
    using len by auto
  obtain p where p: "get_position tc v (hist ! nat (int k - 1)) (hist ! (nat (int k - 1) + 1)) = Fin p"
    "0 \<le> p" "p \<le> 1"
    using get_position_prob [of tc v] unfolding is_prob_def by blast
  show ?thesis
  proof (cases "0 < k \<and> k < length hist")
    case True
    then have "calc_hist_selectivity_scalar tc v hist equal =
      Fin ((real (k - 1) + p) / real (length hist - 1))"
      using n1 p by (simp add: calc_hist_selectivity_scalar_def index Let_def add_divide_distrib of_nat_diff)
    moreover have "real (k - 1) + p \<le> real (min k (length hist - 1))"
      using True p by (auto simp: of_nat_diff)
    ultimately show ?thesis
      using n1(2) p True by (auto simp: divide_right_mono)
  next
    case False
    then have "calc_hist_selectivity_scalar tc v hist equal = Fin (real (k - 1) / real (length hist - 1))"
      using n1 kl len by (auto simp: calc_hist_selectivity_scalar_def index Let_def of_nat_diff max_def)
    then show ?thesis
      using n1(2) False kl by (auto simp: divide_right_mono min_def)
  qed
qed

section \<open>The length histogram\<close>

text \<open>A length histogram: ascending lengths, possibly infinite.\<close>

definition length_hist :: "float8 list \<Rightarrow> bool" where
  "length_hist hist \<longleftrightarrow> 2 \<le> length hist \<and> sorted_wrt f_le hist \<and> MInf \<notin> set hist"

lemma length_histD:
  assumes "length_hist hist" and "i < length hist"
  shows "\<exists>x. hist ! i = Fin x \<or> hist ! i = PInf" and "i < j \<Longrightarrow> j < length hist \<Longrightarrow> f_le (hist ! i) (hist ! j)"
proof -
  show le: "f_le (hist ! i) (hist ! j)" if "i < j" "j < length hist" for j
    using assms that by (auto simp: length_hist_def sorted_wrt_iff_nth_less)
  have "hist ! i \<noteq> MInf" using assms(1) nth_mem [OF assms(2)] unfolding length_hist_def by metis
  moreover have "hist ! i \<noteq> NaN"
  proof
    assume n: "hist ! i = NaN"
    show False
    proof (cases "i = 0")
      case True
      then show False using le [of 1] n assms(1) by (simp add: length_hist_def f_le_def)
    next
      case False
      then have "f_le (hist ! 0) (hist ! i)"
        using assms by (auto simp: length_hist_def sorted_wrt_iff_nth_less)
      then show False using n by (cases "hist ! 0") (auto simp: f_le_def)
    qed
  qed
  ultimately show "\<exists>x. hist ! i = Fin x \<or> hist ! i = PInf" by (cases "hist ! i") auto
qed

lemma get_len_position_bounds:
  assumes "f_le h h'" and "\<not> f_eq h h'" and "f_le v h'" and "h \<noteq> MInf" and "v \<noteq> MInf"
  shows "\<exists>p. get_len_position v h h' = Fin p \<and> p \<le> 1 \<and> (f_le h v \<longrightarrow> 0 \<le> p)"
proof -
  have "0 \<le> (z - x) / (z - y) \<and> (y \<le> x \<longrightarrow> (z - x) / (z - y) \<le> 1)" if "y < z" "x \<le> z" for x y z :: real
    using that by (auto simp: divide_le_eq_1)
  moreover have "\<exists>p :: real. p * 2 = 1 \<and> p \<le> 1 \<and> 0 \<le> p" by (rule exI [of _ "1 / 2"]) simp
  ultimately show ?thesis
    using assms
    by (cases v; cases h; cases h') (auto simp: get_len_position_def f_le_def)
qed

definition area_inv :: "float8 list \<Rightarrow> float8 \<Rightarrow> real \<Rightarrow> nat \<Rightarrow> real \<Rightarrow> real \<Rightarrow> real \<Rightarrow> bool" where
  "area_inv hist length2 a i b p s \<longleftrightarrow> i \<le> length hist - 1 \<and> 0 \<le> p \<and> p \<le> 1 \<and> 0 \<le> s \<and> s \<le> b - a \<and>
     f_le (Fin b) length2 \<and> (i < length hist - 1 \<longrightarrow> f_le (Fin b) (hist ! (i + 1))) \<and>
     (f_le (hist ! i) length2 \<or> p = 0)"

lemma trapezoid_bounds:
  fixes b b' p p' :: real
  assumes "b \<le> b'" and "p' \<le> 1" and "p \<le> 1" and "0 \<le> p' + p"
  shows "0 \<le> 0.5 * (p' + p) * (b' - b)" and "0.5 * (p' + p) * (b' - b) \<le> b' - b"
proof -
  show "0 \<le> 0.5 * (p' + p) * (b' - b)" using assms by simp
  have "0.5 * (p' + p) * (b' - b) \<le> 1 * (b' - b)"
    using assms by (intro mult_right_mono) auto
  then show "0.5 * (p' + p) * (b' - b) \<le> b' - b" by simp
qed

lemma area_inv_step:
  assumes hist: "length_hist hist" and inv: "area_inv hist length2 a i b p s" and i: "i < length hist - 1"
    and below: "len_below length2 equal (hist ! (i + 1))" and fin: "equal \<Longrightarrow> \<not> isinf length2"
  shows "\<exists>b' s'. hist ! (i + 1) = Fin b' \<and>
    (if 0 < p \<or> 0 < real i / real (length hist - 1)
     then f_add (Fin s) (f_mul (f_mul (Fin 0.5) (f_add (Fin (real i / real (length hist - 1))) (Fin p))) (f_sub (Fin b') (Fin b)))
     else Fin s) = Fin s' \<and>
    area_inv hist length2 a (i + 1) b' (real i / real (length hist - 1)) s'"
proof -
  let ?q = "real i / real (length hist - 1)"
  have i1: "i + 1 < length hist" using i by linarith
  obtain b' where b': "hist ! (i + 1) = Fin b'"
    using length_histD(1) [OF hist, of "i + 1"] i1 below fin
    by (cases length2; cases "hist ! (i + 1)") (auto simp: len_below_def f_le_def)
  have le: "f_le (hist ! (i + 1)) length2" using below by (auto simp: len_below_def f_le_def)
  have bb: "b \<le> b'" using inv i b' by (simp add: area_inv_def)
  have q: "0 \<le> ?q" "?q \<le> 1" using i by (auto simp: divide_le_eq_1)
  have p: "0 \<le> p" "p \<le> 1" using inv by (auto simp: area_inv_def)
  have sb: "0 \<le> s" "s \<le> b - a" using inv by (auto simp: area_inv_def)
  define s' where "s' = (if 0 < p \<or> 0 < ?q then s + 0.5 * (?q + p) * (b' - b) else s)"
  have "s' = s + 0.5 * (?q + p) * (b' - b) \<or> s' = s" by (simp add: s'_def)
  then have s': "0 \<le> s'" "s' \<le> b' - a"
    using trapezoid_bounds [OF bb q(2) p(2) add_nonneg_nonneg [OF q(1) p(1)]] sb by linarith+
  have "i + 1 < length hist - 1 \<longrightarrow> f_le (Fin b') (hist ! (i + 1 + 1))"
    using length_histD(2) [OF hist, of "i + 1" "i + 2"] b' by auto
  then have "area_inv hist length2 a (i + 1) b' ?q s'"
    using s' q i le b' by (simp add: area_inv_def)
  then show ?thesis using b' by (auto simp: s'_def)
qed

lemma length_area_loop_inv:
  assumes hist: "length_hist hist" and "area_inv hist length2 a i b p s"
    and fin: "equal \<Longrightarrow> \<not> isinf length2"
  shows "\<exists>i' b' p' s'. length_area_loop hist length2 equal i (Fin b) (Fin p) (Fin s) = (i', Fin b', Fin p', Fin s') \<and>
    area_inv hist length2 a i' b' p' s' \<and>
    (i' < length hist - 1 \<longrightarrow> \<not> len_below length2 equal (hist ! (i' + 1)))"
  using assms(2)
proof (induction "length hist - 1 - i" arbitrary: i b p s)
  case 0
  then show ?case by (subst length_area_loop.simps) (auto simp: area_inv_def)
next
  case (Suc n)
  then have i: "i < length hist - 1" by simp
  show ?case
  proof (cases "len_below length2 equal (hist ! (i + 1))")
    case False
    then show ?thesis
      using Suc.prems i by (subst length_area_loop.simps) (auto simp: len_below_def)
  next
    case True
    obtain b' s' where s: "hist ! (i + 1) = Fin b'"
      "(if 0 < p \<or> 0 < real i / real (length hist - 1)
       then f_add (Fin s) (f_mul (f_mul (Fin 0.5) (f_add (Fin (real i / real (length hist - 1))) (Fin p))) (f_sub (Fin b') (Fin b)))
       else Fin s) = Fin s'"
      "area_inv hist length2 a (i + 1) b' (real i / real (length hist - 1)) s'"
      using area_inv_step [OF hist Suc.prems i True fin] by blast
    have "length_area_loop hist length2 equal i (Fin b) (Fin p) (Fin s) =
      length_area_loop hist length2 equal (i + 1) (Fin b') (Fin (real i / real (length hist - 1))) (Fin s')"
      using True i s(2) unfolding len_below_def
      by (subst length_area_loop.simps) (simp only: s(1) Let_def f_lt.simps if_True if_False not_not simp_thms)
    then show ?thesis
      using Suc.hyps(1) [OF _ s(3)] Suc.hyps(2) by auto
  qed
qed


lemma f_trapezoid_PInf: "0 < p + q \<Longrightarrow> f_add (Fin s) (f_mul (f_mul (Fin 0.5) (f_add (Fin p) (Fin q))) (f_sub PInf (Fin b))) = PInf"
  by (simp add: f_sub_def f_inf_mul_def)

text \<open>The last bin and the division by the width.\<close>

lemma last_bin_prob:
  assumes inv: "area_inv hist length2 a i b p s" and q: "q \<le> 1" and pq: "p > 0 \<Longrightarrow> 0 \<le> q"
    and lt: "f_lt (Fin a) length2" and area: "area = (if f_lt (Fin 0) (Fin p) \<or> f_lt (Fin 0) (Fin q)
      then f_add (Fin s) (f_mul (f_mul (Fin 0.5) (f_add (Fin q) (Fin p))) (f_sub length2 (Fin b))) else Fin s)"
  shows "is_prob (if isinf area \<and> isinf length2 then Fin 0.5 else f_div area (f_sub length2 (Fin a)))"
proof (cases length2)
  case (Fin d)
  have sb: "0 \<le> s" "s \<le> b - a" "0 \<le> p" "p \<le> 1" "b \<le> d" "a < d"
    using inv lt Fin by (auto simp: area_inv_def)
  define s' where "s' = (if 0 < p \<or> 0 < q then s + 0.5 * (q + p) * (d - b) else s)"
  have "0 \<le> q + p" if "0 < p \<or> 0 < q" using that pq sb by auto
  then have "0 \<le> s'" "s' \<le> d - a"
    using trapezoid_bounds [OF sb(5) q sb(4)] sb unfolding s'_def by (auto split: if_splits)
  moreover have "area = Fin s'" using Fin by (simp add: area s'_def)
  ultimately show ?thesis
    using sb Fin by (simp add: divide_le_eq_1)
next
  case PInf
  show ?thesis
  proof (cases "0 < p \<or> 0 < q")
    case True
    then have "0 < q + p" using pq inv by (auto simp: area_inv_def)
    then have "area = PInf" using True PInf f_trapezoid_PInf [of q p s b] by (auto simp: area)
    then show ?thesis using PInf by simp
  next
    case False
    then show ?thesis using PInf by (simp add: area f_sub_def)
  qed
qed (use lt in auto)

lemma first_bin:
  assumes hist: "length_hist hist" and i: "length_hist_bsearch hist length1 equal = i"
    and "i < int (length hist) - 1" and l1: "length1 \<noteq> MInf" "length1 \<noteq> NaN"
  shows "\<exists>k pos p. (if i < 0 then (0, Fin 0) else (nat i, get_len_position length1 (hist ! nat i) (hist ! (nat i + 1)))) = (k, Fin pos) \<and>
    f_div (f_add (Fin (real k)) (Fin pos)) (Fin (of_int (int (length hist) - 1))) = Fin p \<and>
    0 \<le> p \<and> p \<le> 1 \<and> k < length hist - 1 \<and> f_le length1 (hist ! (k + 1)) \<and> (p = 0 \<or> f_le (hist ! k) length1)"
proof -
  have len: "2 \<le> length hist" and sorted: "sorted_wrt f_le hist"
    using hist by (auto simp: length_hist_def)
  note spec = length_hist_bsearch_spec [OF sorted, of length1 equal, unfolded i]
  define k where "k = (if i < 0 then 0 else nat i)"
  have k: "k < length hist - 1" using assms(3) len by (auto simp: k_def)
  then have k1: "k + 1 < length hist" "int k \<ge> i" by (auto simp: k_def)
  have "\<not> len_below length1 equal (hist ! (k + 1))" using spec k1 by force
  then have up: "f_le length1 (hist ! (k + 1))"
    using length_histD(1) [OF hist k1(1)] l1 by (cases length1) (auto simp: len_below_def f_le_def)
  define pos where "pos = (if i < 0 then Fin 0 else get_len_position length1 (hist ! k) (hist ! (k + 1)))"
  obtain x where x: "pos = Fin x" "0 \<le> x" "x \<le> 1" "x = 0 \<and> k = 0 \<or> f_le (hist ! k) length1"
  proof (cases "i < 0")
    case False
    then have b: "len_below length1 equal (hist ! k)" using spec k1 by (auto simp: k_def)
    then have lo: "f_le (hist ! k) length1" by (auto simp: len_below_def f_le_def)
    have ne: "\<not> f_eq (hist ! k) (hist ! (k + 1))"
      using b \<open>\<not> len_below length1 equal (hist ! (k + 1))\<close>
      by (cases "hist ! k"; cases "hist ! (k + 1)"; cases length1) (auto simp: len_below_def f_le_def)
    have "f_le (hist ! k) (hist ! (k + 1))" "hist ! k \<noteq> MInf"
      using length_histD [OF hist, of k] k1 by auto
    from get_len_position_bounds [OF this(1) ne up this(2) l1(1)] lo that False show ?thesis
      by (auto simp: pos_def)
  qed (use that in \<open>simp add: pos_def k_def\<close>)
  have n1: "of_int (int (length hist) - 1) = real (length hist - 1)" "0 < real (length hist - 1)"
    using len by auto
  define p where "p = (real k + x) / real (length hist - 1)"
  have "real k + x \<le> real (length hist - 1)" using k x(3) by linarith
  then have p: "0 \<le> p" "p \<le> 1" "p = 0 \<or> f_le (hist ! k) length1"
    using x n1 by (auto simp: p_def divide_le_eq_1)
  have "(if i < 0 then (0, Fin 0) else (nat i, get_len_position length1 (hist ! nat i) (hist ! (nat i + 1)))) = (k, Fin x)"
    using x(1) by (auto simp: k_def pos_def)
  moreover have "f_div (f_add (Fin (real k)) (Fin x)) (Fin (of_int (int (length hist) - 1))) = Fin p"
    unfolding n1(1) p_def using n1(2) by simp
  ultimately show ?thesis using p k up by blast
qed

lemma last_position:
  assumes hist: "length_hist hist" and inv: "area_inv hist length2 a i b p s"
    and stop: "i < length hist - 1 \<longrightarrow> \<not> len_below length2 equal (hist ! (i + 1))"
    and l2: "length2 \<noteq> MInf" "length2 \<noteq> NaN"
  shows "\<exists>q. f_div (f_add (Fin (real i))
      (if i \<ge> length hist - 1 then Fin 0
       else if f_eq (hist ! i) (hist ! (i + 1)) then Fin 0
       else get_len_position length2 (hist ! i) (hist ! (i + 1)))) (Fin (of_int (int (length hist) - 1))) = Fin q \<and>
    q \<le> 1 \<and> (p > 0 \<longrightarrow> 0 \<le> q)"
proof -
  have len: "2 \<le> length hist" using hist by (simp add: length_hist_def)
  have n1: "of_int (int (length hist) - 1) = real (length hist - 1)" "0 < real (length hist - 1)"
    using len by auto
  have i: "i \<le> length hist - 1" and ip: "f_le (hist ! i) length2 \<or> p = 0" using inv by (auto simp: area_inv_def)
  have "\<exists>x. (if i \<ge> length hist - 1 then Fin 0
       else if f_eq (hist ! i) (hist ! (i + 1)) then Fin 0
       else get_len_position length2 (hist ! i) (hist ! (i + 1))) = Fin x \<and>
    real i + x \<le> real (length hist - 1) \<and> (p > 0 \<longrightarrow> 0 \<le> x)"
  proof (cases "i \<ge> length hist - 1 \<or> f_eq (hist ! i) (hist ! (i + 1))")
    case True
    then show ?thesis using i by auto
  next
    case False
    then have i1: "i + 1 < length hist" by linarith
    have up: "f_le length2 (hist ! (i + 1))"
      using stop False length_histD(1) [OF hist i1] l2
      by (cases length2) (auto simp: len_below_def f_le_def)
    have "f_le (hist ! i) (hist ! (i + 1))" "hist ! i \<noteq> MInf"
      using length_histD [OF hist, of i] i1 by auto
    then obtain x where "get_len_position length2 (hist ! i) (hist ! (i + 1)) = Fin x" "x \<le> 1"
      "f_le (hist ! i) length2 \<longrightarrow> 0 \<le> x"
      using get_len_position_bounds [OF _ _ up _ l2(1), of "hist ! i"] False by blast
    then show ?thesis using False ip i1 by (intro exI [of _ x]) auto
  qed
  then obtain x where x: "(if i \<ge> length hist - 1 then Fin 0
       else if f_eq (hist ! i) (hist ! (i + 1)) then Fin 0
       else get_len_position length2 (hist ! i) (hist ! (i + 1))) = Fin x"
    "real i + x \<le> real (length hist - 1)" "p > 0 \<longrightarrow> 0 \<le> x" by blast
  show ?thesis
    unfolding x(1) n1(1) using x(2,3) n1(2) by (auto simp: divide_le_eq_1 intro: divide_nonneg_nonneg)
qed

lemma calc_length_hist_frac_prob:
  assumes hist: "length_hist hist" and le: "f_le length1 length2" and l1: "length1 \<noteq> MInf"
  shows "is_prob (calc_length_hist_frac hist length1 length2 equal)"
proof -
  have nn: "length1 \<noteq> NaN" "length2 \<noteq> NaN" "length2 \<noteq> MInf"
    using le l1 by (cases length1; cases length2; auto simp: f_le_def)+
  define i0 where "i0 = length_hist_bsearch hist length1 equal"
  show ?thesis
  proof (cases "f_lt length2 (Fin 0) \<or> isinf length2 \<and> equal \<or> i0 \<ge> int (length hist) - 1")
    case True
    then show ?thesis by (auto simp: calc_length_hist_frac_def i0_def Let_def)
  next
    case False
    then obtain k pos p where first: "(if i0 < 0 then (0, Fin 0) else (nat i0, get_len_position length1 (hist ! nat i0) (hist ! (nat i0 + 1)))) = (k, Fin pos)"
      "f_div (f_add (Fin (real k)) (Fin pos)) (Fin (of_int (int (length hist) - 1))) = Fin p"
      "0 \<le> p" "p \<le> 1" "k < length hist - 1" "f_le length1 (hist ! (k + 1))" "p = 0 \<or> f_le (hist ! k) length1"
      using first_bin [OF hist i0_def [symmetric] _ l1 nn(1)] by auto
    show ?thesis
    proof (cases "f_eq length2 length1")
      case True
      then show ?thesis
        using False first by (simp add: calc_length_hist_frac_def Let_def i0_def [symmetric])
    next
      case neq: False
      then obtain a where a: "length1 = Fin a" and lt: "f_lt (Fin a) length2"
        using le l1 by (cases length1; cases length2) (auto simp: f_le_def)
      have "area_inv hist length2 a k a p 0"
        using first le a f_le_trans [of "hist ! k" length1 length2] by (auto simp: area_inv_def)
      then obtain i b q s where
        loop: "length_area_loop hist length2 equal k (Fin a) (Fin p) (Fin 0) = (i, Fin b, Fin q, Fin s)"
        and inv: "area_inv hist length2 a i b q s"
        and stop: "i < length hist - 1 \<longrightarrow> \<not> len_below length2 equal (hist ! (i + 1))"
        using length_area_loop_inv [OF hist, of length2 a k a p 0 equal] False by blast
      obtain q' where q': "f_div (f_add (Fin (real i))
          (if i \<ge> length hist - 1 then Fin 0
           else if f_eq (hist ! i) (hist ! (i + 1)) then Fin 0
           else get_len_position length2 (hist ! i) (hist ! (i + 1)))) (Fin (of_int (int (length hist) - 1))) = Fin q'"
        "q' \<le> 1" "q > 0 \<longrightarrow> 0 \<le> q'"
        using last_position [OF hist inv stop nn(3,2)] by blast
      have "calc_length_hist_frac hist length1 length2 equal =
        (let area = (if f_lt (Fin 0) (Fin q) \<or> f_lt (Fin 0) (Fin q')
             then f_add (Fin s) (f_mul (f_mul (Fin 0.5) (f_add (Fin q') (Fin q))) (f_sub length2 (Fin b))) else Fin s)
         in if isinf area \<and> isinf length2 then Fin 0.5 else f_div area (f_sub length2 (Fin a)))"
        unfolding calc_length_hist_frac_def Let_def i0_def [symmetric] first(1)
        unfolding a using False neq [unfolded a] by (simp only: if_False first(2) loop prod.case q'(1) de_Morgan_disj simp_thms)
      then show ?thesis
        using last_bin_prob [OF inv q'(2) _ lt refl] q'(3) by (simp only: Let_def)
    qed
  qed
qed

end
