(* ===== verification/Range_Estimates.thy ===== *)
theory Range_Estimates
  imports Range_Selfuncs
begin

text \<open>
  The estimates of \<open>rangetypes_selfuncs.c\<close> are probabilities: the contract of a type's
  difference function, the estimates for containment, the statistics that
  \<open>compute_range_stats\<close> leaves for the planner, \<open>rangesel\<close> as a whole, and the estimate of
  \<open>rangerestsel\<close> for overlapping ranges.
\<close>

section \<open>Distances\<close>

text \<open>A lower bound whose value is not above that of \<open>u\<close>.\<close>

definition value_le :: "'a TypeCacheEntry \<Rightarrow> 'a RangeBound \<Rightarrow> 'a RangeBound \<Rightarrow> bool" where
  "value_le tc b u \<longleftrightarrow> rb_lower b \<and> (rb_infinite u \<longrightarrow> \<not> rb_lower u) \<and>
     (rb_infinite b \<or> rb_infinite u \<or> cle (rng_cmp_proc tc) (rb_val b) (rb_val u))"

text \<open>
  What the estimators rely on of a type's \<open>subdiff\<close> function: the difference of ordered
  values is finite and not negative, and grows as the smaller value decreases.
\<close>

locale range_subdiff = range_opclass tc for tc :: "('a::zero) TypeCacheEntry" +
  assumes subdiff_nonneg:
    "rng_subdiff tc = Some d \<Longrightarrow> cle (rng_cmp_proc tc) x y \<Longrightarrow> \<exists>r. d y x = Fin r \<and> 0 \<le> r"
    and subdiff_mono:
    "rng_subdiff tc = Some d \<Longrightarrow> cle (rng_cmp_proc tc) x y \<Longrightarrow> cle (rng_cmp_proc tc) y z \<Longrightarrow>
     f_le (d z y) (d z x)"
begin

lemma get_distance_nonneg:
  assumes "value_le tc b u"
  shows "f_le (Fin 0) (get_distance tc b u)" and "get_distance tc b u \<noteq> MInf"
proof -
  have "\<exists>r \<ge> 0. get_distance tc b u = Fin r \<or> get_distance tc b u = PInf"
    using assms subdiff_nonneg [of _ "rb_val b" "rb_val u"]
    by (fastforce simp: get_distance_def value_le_def Let_def split: option.splits)
  then show "f_le (Fin 0) (get_distance tc b u)" "get_distance tc b u \<noteq> MInf"
    by (auto simp: f_le_def)
qed

lemma get_distance_mono:
  assumes "value_le tc b1 u" and "value_le tc b2 u" and "cle (range_cmp_bounds tc) b1 b2"
  shows "f_le (get_distance tc b2 u) (get_distance tc b1 u)"
proof (cases "rb_infinite b1 \<or> rb_infinite u")
  case True
  then have "get_distance tc b1 u = PInf"
    using assms(1) by (auto simp: get_distance_def value_le_def)
  then show ?thesis
    using get_distance_nonneg [OF assms(2)] by (cases "get_distance tc b2 u") (auto simp: f_le_def)
next
  case False
  have fin2: "\<not> rb_infinite b2" and le: "cle (rng_cmp_proc tc) (rb_val b1) (rb_val b2)"
    using assms False by (auto simp: cmp_bounds_le_iff bnd_cls_def value_le_def split: if_splits)
  have le2: "cle (rng_cmp_proc tc) (rb_val b2) (rb_val u)" "cle (rng_cmp_proc tc) (rb_val b1) (rb_val u)"
    using assms False fin2 by (auto simp: value_le_def)
  show ?thesis
  proof (cases "rng_subdiff tc")
    case (Some d)
    obtain r1 r2 where "d (rb_val u) (rb_val b1) = Fin r1" "0 \<le> r1" "d (rb_val u) (rb_val b2) = Fin r2" "0 \<le> r2"
      using subdiff_nonneg [OF Some le2(1)] subdiff_nonneg [OF Some le2(2)] by blast
    then show ?thesis
      using subdiff_mono [OF Some le le2(1)] False fin2 Some by (simp add: get_distance_def)
  qed (use False fin2 in \<open>simp add: get_distance_def\<close>)
qed

lemma frac_step:
  assumes "length_hist lens" and "f_le pd dd" and "pd \<noteq> MInf" and "0 \<le> w" and "w \<le> 1" and "2 \<le> n"
    and "0 \<le> s" and "s \<le> real (n - 1 - Suc i) / real (n - 1)" and "Suc i \<le> n - 1"
  shows "\<exists>s'. f_add (Fin s) (f_div (f_mul (calc_length_hist_frac lens pd dd e) (Fin w)) (Fin (of_int (int n - 1)))) = Fin s' \<and>
      0 \<le> s' \<and> s' \<le> real (n - 1 - i) / real (n - 1)"
    and "\<exists>s'. f_add (Fin s) (f_div (f_mul (f_sub (Fin 1) (calc_length_hist_frac lens pd dd e)) (Fin w)) (Fin (of_int (int n - 1)))) = Fin s' \<and>
      0 \<le> s' \<and> s' \<le> real (n - 1 - i) / real (n - 1)"
proof -
  obtain f where f: "calc_length_hist_frac lens pd dd e = Fin f" "0 \<le> f" "f \<le> 1"
    using calc_length_hist_frac_prob [OF assms(1-3), of e] by (auto simp: is_prob_def)
  have n1: "of_int (int n - 1) = real (n - 1)" "0 < real (n - 1)" using assms(6) by auto
  have g: "\<exists>s'. f_add (Fin s) (f_div (f_mul (Fin g) (Fin w)) (Fin (of_int (int n - 1)))) = Fin s' \<and>
      0 \<le> s' \<and> s' \<le> real (n - 1 - i) / real (n - 1)" if "0 \<le> g" "g \<le> 1" for g
  proof -
    have "g * w \<le> 1" using that assms(4,5) by (simp add: mult_le_one)
    then have "g * w / real (n - 1) \<le> 1 / real (n - 1)" using n1(2) by (intro divide_right_mono) auto
    moreover have "real (n - 1 - i) / real (n - 1) = real (n - 1 - Suc i) / real (n - 1) + 1 / real (n - 1)"
      using assms(9) by (simp add: add_divide_distrib [symmetric] of_nat_diff)
    ultimately have "s + g * w / real (n - 1) \<le> real (n - 1 - i) / real (n - 1)" using assms(8) by linarith
    moreover have "0 \<le> s + g * w / real (n - 1)" using assms(4,7) that by simp
    ultimately show ?thesis unfolding n1(1) using n1(2) by simp
  qed
  show "\<exists>s'. f_add (Fin s) (f_div (f_mul (calc_length_hist_frac lens pd dd e) (Fin w)) (Fin (of_int (int n - 1)))) = Fin s' \<and>
      0 \<le> s' \<and> s' \<le> real (n - 1 - i) / real (n - 1)"
    unfolding f(1) by (rule g [OF f(2,3)])
  show "\<exists>s'. f_add (Fin s) (f_div (f_mul (f_sub (Fin 1) (calc_length_hist_frac lens pd dd e)) (Fin w)) (Fin (of_int (int n - 1)))) = Fin s' \<and>
      0 \<le> s' \<and> s' \<le> real (n - 1 - i) / real (n - 1)"
    unfolding f(1) f_sub_Fin by (rule g) (use f in auto)
qed

lemma contains_loop_prob:
  assumes lens: "length_hist lens" and sorted: "sorted_wrt (cle (range_cmp_bounds tc)) hist"
    and n: "2 \<le> length hist"
    and "i \<le> length hist - 1" and "0 \<le> w" and "w \<le> 1" and "0 \<le> s"
    and "s \<le> real (length hist - 1 - i) / real (length hist - 1)"
    and val: "\<And>j. j < i \<Longrightarrow> value_le tc (hist ! j) upper"
    and "i > 0 \<Longrightarrow> f_le pd (get_distance tc (hist ! (i - 1)) upper)" and "pd \<noteq> MInf"
  shows "is_prob (contains_loop tc upper hist lens i pd (Fin w) (Fin s))"
  using assms(4-)
proof (induction i arbitrary: pd w s)
  case 0
  have "0 < real (length hist - 1)" using n by simp
  then show ?case using 0 by simp
next
  case (Suc i)
  let ?d = "get_distance tc (hist ! i) upper"
  note val = Suc.prems(6)
  obtain s' where s': "f_add (Fin s) (f_div (f_mul (f_sub (Fin 1) (calc_length_hist_frac lens pd ?d False)) (Fin w))
      (Fin (of_int (int (length hist) - 1)))) = Fin s'" "0 \<le> s'" "s' \<le> real (length hist - 1 - i) / real (length hist - 1)"
    using frac_step(2) [OF lens _ Suc.prems(8,2,3) n Suc.prems(4,5,1), of ?d False] Suc.prems(7) by auto
  have "is_prob (contains_loop tc upper hist lens i ?d (Fin 1) (Fin s'))"
  proof (rule Suc.IH)
    show "value_le tc (hist ! j) upper" if "j < i" for j using val that by simp
    show "?d \<noteq> MInf" using get_distance_nonneg(2) [OF val] by simp
    show "f_le ?d (get_distance tc (hist ! (i - 1)) upper)" if "i > 0"
      using get_distance_mono [OF val val, of "i - 1" i] bnd.sorted_wrt_nth [OF sorted, of "i - 1" i] that Suc.prems(1)
      by simp
  qed (use Suc.prems s' in auto)
  then show ?case using s'(1) by (simp add: Let_def)
qed

lemma contained_loop_prob:
  assumes lens: "length_hist lens" and sorted: "sorted_wrt (cle (range_cmp_bounds tc)) hist"
    and n: "2 \<le> length hist" and low: "value_le tc lower upper"
    and "i \<le> length hist - 1" and "0 \<le> w" and "w \<le> 1" and "0 \<le> s"
    and "s \<le> real (length hist - 1 - i) / real (length hist - 1)"
    and val: "\<And>j. j < i \<Longrightarrow> value_le tc (hist ! j) upper"
    and "i > 0 \<Longrightarrow> f_le pd (get_distance tc (hist ! (i - 1)) upper)"
    and "f_le pd (get_distance tc lower upper)" and "pd \<noteq> MInf"
  shows "is_prob (contained_loop tc lower upper hist lens i pd (Fin w) (Fin s))"
  using assms(5-)
proof (induction i arbitrary: pd w s)
  case 0
  have "0 < real (length hist - 1)" using n by simp
  then show ?case using 0 by simp
next
  case (Suc i)
  let ?frac = "\<lambda>dd w. f_add (Fin s) (f_div (f_mul (calc_length_hist_frac lens pd dd True) (Fin w))
      (Fin (of_int (int (length hist) - 1))))"
  note val = Suc.prems(6) and step = frac_step(1) [OF lens _ Suc.prems(9) _ _ n Suc.prems(4,5,1), where e = True]
  show ?case
  proof (cases "range_cmp_bounds tc (hist ! i) lower < 0")
    case True
    obtain p where p: "get_position tc lower (hist ! i) (hist ! (i + 1)) = Fin p" "0 \<le> p"
      using get_position_prob [of tc lower] by (auto simp: is_prob_def)
    let ?w = "if w - p < 0 then 0 else w - p"
    have "contained_loop tc lower upper hist lens (Suc i) pd (Fin w) (Fin s) = ?frac (get_distance tc lower upper) ?w"
      using True p by (simp add: Let_def if_distrib [of Fin])
    moreover have "\<exists>s'. ?frac (get_distance tc lower upper) ?w = Fin s' \<and> 0 \<le> s' \<and>
        s' \<le> real (length hist - 1 - i) / real (length hist - 1)"
      by (rule step) (use Suc.prems p in auto)
    moreover have "real (length hist - 1 - i) / real (length hist - 1) \<le> 1"
      using n by (simp add: divide_le_eq_1) linarith
    ultimately show ?thesis by force
  next
    case False
    let ?d = "get_distance tc (hist ! i) upper"
    have le: "cle (range_cmp_bounds tc) lower (hist ! i)" using False by (simp add: bnd.neg_iff)
    obtain s' where s': "?frac ?d w = Fin s'" "0 \<le> s'" "s' \<le> real (length hist - 1 - i) / real (length hist - 1)"
      using step [of ?d w] Suc.prems by auto
    have "is_prob (contained_loop tc lower upper hist lens i ?d (Fin 1) (Fin s'))"
    proof (rule Suc.IH)
      show "value_le tc (hist ! j) upper" if "j < i" for j using val that by simp
      show "?d \<noteq> MInf" using get_distance_nonneg(2) [OF val] by simp
      show "f_le ?d (get_distance tc (hist ! (i - 1)) upper)" if "i > 0"
        using get_distance_mono [OF val val, of "i - 1" i] bnd.sorted_wrt_nth [OF sorted, of "i - 1" i] that Suc.prems(1)
        by simp
      show "f_le ?d (get_distance tc lower upper)" using get_distance_mono [OF low val le] by simp
    qed (use Suc.prems s' in auto)
    then show ?thesis using s'(1) False by (simp add: Let_def)
  qed
qed

lemma contains_prob:
  assumes lens: "length_hist lens" and sorted: "sorted_wrt (cle (range_cmp_bounds tc)) hist"
    and n: "2 \<le> length hist" and hl: "\<And>b. b \<in> set hist \<Longrightarrow> rb_lower b"
    and lu: "rb_lower lower" "\<not> rb_lower upper" "cle (range_cmp_bounds tc) lower upper"
  shows "is_prob (calc_hist_selectivity_contains tc lower upper hist lens)"
proof (cases "rbound_bsearch tc lower hist True < 0")
  case True
  then show ?thesis by (simp add: calc_hist_selectivity_contains_def)
next
  case False
  define k where "k = nat (min (rbound_bsearch tc lower hist True) (int (length hist) - 2))"
  have k: "Suc k \<le> length hist - 1" using n by (simp add: k_def)
  obtain w where w: "get_position tc lower (hist ! k) (hist ! (k + 1)) = Fin w" "0 \<le> w" "w \<le> 1"
    using get_position_prob [of tc lower] by (auto simp: is_prob_def)
  have low: "cle (range_cmp_bounds tc) (hist ! j) lower" if "j < Suc k" for j
    using rbound_bsearch_spec [OF sorted, of lower True] that False k
    by (auto simp: k_def bound_below_def)
  have vl: "value_le tc lower upper" and val: "value_le tc (hist ! j) upper" if "j < Suc k" for j
    using lu low [OF that] bnd.cle_trans [OF low [OF that] lu(3)] hl [OF nth_mem, of j] k that
    by (auto simp: value_le_def cmp_bounds_le_iff bnd_cls_def split: if_splits)
  have "is_prob (contains_loop tc upper hist lens (Suc k) (get_distance tc lower upper) (Fin w) (Fin 0))"
    by (rule contains_loop_prob [OF lens sorted n k w(2,3)])
      (use val get_distance_mono [OF val vl low] get_distance_nonneg(2) [OF vl] in auto)
  then show ?thesis
    using False w(1) by (simp add: calc_hist_selectivity_contains_def Let_def k_def [symmetric] del: contains_loop.simps)
qed

lemma contained_prob:
  assumes lens: "length_hist lens" and sorted: "sorted_wrt (cle (range_cmp_bounds tc)) hist"
    and n: "2 \<le> length hist" and hl: "\<And>b. b \<in> set hist \<Longrightarrow> rb_lower b"
    and lu: "rb_lower lower" "\<not> rb_lower upper" "cle (range_cmp_bounds tc) lower upper"
    and fin: "\<not> rb_infinite lower" "\<not> rb_infinite upper"
  shows "is_prob (calc_hist_selectivity_contained tc lower upper hist lens)"
proof -
  define up where "up = upper\<lparr>rb_inclusive := \<not> rb_inclusive upper, rb_lower := True\<rparr>"
  show ?thesis
  proof (cases "rbound_bsearch tc up hist False < 0")
    case True
    then show ?thesis by (simp add: calc_hist_selectivity_contained_def up_def Let_def)
  next
    case False
    define k where "k = nat (min (rbound_bsearch tc up hist False) (int (length hist) - 2))"
    have k: "Suc k \<le> length hist - 1" using n by (simp add: k_def)
    obtain w where w: "get_position tc up (hist ! k) (hist ! (k + 1)) = Fin w" "0 \<le> w" "w \<le> 1"
      using get_position_prob [of tc up] by (auto simp: is_prob_def)
    have upf: "\<not> rb_infinite up" "rb_lower up" "rb_val up = rb_val upper" using fin by (simp_all add: up_def)
    have low: "cle (range_cmp_bounds tc) (hist ! j) up" if "j < Suc k" for j
    proof -
      have j: "j < length hist" "int j \<le> rbound_bsearch tc up hist False"
        using that k False by (auto simp: k_def)
      then have "bound_below tc up False (hist ! j)"
        using rbound_bsearch_spec [OF sorted, of up False] by blast
      then show ?thesis
        using bnd.cle_total [of up "hist ! j"] by (simp add: bound_below_def)
    qed
    have val: "value_le tc (hist ! j) up" if "j < Suc k" for j
      using low [OF that] hl [OF nth_mem, of j] k that upf
      by (auto simp: value_le_def cmp_bounds_le_iff bnd_cls_def split: if_splits)
    have vl: "value_le tc lower up"
      using lu fin upf by (auto simp: value_le_def cmp_bounds_le_iff bnd_cls_def)
    have "is_prob (contained_loop tc lower up hist lens (Suc k) (Fin 0) (Fin w) (Fin 0))"
      by (rule contained_loop_prob [OF lens sorted n vl k w(2,3)])
        (use val get_distance_nonneg(1) [OF val] get_distance_nonneg(1) [OF vl] in auto)
    then show ?thesis
      using False w(1) by (simp add: calc_hist_selectivity_contained_def Let_def k_def [symmetric] up_def [symmetric] del: contained_loop.simps)
  qed
qed

end

section \<open>Statistics the estimators can use\<close>

lemma is_prob_code [code]: "is_prob p = (case p of Fin x \<Rightarrow> 0 \<le> x \<and> x \<le> 1 | _ \<Rightarrow> False)"
  by (cases p) (auto simp: is_prob_def)

definition bounds_slot_ok :: "Datum TypeCacheEntry \<Rightarrow> stats_slot \<Rightarrow> bool" where
  "bounds_slot_ok tc s =
     (case stavals s of
        RangeValues rs \<Rightarrow>
          (case deserialize_hist tc rs of
             Inr bs \<Rightarrow> sorted_wrt (cle (range_cmp_bounds tc)) (map fst bs) \<and>
                       sorted_wrt (cle (range_cmp_bounds tc)) (map snd bs)
           | Inl _ \<Rightarrow> False)
      | Float8Values _ \<Rightarrow> False)"

definition length_slot_ok :: "stats_slot \<Rightarrow> bool" where
  "length_slot_ok s =
     (case (stavals s, stanumbers s) of
        (Float8Values lens, [e]) \<Rightarrow> is_prob e \<and> (length lens < 2 \<or> length_hist lens)
      | _ \<Rightarrow> False)"

definition stats_ok :: "Datum TypeCacheEntry \<Rightarrow> pg_statistic \<Rightarrow> bool" where
  "stats_ok tc st \<longleftrightarrow> is_prob (st_nullfrac st) \<and>
     list_all (\<lambda>s. (stakind s = STATISTIC_KIND_BOUNDS_HISTOGRAM \<longrightarrow> bounds_slot_ok tc s) \<and>
                   (stakind s = STATISTIC_KIND_RANGE_LENGTH_HISTOGRAM \<longrightarrow> length_slot_ok s)) (st_slots st)"

lemma slot_found:
  assumes "get_attstatsslot st k = Some s"
  shows "s \<in> set (st_slots st)" and "stakind s = k"
  using assms by (auto simp: get_attstatsslot_def find_Some_iff)

lemma stats_okD:
  assumes "stats_ok tc st"
  shows "is_prob (st_nullfrac st)"
    and "get_attstatsslot st STATISTIC_KIND_BOUNDS_HISTOGRAM = Some s \<Longrightarrow> bounds_slot_ok tc s"
    and "get_attstatsslot st STATISTIC_KIND_RANGE_LENGTH_HISTOGRAM = Some s \<Longrightarrow> length_slot_ok s"
  using assms by (auto simp: stats_ok_def list_all_iff dest: slot_found)

lemma length_slot_okE:
  assumes "length_slot_ok s"
  obtains lens e where "stavals s = Float8Values lens" and "stanumbers s = [e]" and "is_prob e"
    and "length lens < 2 \<or> length_hist lens"
proof (cases "stavals s")
  case (Float8Values lens)
  show ?thesis
  proof (cases "stanumbers s")
    case (Cons e es)
    then show ?thesis using assms Float8Values that by (cases es) (auto simp: length_slot_ok_def)
  qed (use assms Float8Values in \<open>simp add: length_slot_ok_def\<close>)
qed (use assms in \<open>simp add: length_slot_ok_def\<close>)

lemma deserialize_hist_fields:
  "deserialize_hist tc rs = Inr bs \<Longrightarrow>
   length bs = length rs \<and> (\<forall>(l, u) \<in> set bs. rb_lower l \<and> \<not> rb_lower u)"
proof (induction rs arbitrary: bs)
  case (Cons r rs)
  obtain l u e where d: "range_deserialize tc r = (l, u, e)" by (metis prod_cases3)
  then show ?case
    using Cons deserialize_fields(1,2) [OF d] by (fastforce split: if_splits)
qed simp

section \<open>Every estimate is a probability\<close>

definition range_operators :: "Oid set" where
  "range_operators = {OID_RANGE_LESS_OP, OID_RANGE_LESS_EQUAL_OP, OID_RANGE_GREATER_EQUAL_OP,
     OID_RANGE_GREATER_OP, OID_RANGE_OVERLAP_OP, OID_RANGE_CONTAINS_OP, OID_RANGE_CONTAINED_OP,
     OID_RANGE_LEFT_OP, OID_RANGE_RIGHT_OP, OID_RANGE_OVERLAPS_LEFT_OP, OID_RANGE_OVERLAPS_RIGHT_OP}"

lemma default_prob: "is_prob (default_range_selectivity operator)"
  by (simp add: default_range_selectivity_def DEFAULT_INEQ_SEL_def DEFAULT_RANGE_INEQ_SEL_def)

lemma is_prob_compl: "is_prob p \<Longrightarrow> is_prob (f_sub (Fin 1) p)"
  by (auto simp: is_prob_def)

lemma is_prob_mul: "is_prob p \<Longrightarrow> is_prob q \<Longrightarrow> is_prob (f_mul p q)"
  by (auto simp: is_prob_def mult_le_one)

lemma scalar_prob:
  assumes "range_opclass tc" and "sorted_wrt (cle (range_cmp_bounds tc)) hist" and "2 \<le> length hist"
  shows "is_prob (calc_hist_selectivity_scalar tc v hist equal)"
proof -
  define k where "k = length (filter (bound_below tc v equal) hist)"
  from scalar_selectivity [OF assms k_def] obtain x where
    x: "calc_hist_selectivity_scalar tc v hist equal = Fin x" "real (k - 1) / real (length hist - 1) \<le> x"
    "x \<le> real (min k (length hist - 1)) / real (length hist - 1)" by blast
  have "0 \<le> real (k - 1) / real (length hist - 1)" by simp
  moreover have "real (min k (length hist - 1)) / real (length hist - 1) \<le> 1"
    using assms(3) by (simp add: divide_le_eq_1) linarith
  ultimately show ?thesis using x(2,3) unfolding x(1) is_prob_Fin by (intro conjI) linarith+
qed

context range_subdiff
begin

lemma hist_operator_prob:
  assumes "operator \<in> range_operators \<or> operator = OID_RANGE_CONTAINS_ELEM_OP"
    and sl: "sorted_wrt (cle (range_cmp_bounds tc)) hl" "2 \<le> length hl" "\<And>b. b \<in> set hl \<Longrightarrow> rb_lower b"
    and su: "sorted_wrt (cle (range_cmp_bounds tc)) hu" "2 \<le> length hu"
    and lens: "operator = OID_RANGE_CONTAINS_OP \<or> operator = OID_RANGE_CONTAINED_OP \<Longrightarrow> length_hist lens"
    and c: "rb_lower l" "\<not> rb_lower u" "cle (range_cmp_bounds tc) l u"
  shows "\<exists>p. hist_operator_selectivity tc operator l u hl hu lens = Inr p \<and> (is_prob p \<or> f_lt p (Fin 0))"
proof -
  note S = scalar_prob [OF range_opclass_axioms sl(1,2)] scalar_prob [OF range_opclass_axioms su]
  have overlap: "is_prob p \<or> f_lt p (Fin 0)"
    if "p = f_sub (Fin 1) (f_add a (f_sub (Fin 1) b))" "is_prob a" "is_prob b" for p a b
    using that by (auto simp: is_prob_def)
  note simps = hist_operator_selectivity_def oid_defs
  consider "operator = OID_RANGE_CONTAINS_OP" | "operator = OID_RANGE_CONTAINED_OP"
    | "operator \<noteq> OID_RANGE_CONTAINS_OP" "operator \<noteq> OID_RANGE_CONTAINED_OP" by blast
  then show ?thesis
  proof cases
    case 1
    then show ?thesis
      using contains_prob [OF lens sl(1,2,3) c] by (simp add: simps)
  next
    case 2
    then have "is_prob (calc_hist_selectivity_contained tc l u hl lens)"
      if "\<not> rb_infinite l" "\<not> rb_infinite u"
      using contained_prob [OF lens sl(1,2,3) c that] by simp
    then show ?thesis
      using 2 S is_prob_compl by (simp add: simps)
  next
    case 3
    then show ?thesis
      using assms(1) unfolding range_operators_def
      by (elim disjE insertE emptyE)
        (simp_all add: simps S is_prob_compl [OF S(1)] overlap [OF refl S(2) S(1)])
  qed
qed

end

lemma calc_hist_selectivity_prob:
  assumes sub: "range_subdiff tc"
    and op: "operator \<in> range_operators \<or> operator = OID_RANGE_CONTAINS_ELEM_OP"
    and st: "\<And>st. statsTuple vardata = Some st \<Longrightarrow> stats_ok tc st"
    and c: "range_wf tc constval" "\<not> RangeIsEmpty constval"
  shows "\<exists>p. calc_hist_selectivity cat tc vardata constval operator = Inr p \<and> (is_prob p \<or> f_lt p (Fin 0))"
proof -
  note opc = range_subdiff.axioms(1) [OF sub]
  obtain l u where d: "range_deserialize tc constval = (l, u, False)"
    using c(2) deserialize_fields(3) by (metis prod_cases3)
  note lu = deserialize_fields(1,2) [OF d] range_opclass.wf_le [OF opc c(1) d]
  have est: "\<exists>p. hist_operator_selectivity tc operator l u (map fst bs) (map snd bs) lens = Inr p \<and>
      (is_prob p \<or> f_lt p (Fin 0))"
    if "deserialize_hist tc rs = Inr bs" "2 \<le> length rs"
      "sorted_wrt (cle (range_cmp_bounds tc)) (map fst bs)" "sorted_wrt (cle (range_cmp_bounds tc)) (map snd bs)"
      "operator = OID_RANGE_CONTAINS_OP \<or> operator = OID_RANGE_CONTAINED_OP \<Longrightarrow> length_hist lens" for rs bs lens
    by (rule range_subdiff.hist_operator_prob [OF sub op that(3) _ _ that(4) _ that(5) lu])
      (use deserialize_hist_fields [OF that(1)] that(2) in auto)
  show ?thesis
  proof (cases "Option.bind (statsTuple vardata) (\<lambda>st. get_attstatsslot st STATISTIC_KIND_BOUNDS_HISTOGRAM)")
    case None
    then show ?thesis by (simp add: calc_hist_selectivity_def)
  next
    case (Some hslot)
    then obtain st0 where st0: "statsTuple vardata = Some st0"
      "get_attstatsslot st0 STATISTIC_KIND_BOUNDS_HISTOGRAM = Some hslot" by (auto simp: bind_eq_Some_conv)
    note ok = st [OF st0(1)]
    obtain rs bs where b: "stavals hslot = RangeValues rs" "deserialize_hist tc rs = Inr bs"
      "sorted_wrt (cle (range_cmp_bounds tc)) (map fst bs)" "sorted_wrt (cle (range_cmp_bounds tc)) (map snd bs)"
      using stats_okD(2) [OF ok st0(2)] by (auto simp: bounds_slot_ok_def split: stavalues.splits sum.splits)
    have lens: "length_slot_ok lslot"
      if "get_attstatsslot st0 STATISTIC_KIND_RANGE_LENGTH_HISTOGRAM = Some lslot" for lslot
      using stats_okD(3) [OF ok that] .
    note simps = calc_hist_selectivity_def st0 slot_ranges_def b(1,2) d Let_def
    show ?thesis
    proof (cases "2 \<le> length rs \<and> (operator = OID_RANGE_CONTAINS_OP \<or> operator = OID_RANGE_CONTAINED_OP)")
      case False
      then show ?thesis
        using est [OF b(2) _ b(3,4), of "[]"] by (simp add: simps)
    next
      case True
      show ?thesis
      proof (cases "get_attstatsslot st0 STATISTIC_KIND_RANGE_LENGTH_HISTOGRAM")
        case None
        then show ?thesis using True by (simp add: simps)
      next
        case (Some lslot)
        then obtain vs where "stavals lslot = Float8Values vs" "length vs < 2 \<or> length_hist vs"
          using length_slot_okE [OF lens [OF Some]] by blast
        then show ?thesis
          using True Some est [OF b(2) _ b(3,4), of vs]
          by (cases "length vs < 2") (auto simp: simps slot_float8s_def)
      qed
    qed
  qed
qed

lemma stats_fractions_prob:
  assumes "\<And>st. statsTuple vardata = Some st \<Longrightarrow> stats_ok tc st"
  shows "\<exists>n e. stats_fractions vardata = Inr (n, e) \<and> is_prob n \<and> is_prob e"
proof (cases "statsTuple vardata")
  case None
  then show ?thesis by (simp add: stats_fractions_def)
next
  case (Some st)
  note D = stats_okD [OF assms [OF Some]]
  show ?thesis
  proof (cases "get_attstatsslot st STATISTIC_KIND_RANGE_LENGTH_HISTOGRAM")
    case None
    then show ?thesis using D(1) Some by (simp add: stats_fractions_def)
  next
    case slot: (Some s)
    then obtain e where "stanumbers s = [e]" "is_prob e"
      using length_slot_okE [OF D(3) [OF slot]] by blast
    then show ?thesis using D(1) Some slot by (simp add: stats_fractions_def)
  qed
qed

lemma empty_const_fin:
  "operator \<in> range_operators \<Longrightarrow> \<exists>x. empty_const_selectivity operator (Fin e) = Inr (Fin x)"
  unfolding range_operators_def
  by (elim insertE emptyE) (simp_all add: empty_const_selectivity_def oid_defs)

lemma calc_rangesel_prob:
  assumes sub: "range_subdiff tc"
    and op: "operator \<in> range_operators \<or> operator = OID_RANGE_CONTAINS_ELEM_OP \<and> \<not> RangeIsEmpty constval"
    and st: "\<And>st. statsTuple vardata = Some st \<Longrightarrow> stats_ok tc st"
    and c: "range_wf tc constval"
  shows "\<exists>p. calc_rangesel cat tc vardata constval operator = Inr p \<and> is_prob p"
proof -
  obtain n e where ne: "stats_fractions vardata = Inr (Fin n, Fin e)"
    using stats_fractions_prob [of vardata tc, OF st] by (auto simp: is_prob_def)
  have clamp: "is_prob (CLAMP_PROBABILITY (Fin x))" for x by (rule CLAMP_PROBABILITY_prob) simp
  show ?thesis
  proof (cases "RangeIsEmpty constval")
    case True
    then obtain x where "empty_const_selectivity operator (Fin e) = Inr (Fin x)"
      using empty_const_fin op by blast
    then show ?thesis
      using True by (simp add: calc_rangesel_def ne clamp)
  next
    case False
    then obtain p where p: "calc_hist_selectivity cat tc vardata constval operator = Inr p" "is_prob p \<or> f_lt p (Fin 0)"
      using calc_hist_selectivity_prob [OF sub _ st c, where cat = cat and operator = operator] op by blast
    then obtain h where H: "(if f_lt p (Fin 0) then default_range_selectivity operator else p) = Fin h"
      using default_prob [of operator] by (auto simp: is_prob_def)
    show ?thesis
      using False by (simp add: calc_rangesel_def ne p(1) H clamp Let_def)
  qed
qed

section \<open>From ANALYZE to the planner\<close>

text \<open>The row of \<open>pg_statistic\<close> that the computed statistics of a column are stored in.\<close>

definition update_attstats :: "VacAttrStats \<Rightarrow> pg_statistic option" where
  "update_attstats stats =
     (if \<not> stats_valid stats then None
      else Some \<lparr>st_nullfrac = stanullfrac stats, st_slots = slots stats\<rparr>)"

text \<open>Sorting lengths: \<open>float8_qsort_cmp\<close> is a preorder as long as there is no NaN.\<close>

definition nan_last_cmp :: "float8 \<Rightarrow> float8 \<Rightarrow> int" where
  "nan_last_cmp x y = (if isnan x then if isnan y then 0 else 1 else if isnan y then -1 else float8_qsort_cmp x y)"

lemma nan_last_preorder: "cmp_preorder nan_last_cmp"
proof
  show "nan_last_cmp a b < 0 \<longleftrightarrow> 0 < nan_last_cmp b a" for a b
    by (cases a; cases b) (auto simp: nan_last_cmp_def float8_qsort_cmp_def)
  show "nan_last_cmp x y \<le> 0 \<Longrightarrow> nan_last_cmp y z \<le> 0 \<Longrightarrow> nan_last_cmp x z \<le> 0" for x y z
    by (cases x; cases y; cases z) (auto simp: nan_last_cmp_def float8_qsort_cmp_def split: if_splits)
qed

lemma cle_nan_last: "\<not> isnan x \<Longrightarrow> \<not> isnan y \<Longrightarrow> cle nan_last_cmp x y \<longleftrightarrow> f_le x y"
  by (cases x; cases y) (auto simp: cle_def nan_last_cmp_def float8_qsort_cmp_def f_le_def)

lemma float8_qsort_sorted:
  assumes "\<And>x. x \<in> set xs \<Longrightarrow> \<not> isnan x"
  shows "sorted_wrt f_le (qsort_arg float8_qsort_cmp xs)"
proof -
  have "cmp_agree (set xs) float8_qsort_cmp nan_last_cmp"
    using assms by (auto simp: cmp_agree_def nan_last_cmp_def)
  from cmp_preorder.sorted_qsort_arg_agree [OF nan_last_preorder this] show ?thesis
    by (rule sorted_wrt_mono_rel [rotated]) (use assms cle_nan_last in auto)
qed

lemma sampled_length:
  assumes sub: "range_subdiff tc" and v: "valid_bounds tc l u"
  shows "range_length tc l u \<noteq> NaN" and "range_length tc l u \<noteq> MInf"
proof -
  have "cle (rng_cmp_proc tc) (rb_val l) (rb_val u)" if "\<not> rb_infinite l" "\<not> rb_infinite u"
    using v that range_opclass.cmp_bounds_le_iff [OF range_subdiff.axioms(1) [OF sub], of l u]
    by (simp add: valid_bounds_def bnd_cls_def)
  then have "\<exists>x. range_length tc l u = Fin x \<or> range_length tc l u = PInf"
    using range_subdiff.subdiff_nonneg [OF sub] by (fastforce simp: range_length_def split: option.splits)
  then show "range_length tc l u \<noteq> NaN" "range_length tc l u \<noteq> MInf" by auto
qed

lemma length_hist_sampled:
  assumes sub: "range_subdiff tc" and v: "\<And>l u. (l, u) \<in> set bs \<Longrightarrow> valid_bounds tc l u"
    and n: "bs \<noteq> []" and m: "2 \<le> m"
  shows "length_hist (map (\<lambda>i. qsort_arg float8_qsort_cmp (map (\<lambda>(l, u). range_length tc l u) bs)
    ! (i * (length bs - 1) div (m - 1))) [0..<m])"
proof -
  let ?ls = "qsort_arg float8_qsort_cmp (map (\<lambda>(l, u). range_length tc l u) bs)"
  have set: "set ?ls = (\<lambda>(l, u). range_length tc l u) ` set bs" by simp
  have nn: "x \<noteq> NaN" "x \<noteq> MInf" if "x \<in> set ?ls" for x
    using that sampled_length [OF sub v] unfolding set by auto
  have sorted: "sorted_wrt f_le ?ls"
    by (rule float8_qsort_sorted) (use nn set in \<open>fastforce elim: isnan.elims\<close>)
  have pos: "i * (length bs - 1) div (m - 1) < length ?ls" if "i < m" for i
    using position_less [OF m _ that, of "length bs"] n by simp
  have le: "f_le (?ls ! i) (?ls ! j)" if "i \<le> j" "j < length ?ls" for i j
    using that sorted nn [OF nth_mem, of i] by (cases "i = j") (auto simp: sorted_wrt_iff_nth_less)
  have "f_le (?ls ! (i * (length bs - 1) div (m - 1))) (?ls ! (j * (length bs - 1) div (m - 1)))"
    if "i < j" "j < m" for i j
    by (rule le [OF _ pos [OF that(2)]]) (use that in \<open>auto intro!: div_le_mono mult_right_mono\<close>)
  moreover have "?ls ! (i * (length bs - 1) div (m - 1)) \<noteq> MInf" if "i < m" for i
    using nn(2) [OF nth_mem [OF pos [OF that]]] .
  ultimately show ?thesis
    using m by (fastforce simp: length_hist_def sorted_wrt_iff_nth_less dest: sym)
qed

lemma deserialize_hist_repr:
  assumes "\<And>l u. (l, u) \<in> set bs \<Longrightarrow> range_deserialize tc (range_repr tc l u) = (l, u, False)"
  shows "deserialize_hist tc (map (\<lambda>(l, u). range_repr tc l u) bs) = Inr bs"
  using assms by (induction bs) auto

lemma compute_range_stats_ok:
  assumes sub: "range_subdiff tc" and wf: "sample_wf tc rows" and t: "1 \<le> attstattarget stats"
    and init: "\<not> stats_valid stats" "slots stats = []"
    and st: "compute_range_stats oob tc rows stats = Inr st" and row: "update_attstats st = Some row"
  shows "stats_ok tc row"
proof -
  note opc = range_subdiff.axioms(1) [OF sub]
  have wf': "range_wf tc r" if "Some (r, n) \<in> set rows" for r n
    using wf that by (force simp: sample_wf_def list_all_iff)
  define bs where "bs = sampled_bounds tc rows"
  define acc where "acc = sample_loop tc rows"
  define m where "m = hist_size (length bs) (attstattarget stats)"
  have p: "is_prob (Fin (real (null_cnt acc) / real (length rows)))"
    "is_prob (Fin (real (empty_cnt acc) / real (non_null_cnt acc)))"
    using sample_counts [of tc rows] sample_loop_fields(6) [of tc rows]
    by (auto simp: acc_def divide_le_eq_1)
  have valid: "valid_bounds tc l u" if "(l, u) \<in> set bs" for l u
    using sampled_bounds_valid [OF opc wf'] that by (simp add: bs_def)
  show ?thesis
  proof (cases "\<exists>row \<in> set rows. row \<noteq> None")
    case False
    then have "row = None" if "row \<in> set rows" for row using that by blast
    from compute_range_stats_null [OF this] st row init show ?thesis
      by (auto simp: update_attstats_def stats_ok_def split: if_splits)
  next
    case True
    then have bs2: "2 \<le> length bs" "bs \<noteq> []"
      using compute_range_stats_few [of tc rows oob stats] st by (force simp: bs_def not_less)+
    have m2: "2 \<le> m" using bs2(1) t by (auto simp: hist_size_def m_def)
    obtain freq where row: "row = \<lparr>st_nullfrac = Fin (real (null_cnt acc) / real (length rows)),
        st_slots = range_slots tc bs m (empty_cnt acc) (non_null_cnt acc) freq\<rparr>"
      using st row compute_range_stats_eq [OF opc wf' bs_def bs2(1) m_def t acc_def, where oob = oob]
      by (auto simp: update_attstats_def split: if_splits)
    have hb: "valid_bounds tc l u" if "(l, u) \<in> set (hist_bounds tc bs m)" for l u
      by (rule hist_bounds_valid [OF opc m2 bs2(2) valid that])
    have "deserialize_hist tc (map (\<lambda>(l, u). range_repr tc l u) (hist_bounds tc bs m)) = Inr (hist_bounds tc bs m)"
      by (rule deserialize_hist_repr) (rule serialize_valid(2) [OF opc hb])
    then show ?thesis
      using p hist_bounds_sorted [OF opc m2 bs2(2)] length_hist_sampled [OF sub valid bs2(2) m2]
      by (simp add: row stats_ok_def range_slots_def bounds_slot_ok_def length_slot_ok_def
          STATISTIC_KIND_BOUNDS_HISTOGRAM_def STATISTIC_KIND_RANGE_LENGTH_HISTOGRAM_def
          STATISTIC_KIND_FREQUENCY_HISTOGRAM_def)
  qed
qed

section \<open>The built-in difference functions\<close>

lemma range_subdiff_key:
  assumes "range_opclass tc" and "\<And>x y. cle (rng_cmp_proc tc) x y \<longleftrightarrow> (k x :: int) \<le> k y"
    and "rng_subdiff tc = Some d" and "\<And>x y. d y x = Fin (of_int (k y - k x) / s)" and "0 < s"
  shows "range_subdiff tc"
  using assms by (auto simp: range_subdiff_def range_subdiff_axioms_def divide_right_mono)

interpretation int4d: range_subdiff int4range_typcache
proof (rule range_subdiff_key [OF int4.range_opclass_axioms, of int4_key int4range_subdiff 1])
  show "cle (rng_cmp_proc int4range_typcache) x y \<longleftrightarrow> int4_key x \<le> int4_key y" for x y
    using sign_cmp_preorder(2) [where c = btint4cmp and k = int4_key, OF btint4cmp_key]
    by (simp add: int4range_typcache_def Let_def)
qed (simp_all add: int4range_typcache_def Let_def int4range_subdiff_def)

interpretation int8d: range_subdiff int8range_typcache
proof (rule range_subdiff_key [OF int8.range_opclass_axioms, of sint int8range_subdiff 1])
  show "cle (rng_cmp_proc int8range_typcache) x y \<longleftrightarrow> sint x \<le> sint y" for x y
    using sign_cmp_preorder(2) [where c = btint8cmp and k = sint, OF btint8cmp_key]
    by (simp add: int8range_typcache_def Let_def)
qed (simp_all add: int8range_typcache_def Let_def int8range_subdiff_def)

interpretation dated: range_subdiff daterange_typcache
proof (rule range_subdiff_key [OF dater.range_opclass_axioms, of int4_key daterange_subdiff 1])
  show "cle (rng_cmp_proc daterange_typcache) x y \<longleftrightarrow> int4_key x \<le> int4_key y" for x y
    using sign_cmp_preorder(2) [where c = date_cmp and k = int4_key, OF date_cmp_key]
    by (simp add: daterange_typcache_def Let_def)
qed (simp_all add: daterange_typcache_def Let_def daterange_subdiff_def)

interpretation tsd: range_subdiff tsrange_typcache
proof (rule range_subdiff_key [OF tsr.range_opclass_axioms, of sint tsrange_subdiff 1000000])
  show "cle (rng_cmp_proc tsrange_typcache) x y \<longleftrightarrow> sint x \<le> sint y" for x y
    by (simp add: tsrange_typcache_def timestamp_cmp_internal_def cle_def)
qed (simp_all add: tsrange_typcache_def tsrange_subdiff_def)

section \<open>\<open>rangesel\<close>\<close>

text \<open>
  A clause the parser can produce for a column of the range type \<open>tc\<close>: a constant of
  the range type holds a stored range, one of the element type an element.
\<close>

definition clause_ok :: "Datum TypeCacheEntry \<Rightarrow> VariableStatData \<Rightarrow> other_node \<Rightarrow> bool" where
  "clause_ok tc vardata other \<longleftrightarrow>
     vartype vardata = type_id tc \<and>
     (case statsTuple vardata of None \<Rightarrow> True | Some st \<Rightarrow> stats_ok tc st) \<and>
     (case other of NotConst \<Rightarrow> True | IsConst c \<Rightarrow>
        (case const_value c of
           RangeValue r \<Rightarrow> range_wf tc r \<and> Some (consttype c) \<noteq> map_option elem_type_id (rngelemtype tc)
         | ElemValue v \<Rightarrow> consttype c \<noteq> type_id tc))"

lemma singleton_range:
  assumes "range_opclass tc"
  shows "\<exists>r. range_serialize tc
      \<lparr>rb_val = v, rb_infinite = False, rb_inclusive = True, rb_lower = True\<rparr>
      \<lparr>rb_val = v, rb_infinite = False, rb_inclusive = True, rb_lower = False\<rparr> False = Inr r \<and>
    range_wf tc r \<and> \<not> RangeIsEmpty r"
proof -
  let ?l = "\<lparr>rb_val = v, rb_infinite = False, rb_inclusive = True, rb_lower = True\<rparr>"
    and ?u = "\<lparr>rb_val = v, rb_infinite = False, rb_inclusive = True, rb_lower = False\<rparr>"
  have z: "rng_cmp_proc tc v v = 0"
    using assms by (simp add: range_opclass_def cmp_preorder.cmp_refl)
  then have "cle (range_cmp_bounds tc) ?l ?u" by (simp add: cle_def range_cmp_bounds_def)
  then have "range_serialize tc ?l ?u False = Inr (range_repr tc ?l ?u)"
    using z by (simp add: range_opclass.serialize_cases [OF assms] range_cmp_bound_values_def)
  then show ?thesis
    using range_opclass.serialize_wf [OF assms] by force
qed

lemma get_typcache_found:
  "typcache_found lk fx tc \<Longrightarrow> \<exists>fx'. range_get_typcache lk fx (type_id tc) = Inr (tc, fx')"
  by (auto simp: typcache_found_def range_get_typcache_def Let_def split: option.splits)

lemma clause_constrange_ok:
  assumes opc: "range_opclass tc" and lk: "typcache_found lk fx tc" and ok: "clause_ok tc vardata (IsConst c)"
  shows "\<exists>cr. clause_constrange lk fx operator vardata c = Inr cr \<and>
    (\<forall>tc' r. cr = Some (tc', r) \<longrightarrow> tc' = tc \<and> range_wf tc r \<and>
       operator \<noteq> OID_RANGE_ELEM_CONTAINED_OP \<and> (operator = OID_RANGE_CONTAINS_ELEM_OP \<longrightarrow> \<not> RangeIsEmpty r))"
proof -
  have vt: "vartype vardata = type_id tc" using ok by (simp add: clause_ok_def)
  obtain fx' where g: "range_get_typcache lk fx (type_id tc) = Inr (tc, fx')"
    using get_typcache_found [OF lk] by blast
  show ?thesis
  proof (cases "const_value c")
    case (ElemValue v)
    obtain r where "range_serialize tc
      \<lparr>rb_val = v, rb_infinite = False, rb_inclusive = True, rb_lower = True\<rparr>
      \<lparr>rb_val = v, rb_infinite = False, rb_inclusive = True, rb_lower = False\<rparr> False = Inr r"
      "range_wf tc r" "\<not> RangeIsEmpty r" using singleton_range [OF opc] by blast
    then show ?thesis
      using ok ElemValue by (simp add: clause_constrange_def g vt clause_ok_def oid_defs)
  next
    case (RangeValue r)
    then show ?thesis
      using ok by (simp add: clause_constrange_def g vt clause_ok_def DatumGetRangeTypeP_def)
  qed
qed

lemma rangesel_prob:
  assumes sub: "range_subdiff tc" and lk: "typcache_found lk fx tc"
    and op: "(if varonleft then operator else get_commutator cat operator)
       \<in> range_operators \<union> {0, OID_RANGE_CONTAINS_ELEM_OP, OID_RANGE_ELEM_CONTAINED_OP}"
    and nz: "varonleft \<Longrightarrow> operator \<noteq> 0" and ok: "clause_ok tc vardata other"
  shows "\<exists>p. rangesel cat lk fx operator (Some (vardata, other, varonleft)) = Inr p \<and> is_prob p"
proof (cases "other = NotConst \<or> (\<exists>c. other = IsConst c \<and> constisnull c)")
  case True
  then show ?thesis by (auto simp: rangesel_def default_prob)
next
  case False
  then obtain c where c: "other = IsConst c" "\<not> constisnull c" by (cases other) auto
  define oper where "oper = (if \<not> varonleft then get_commutator cat operator else operator)"
  show ?thesis
  proof (cases "\<not> varonleft \<and> oper = 0")
    case True
    then have "\<not> varonleft" "get_commutator cat operator = 0" by (auto simp: oper_def)
    then show ?thesis using c default_prob by (simp add: rangesel_def)
  next
    case nonzero: False
    then have oper: "oper \<in> range_operators \<union> {OID_RANGE_CONTAINS_ELEM_OP, OID_RANGE_ELEM_CONTAINED_OP}"
      using op nz by (cases varonleft) (auto simp: oper_def)
    obtain cr where cr: "clause_constrange lk fx oper vardata c = Inr cr"
      "\<And>tc' r. cr = Some (tc', r) \<Longrightarrow> tc' = tc \<and> range_wf tc r \<and>
       oper \<noteq> OID_RANGE_ELEM_CONTAINED_OP \<and> (oper = OID_RANGE_CONTAINS_ELEM_OP \<longrightarrow> \<not> RangeIsEmpty r)"
      using clause_constrange_ok [OF range_subdiff.axioms(1) [OF sub] lk ok [unfolded c(1)], of oper] by blast
    have "\<exists>p. (case cr of Some (typcache, r) \<Rightarrow> calc_rangesel cat typcache vardata r oper
                     | None \<Rightarrow> Inr (default_range_selectivity oper)) = Inr p \<and> is_prob p"
    proof (cases cr)
      case (Some x)
      obtain tc' r where x: "x = (tc', r)" by (cases x)
      note R = cr(2) [OF Some [unfolded x]]
      have "\<exists>p. calc_rangesel cat tc vardata r oper = Inr p \<and> is_prob p"
        by (rule calc_rangesel_prob [OF sub]) (use R oper ok in \<open>auto simp: clause_ok_def\<close>)
      then show ?thesis using Some x R by simp
    qed (simp add: default_prob)
    then obtain p where "(case cr of Some (typcache, r) \<Rightarrow> calc_rangesel cat typcache vardata r oper
                     | None \<Rightarrow> Inr (default_range_selectivity oper)) = Inr p" "is_prob p" by blast
    then show ?thesis
      unfolding rangesel_def c(1) option.case prod.case other_node.case Let_def oper_def [symmetric]
      using c(2) nonzero cr(1) by (auto simp: CLAMP_PROBABILITY_id)
  qed
qed


section \<open>Selectivity from the frequency histogram\<close>

text \<open>
  The sum of the buckets that have a point in common with \<open>[a, b]\<close>, counted directly: the
  scan may stop at the first bucket after them because the buckets ascend.
\<close>

definition met_sum :: "int \<Rightarrow> int \<Rightarrow> int \<Rightarrow> int \<Rightarrow> int \<Rightarrow> real list \<Rightarrow> real" where
  "met_sum min1 len a b i fs =
     (\<Sum>j < length fs. if {min1 + (i + int j) * len..min1 + (i + int j + 1) * len} \<inter> {a..b} \<noteq> {} then fs ! j else 0)"

lemma met_sum_Cons:
  "met_sum min1 len a b i (f # fs) =
     (if {min1 + i * len..min1 + (i + 1) * len} \<inter> {a..b} \<noteq> {} then f else 0) + met_sum min1 len a b (i + 1) fs"
  unfolding met_sum_def list.size add_0_right add_Suc_right sum.lessThan_Suc_shift nth_Cons_Suc nth_Cons_0
  by (simp add: algebra_simps del: Int_atLeastAtMost)

lemma met_sum_after:
  assumes "0 \<le> len" and "b < min1 + i * len"
  shows "met_sum min1 len a b i fs = 0"
proof -
  have "b < min1 + (i + int j) * len" for j
    using assms mult_nonneg_nonneg [of "int j" len] unfolding distrib_right by linarith
  then have "{min1 + (i + int j) * len..min1 + (i + int j + 1) * len} \<inter> {a..b} = {}" for j
    by (meson atLeastAtMost_iff disjoint_iff leD order.trans)
  then show ?thesis by (simp add: met_sum_def del: Int_atLeastAtMost)
qed

lemma IsInRange_meets: "x \<le> y \<Longrightarrow> a \<le> b \<Longrightarrow> IsInRange x y a b \<longleftrightarrow> {x..y} \<inter> {a..b} \<noteq> {}"
  by (auto simp: IsInRange_def)

lemma overlap_loop_eq:
  assumes "0 \<le> len" and ab: "a \<le> b" and "- (2 ^ 31) \<le> min1 + i * len"
    and "min1 + (i + int (length fs)) * len < 2 ^ 31" and "out \<noteq> 0 \<Longrightarrow> a \<le> min1 + i * len"
  shows "overlap_loop min1 len a b i (map Fin fs) out (Fin s) = Fin (s + met_sum min1 len a b i fs)"
  using assms(3-)
proof (induction fs arbitrary: i out s)
  case (Cons f fs)
  have step: "min1 + i * len \<le> min1 + (i + 1) * len" "min1 + (i + 1) * len \<le> min1 + (i + int (length (f # fs))) * len"
    using assms(1) mult_nonneg_nonneg [of "int (length fs)" len] by (simp_all add: algebra_simps)
  have w: "to_int32 (min1 + i * len) = min1 + i * len" "to_int32 (min1 + (i + 1) * len) = min1 + (i + 1) * len"
    using Cons.prems(1,2) step by (intro to_int32_id; linarith)+
  have pr: "- (2 ^ 31) \<le> min1 + (i + 1) * len" "min1 + (i + 1 + int (length fs)) * len < 2 ^ 31"
    using Cons.prems(1,2) step by (simp_all add: algebra_simps)
  note meets = met_sum_Cons IsInRange_meets [OF step(1) ab, symmetric]
  show ?case
  proof (cases "IsInRange (min1 + i * len) (min1 + (i + 1) * len) a b")
    case True
    then have "a \<le> min1 + (i + 1) * len" by (simp add: IsInRange_def)
    then show ?thesis
      using True Cons.IH [OF pr, of "out + 1"] by (simp add: Let_def w meets del: Int_atLeastAtMost)
  next
    case False
    show ?thesis
    proof (cases "out = 0")
      case True
      then show ?thesis using False Cons.IH [OF pr, of 0] by (simp add: Let_def w meets del: Int_atLeastAtMost)
    next
      case out: False
      then have "b < min1 + i * len" using False Cons.prems(3) step by (simp add: IsInRange_def)
      then show ?thesis
        using False out met_sum_after [OF assms(1), of b min1 "i + 1" a fs] step
        by (simp add: Let_def w meets del: Int_atLeastAtMost)
    qed
  qed
qed (simp add: met_sum_def)

text \<open>
  The estimator's bucket length is the one of the histogram, unless the number of buckets
  divides the distance of the first and the last value.
\<close>

lemma bucket_length_agrees:
  assumes "1 \<le> n" and "n < 2 ^ 31" and "\<not> bucket_number n dvd n - 1"
  shows "roundUpDivision (n - 1) (bucket_number n) = Inr (bucket_length n)"
proof -
  let ?k = "bucket_number n"
  have k: "1 \<le> ?k" using bucket_number_bounds [OF assms(1)] by simp
  define q r where "q = (n - 1) div ?k" and "r = (n - 1) mod ?k"
  have r: "1 \<le> r" "r < ?k"
    using assms(3) k pos_mod_sign [of ?k "n - 1"] by (auto simp: r_def dvd_eq_mod_eq_0 order_le_less)
  have n: "n - 1 = q * ?k + r" by (simp add: q_def r_def)
  have "(n - 1 + ?k - 1) div ?k = q + 1"
    by (rule int_div_pos_eq [where r = "r - 1"]) (use n r in \<open>simp_all add: algebra_simps\<close>)
  moreover have "(n + ?k - 1) div ?k = q + 1"
    by (rule int_div_pos_eq [where r = r]) (use n r in \<open>simp_all add: algebra_simps\<close>)
  ultimately show ?thesis
    using roundUpDivision_pos [of "n - 1" ?k] assms(1,2) k by (simp add: bucket_length_def)
qed

section \<open>Properties\<close>

text \<open>Sample values for the witnesses.\<close>

definition sample_catalog :: catalog where
  "sample_catalog = \<lparr>get_func_leakproof = (\<lambda>_. True), get_opcode = (\<lambda>_. 3857),
     get_commutator = (\<lambda>oper. if oper = OID_RANGE_LEFT_OP then OID_RANGE_RIGHT_OP
        else if oper = OID_RANGE_RIGHT_OP then OID_RANGE_LEFT_OP else oper),
     rng_cmp_proc_oid = 351, rng_subdiff_oid = 3922\<rparr>"

definition sample_hist :: "Datum RangeBound list" where
  "sample_hist = [int4_bound 0 True True, int4_bound 10 True True, int4_bound 30 True True]"

definition sample_const :: "int \<Rightarrow> int \<Rightarrow> other_node" where
  "sample_const a b = IsConst \<lparr>consttype = 3904, constisnull = False, const_value = RangeValue (int4_rng a b)\<rparr>"

definition sample_vardata :: "pg_statistic option \<Rightarrow> VariableStatData" where
  "sample_vardata st = \<lparr>vartype = 3904, statsTuple = st, acl_ok = True\<rparr>"

text \<open>
  C24. On an ascending histogram the binary search \<open>rbound_bsearch\<close> returns the number of
  entries below the bound (not above it, when \<open>equal\<close>) minus one.
\<close>

theorem rbound_bsearch_counts:
  assumes "range_opclass tc" and "sorted_wrt (cle (range_cmp_bounds tc)) hist"
  shows "rbound_bsearch tc b hist equal =
    int (length (filter (\<lambda>h. if equal then range_cmp_bounds tc h b \<le> 0 else range_cmp_bounds tc h b < 0) hist)) - 1"
proof -
  have "bound_below tc b equal = (\<lambda>h. if equal then range_cmp_bounds tc h b \<le> 0 else range_cmp_bounds tc h b < 0)"
    using range_opclass.cmp_bounds_neg_iff [OF assms(1)] by (auto simp: bound_below_def cle_def fun_eq_iff)
  then show ?thesis
    using range_opclass.rbound_bsearch_count [OF assms, of b equal] by simp
qed

theorem rbound_bsearch_counts_witness:
  "rbound_bsearch int4range_typcache (int4_bound 10 True True) sample_hist True = 1"
proof -
  have s: "sorted_wrt (cle (range_cmp_bounds int4range_typcache)) sample_hist" by code_simp
  have "length (filter (\<lambda>h. if True then range_cmp_bounds int4range_typcache h (int4_bound 10 True True) \<le> 0
    else range_cmp_bounds int4range_typcache h (int4_bound 10 True True) < 0) sample_hist) = 2" by code_simp
  then show ?thesis
    using rbound_bsearch_counts [OF int4.range_opclass_axioms s, of "int4_bound 10 True True" True] by simp
qed

text \<open>
  C25. The estimated fraction of bounds below a constant differs from the fraction of
  histogram entries below it by at most the width of one bin: with \<open>k\<close> entries below,
  it lies between \<open>k - 1\<close> and \<open>k\<close> bins (within 0 and the number of bins).
\<close>

theorem scalar_selectivity_accuracy:
  assumes "range_opclass tc" and "sorted_wrt (cle (range_cmp_bounds tc)) hist" and "2 \<le> length hist"
    and "k = length (filter (\<lambda>h. if equal then range_cmp_bounds tc h b \<le> 0 else range_cmp_bounds tc h b < 0) hist)"
  shows "\<exists>x. calc_hist_selectivity_scalar tc b hist equal = Fin x \<and>
    real (k - 1) / real (length hist - 1) \<le> x \<and>
    x \<le> real (min k (length hist - 1)) / real (length hist - 1)"
proof -
  have "bound_below tc b equal = (\<lambda>h. if equal then range_cmp_bounds tc h b \<le> 0 else range_cmp_bounds tc h b < 0)"
    using range_opclass.cmp_bounds_neg_iff [OF assms(1)] by (auto simp: bound_below_def cle_def fun_eq_iff)
  then show ?thesis
    using scalar_selectivity [OF assms(1-3), of k b equal] assms(4) by simp
qed

theorem scalar_selectivity_accuracy_witness:
  "\<exists>x. calc_hist_selectivity_scalar int4range_typcache (int4_bound 20 True True) sample_hist True = Fin x \<and>
    1 / 2 \<le> x \<and> x \<le> 1"
proof -
  have s: "sorted_wrt (cle (range_cmp_bounds int4range_typcache)) sample_hist" "2 \<le> length sample_hist"
    "2 = length (filter (\<lambda>h. if True then range_cmp_bounds int4range_typcache h (int4_bound 20 True True) \<le> 0
      else range_cmp_bounds int4range_typcache h (int4_bound 20 True True) < 0) sample_hist)"
    by code_simp+
  show ?thesis
    using scalar_selectivity_accuracy [OF int4.range_opclass_axioms s] by (simp add: sample_hist_def)
qed

text \<open>
  C23. \<open>calc_length_hist_frac\<close>, the average over an interval of lengths of the fraction of
  shorter ranges, is a probability, for finite and infinite lengths.
\<close>

theorem length_fraction_probability:
  assumes "length_hist hist" and "f_le length1 length2" and "length1 \<noteq> MInf"
  shows "is_prob (calc_length_hist_frac hist length1 length2 equal)"
  using assms by (rule calc_length_hist_frac_prob)

theorem length_fraction_probability_witness:
  "is_prob (calc_length_hist_frac [Fin 1, Fin 5, PInf] (Fin 2) PInf False)"
  by (rule length_fraction_probability) (auto simp: length_hist_def f_le_def)

text \<open>
  C22. With statistics in order, \<open>rangesel\<close> returns a probability and raises no error, for
  every range operator, every constant and either order of the operands.
\<close>

theorem rangesel_probability:
  assumes "range_subdiff tc" and "typcache_found lk fx tc"
    and "(if varonleft then operator else get_commutator cat operator)
       \<in> range_operators \<union> {0, OID_RANGE_CONTAINS_ELEM_OP, OID_RANGE_ELEM_CONTAINED_OP}"
    and "varonleft \<Longrightarrow> operator \<noteq> 0" and "clause_ok tc vardata other"
  shows "\<exists>p. rangesel cat lk fx operator (Some (vardata, other, varonleft)) = Inr p \<and> is_prob p"
  using assms by (rule rangesel_prob)

theorem rangesel_probability_witness:
  "\<exists>p. rangesel sample_catalog int4_lookup None OID_RANGE_LEFT_OP
     (Some (sample_vardata (Some \<lparr>st_nullfrac = Fin (1 / 4), st_slots =
        [\<lparr>stakind = 7, stavals = RangeValues [int4_rng 0 20, int4_rng 10 45], stanumbers = []\<rparr>]\<rparr>),
      sample_const 15 30, True)) = Inr p \<and> is_prob p"
  by (rule rangesel_probability [OF int4d.range_subdiff_axioms int4_lookup_found])
    (simp_all add: range_operators_def oid_defs, code_simp)

text \<open>
  C21. Composition of statistics gathering and estimation: after a successful
  \<open>compute_range_stats\<close> on stored ranges, the row \<open>update_attstats\<close> writes makes
  \<open>calc_rangesel\<close> return a probability, and no error, for every range operator and every
  stored constant.
\<close>

theorem analyzed_column_estimates:
  assumes "range_subdiff tc" and "sample_wf tc rows" and "1 \<le> attstattarget stats"
    and "\<not> stats_valid stats" and "slots stats = []"
    and "range_wf tc constval" and "operator \<in> range_operators"
  shows "case compute_range_stats oob tc rows stats of
      Inl _ \<Rightarrow> True
    | Inr st \<Rightarrow> \<exists>p. calc_rangesel cat tc \<lparr>vartype = type_id tc, statsTuple = update_attstats st, acl_ok = ok\<rparr>
        constval operator = Inr p \<and> is_prob p"
proof (cases "compute_range_stats oob tc rows stats")
  case (Inr st)
  have "\<exists>p. calc_rangesel cat tc \<lparr>vartype = type_id tc, statsTuple = update_attstats st, acl_ok = ok\<rparr>
        constval operator = Inr p \<and> is_prob p"
    by (rule calc_rangesel_prob [OF assms(1)])
      (use compute_range_stats_ok [OF assms(1-5) Inr] assms in auto)
  then show ?thesis using Inr by simp
qed simp

theorem analyzed_column_estimates_witness:
  "case compute_range_stats (int4_bound 0 True True) int4range_typcache sample_rows sample_stats of
      Inl _ \<Rightarrow> False
    | Inr st \<Rightarrow> \<exists>p. calc_rangesel sample_catalog int4range_typcache
        \<lparr>vartype = type_id int4range_typcache, statsTuple = update_attstats st, acl_ok = True\<rparr>
        (int4_rng 15 30) OID_RANGE_CONTAINED_OP = Inr p \<and> is_prob p"
proof -
  have h: "sample_wf int4range_typcache sample_rows" "1 \<le> attstattarget sample_stats"
    "\<not> stats_valid sample_stats" "slots sample_stats = []" "range_wf int4range_typcache (int4_rng 15 30)"
    by (code_simp, code_simp, simp add: sample_stats_def, simp add: sample_stats_def, code_simp)
  have "\<not> isl (compute_range_stats (int4_bound 0 True True) int4range_typcache sample_rows sample_stats)"
    by code_simp
  then show ?thesis
    using analyzed_column_estimates [OF int4d.range_subdiff_axioms h, where
        operator = OID_RANGE_CONTAINED_OP and oob = "int4_bound 0 True True" and cat = sample_catalog and ok = True]
    by (auto simp: range_operators_def split: sum.splits)
qed

text \<open>
  C26. The estimate of \<open>rangerestsel_inner\<close> for \<open>&&\<close> on the frequency histogram that
  \<open>ComputeFrequencyHistogram\<close> built (ascending non-negative bound values, the last one below
  \<open>2 ^ 31 - 20\<close>), with the ends of that histogram and a constant with two finite non-negative
  bounds: it is the sum of the entries of all buckets of the histogram that have a point in
  common with the constant, ends included, divided by the number of rows. Stopping the scan
  behind the constant loses no bucket. This holds unless the number of buckets divides the
  distance between the ends; then the estimator's buckets are not those of the histogram
  (\<open>bucket_length_mismatch\<close>).
\<close>

theorem overlap_estimate_sum:
  assumes "freq_dom lowers uppers vl vu" and "vl \<noteq> []" and "last vu < 2 ^ 31 - 20"
    and "ComputeFrequencyHistogram oob (Some lowers) (Some uppers) (length vl) = Inr (map Fin fs)"
    and "\<not> int (length fs) dvd last vu - hd vl"
    and "\<not> rb_infinite const_lower" and "\<not> rb_infinite const_upper"
    and "rb_val const_lower = word_of_int a" and "rb_val const_upper = word_of_int b"
    and "0 \<le> a" and "a \<le> b" and "b < 2 ^ 31" and "0 < rows1"
  shows "\<exists>len. {hd vl..last vu} \<subseteq> (\<Union>j < length fs. bucket_values vl len j) \<and>
    (\<forall>j < length fs. fs ! j = bucket_count vl vu len j) \<and>
    rangerestsel_inner (map Fin fs) rows1 (hd vl) (last vu) const_lower const_upper OID_RANGE_OVERLAP_OP =
    Inr (Fin ((\<Sum>j < length fs. if {hd vl + int j * len..hd vl + int (Suc j) * len} \<inter> {a..b} \<noteq> {} then fs ! j else 0)
      / real rows1))"
proof -
  define n where "n = last vu - hd vl + 1"
  have n1: "1 \<le> n" unfolding n_def by (rule freq_dom_span [OF assms(1,2)])
  have h0: "0 \<le> hd vl" using assms(1,2) by (auto simp: freq_dom_def hd_conv_nth)
  have n2: "n < 2 ^ 31" using assms(3) h0 n_def by simp
  have fs: "fs = map (bucket_count vl vu (bucket_length n)) [0..<nat (bucket_number n)]"
    using assms(4) unfolding frequency_entries [OF assms(1-3) n_def] by (simp del: map_map add: inj_map_eq_map inj_def)
  have k: "int (length fs) = bucket_number n" using bucket_number_bounds [OF n1] by (simp add: fs)
  note c = bucket_cover [OF n1]
  have r: "roundUpDivision (last vu - hd vl) (int (length fs)) = Inr (bucket_length n)"
    using bucket_length_agrees [OF n1 n2] assms(5) k by (simp add: n_def)
  have w: "to_int32 (last vu - hd vl) = last vu - hd vl" using n1 n2 n_def by (intro to_int32_id) auto
  have ab: "to_int32 (uint (rb_val const_lower)) = a" "to_int32 (uint (rb_val const_upper)) = b"
    using assms(8-12) by (simp_all add: uint_small to_int32_id)
  have "overlap_loop (hd vl) (bucket_length n) a b 0 (map Fin fs) 0 (Fin 0) =
    Fin (0 + met_sum (hd vl) (bucket_length n) a b 0 fs)"
    by (rule overlap_loop_eq) (use c assms(3,11) h0 k n_def in auto)
  then have "rangerestsel_inner (map Fin fs) rows1 (hd vl) (last vu) const_lower const_upper OID_RANGE_OVERLAP_OP =
    Inr (Fin (met_sum (hd vl) (bucket_length n) a b 0 fs / real rows1))"
    using r assms(13) by (simp add: rangerestsel_inner_def w ab Let_def oid_defs)
  moreover have "\<forall>j < length fs. fs ! j = bucket_count vl vu (bucket_length n) j" by (simp add: fs)
  moreover have "{hd vl..last vu} \<subseteq> (\<Union>j < length fs. bucket_values vl (bucket_length n) j)"
    by (rule buckets_cover [OF c(1)]) (use c(2) k n_def in simp)
  ultimately show ?thesis
    by (intro exI [of _ "bucket_length n"]) (simp add: met_sum_def add.commute del: Int_atLeastAtMost)
qed

text \<open>Two ranges in 16 buckets of 3 values; the constant is \<open>[12, 14)\<close>.\<close>

definition sample_freqs :: "real list" where
  "sample_freqs = [3 / 20, 3 / 20, 3 / 20, 29 / 140, 33 / 140, 33 / 140, 33 / 140, 3 / 35, 3 / 35, 3 / 35, 3 / 35, 3 / 35, 3 / 35, 3 / 35, 3 / 35, 0]"

theorem overlap_estimate_sum_witness:
  "\<exists>len. {0..45} \<subseteq> (\<Union>j < 16. bucket_values [0, 10] len j) \<and>
    rangerestsel_inner (map Fin sample_freqs) 2 0 45 (int4_bound 12 True True) (int4_bound 14 False False)
      OID_RANGE_OVERLAP_OP =
    Inr (Fin ((\<Sum>j < 16. if {int j * len..int (Suc j) * len} \<inter> {12..14} \<noteq> {} then sample_freqs ! j else 0) / 2))"
proof -
  have d: "freq_dom [int4_bound 0 True True, int4_bound 10 True True]
    [int4_bound 20 False False, int4_bound 45 False False] [0, 10] [20, 45]"
    by (auto simp: freq_dom_def int4_bound_def nth_Cons split: nat.splits)
  have h: "ComputeFrequencyHistogram (int4_bound 0 True True)
      (Some [int4_bound 0 True True, int4_bound 10 True True])
      (Some [int4_bound 20 False False, int4_bound 45 False False]) (length [0, 10 :: int]) =
    Inr (map Fin sample_freqs)"
    by code_simp
  have l: "length sample_freqs = 16" by (simp add: sample_freqs_def)
  show ?thesis
    using overlap_estimate_sum [OF d _ _ h, of "int4_bound 12 True True" "int4_bound 14 False False" 12 14 2]
    by (simp add: l int4_bound_def del: Int_atLeastAtMost) blast
qed

text \<open>
  The estimator divides the span by the number of buckets without the \<open>+ 1\<close> that
  \<open>ComputeFrequencyHistogram\<close> uses, so that the bucket lengths can differ.
\<close>

lemma bucket_length_mismatch:
  "roundUpDivision (380 - 0 + 1) 20 = Inr 20 \<and> roundUpDivision (380 - 0) 20 = Inr 19"
  by code_simp

text \<open>
  For \<open><<\<close> with a constant in the first buckets, the estimate scales the first frequency by
  the constant's bound itself and not by its distance from the start of the histogram.
\<close>

lemma left_estimate_offset:
  "rangerestsel_inner [Fin (1 / 2), Fin (1 / 2)] 1 1000 1040 (int4_bound 1001 True True) (int4_bound 1002 False False)
     OID_RANGE_LEFT_OP = Inr (Fin (1001 / 40))"
  by code_simp

text \<open>The infinite bins of the length histogram.\<close>

lemma get_len_position_infinite:
  "get_len_position v (Fin a) PInf = Fin 0.5" "get_len_position v PInf PInf = Fin 0"
  by (simp_all add: get_len_position_def)

end
