(* ===== verification/Range_Joinsel.thy ===== *)
theory Range_Joinsel
  imports Range_Estimates
begin

text \<open>
  Join selectivity of the overlap operator, \<open>rangeoverlapsjoinsel\<close> of
  \<open>geo_selfuncs.c\<close>, which this fork adds: it walks the frequency histograms of the two
  columns in parallel. The statistics of the two columns (\<open>get_join_variables\<close>) are
  inputs. The loops that look for the first and for the last pair of buckets that meet
  need not end for every input, so they are partial functions: \<open>None\<close> stands for a loop
  that does not return.
\<close>

section \<open>Definitions\<close>









text \<open>The estimators of the geometric operators are constants.\<close>

definition areasel :: float8 where "areasel = Fin 0.005"

definition areajoinsel :: float8 where "areajoinsel = Fin 0.005"

definition positionsel :: float8 where "positionsel = Fin 0.1"

definition positionjoinsel :: float8 where "positionjoinsel = Fin 0.1"

definition contsel :: float8 where "contsel = Fin 0.001"

definition contjoinsel :: float8 where "contjoinsel = Fin 0.001"

section \<open>The two searches\<close>












section \<open>The sum over the pairs of buckets\<close>





section \<open>The estimate\<close>













end
