(* ===== verification/Num_IO.thy ===== *)
theory Num_IO
  imports Range_Builtin
begin

text \<open>
  Text input and output of the integer types the built-in ranges are made of:
  \<open>numutils.c\<close>, and \<open>int4in\<close>, \<open>int4out\<close>, \<open>int8in\<close>, \<open>int8out\<close>. A C string is the list of
  its characters before the terminating NUL; a character buffer is a list of its
  contents, and a store outside of it is \<open>Undefined_behavior\<close>. Characters are classified
  as in the C locale.
\<close>

section \<open>Character classes and buffers\<close>

definition isspace :: "char \<Rightarrow> bool" where
  "isspace c \<longleftrightarrow> (let n = of_char c :: int in n = 32 \<or> 9 \<le> n \<and> n \<le> 13)"

definition isdigit :: "char \<Rightarrow> bool" where
  "isdigit c \<longleftrightarrow> (let n = of_char c :: int in 48 \<le> n \<and> n \<le> 57)"

definition palloc :: "nat \<Rightarrow> string" where
  "palloc n = replicate n (CHR 0x7F)"

definition memcpy_at :: "string \<Rightarrow> int \<Rightarrow> string \<Rightarrow> string res" where
  "memcpy_at a pos s =
     (if 0 \<le> pos \<and> nat pos + length s \<le> length a
      then Inr (take (nat pos) a @ s @ drop (nat pos + length s) a)
      else Inl Undefined_behavior)"

text \<open>The C string in a buffer; a buffer without NUL holds none.\<close>

definition cstring :: "string \<Rightarrow> string res" where
  "cstring a = (if CHR 0x00 \<in> set a then Inr (takeWhile (\<lambda>c. c \<noteq> CHR 0x00) a) else Inl Undefined_behavior)"

section \<open>Decimal length\<close>

definition pg_leftmost_one_pos :: "nat list" where
  "pg_leftmost_one_pos = [0, 0] @ replicate 2 1 @ replicate 4 2 @ replicate 8 3 @ replicate 16 4 @
     replicate 32 5 @ replicate 64 6 @ replicate 128 7"

text \<open>
  The variant for compilers without a built-in. The loop ends at shift 0 at the latest,
  since the word is not 0 (the assertion in the code).
\<close>

fun leftmost_shift :: "('w::len) word \<Rightarrow> nat \<Rightarrow> nat" where
  "leftmost_shift w s = (if drop_bit s w = 0 \<and> 8 \<le> s then leftmost_shift w (s - 8) else s)"

declare leftmost_shift.simps [simp del]

definition pg_leftmost_one_pos32 :: "32 word \<Rightarrow> nat" where
  "pg_leftmost_one_pos32 w =
     (let s = leftmost_shift w (32 - 8) in s + pg_leftmost_one_pos ! unat (drop_bit s w AND 255))"

definition pg_leftmost_one_pos64 :: "64 word \<Rightarrow> nat" where
  "pg_leftmost_one_pos64 w =
     (let s = leftmost_shift w (64 - 8) in s + pg_leftmost_one_pos ! unat (drop_bit s w AND 255))"

definition PowersOfTen32 :: "32 word list" where
  "PowersOfTen32 = [1, 10, 100, 1000, 10000, 100000, 1000000, 10000000, 100000000, 1000000000]"

definition PowersOfTen64 :: "64 word list" where
  "PowersOfTen64 = [1, 10, 100, 1000, 10000, 100000, 1000000, 10000000, 100000000, 1000000000,
     10000000000, 100000000000, 1000000000000, 10000000000000, 100000000000000, 1000000000000000,
     10000000000000000, 100000000000000000, 1000000000000000000, 10000000000000000000]"

definition decimalLength32 :: "32 word \<Rightarrow> int" where
  "decimalLength32 v =
     (let t = (pg_leftmost_one_pos32 v + 1) * 1233 div 4096
      in int t + (if v \<ge> PowersOfTen32 ! t then 1 else 0))"

definition decimalLength64 :: "64 word \<Rightarrow> int" where
  "decimalLength64 v =
     (let t = (pg_leftmost_one_pos64 v + 1) * 1233 div 4096
      in int t + (if v \<ge> PowersOfTen64 ! t then 1 else 0))"

section \<open>Output\<close>

definition DIGIT_TABLE :: string where
  "DIGIT_TABLE =
     ''0001020304050607080910111213141516171819'' @
     ''2021222324252627282930313233343536373839'' @
     ''4041424344454647484950515253545556575859'' @
     ''6061626364656667686970717273747576777879'' @
     ''8081828384858687888990919293949596979899''"

text \<open>\<open>memcpy(pos, DIGIT_TABLE + c, 2)\<close>\<close>

definition put_pair :: "string \<Rightarrow> int \<Rightarrow> 32 word \<Rightarrow> string res" where
  "put_pair a pos c =
     (if unat c + 2 \<le> 200 then memcpy_at a pos (take 2 (drop (unat c) DIGIT_TABLE)) else Inl Undefined_behavior)"

text \<open>The last one to four digits, the same code in the two conversions.\<close>

definition ultoa_tail :: "int \<Rightarrow> 32 word \<Rightarrow> int \<Rightarrow> string \<Rightarrow> string res" where
  "ultoa_tail olength v i a =
     rbind (if v \<ge> 100
            then rbind (put_pair a (olength - i - 2) (push_bit 1 (v mod 100))) (\<lambda>a. Inr (v div 100, i + 2, a))
            else Inr (v, i, a)) (\<lambda>(v, i, a).
     if v \<ge> 10 then put_pair a (olength - i - 2) (push_bit 1 v)
     else memcpy_at a 0 [char_of (48 + unat v)])"

text \<open>Four digits, of a value below 10000.\<close>

definition put_four :: "string \<Rightarrow> int \<Rightarrow> 32 word \<Rightarrow> string res" where
  "put_four a pos c =
     rbind (put_pair a (pos - 2) (push_bit 1 (c mod 100))) (\<lambda>a.
     put_pair a (pos - 4) (push_bit 1 (c div 100)))"

function ultoa_loop :: "int \<Rightarrow> 32 word \<Rightarrow> int \<Rightarrow> string \<Rightarrow> (32 word \<times> int \<times> string) res" where
  "ultoa_loop olength v i a =
     (if v \<ge> 10000 then
        rbind (put_four a (olength - i) (v - 10000 * (v div 10000)))
          (\<lambda>a. ultoa_loop olength (v div 10000) (i + 4) a)
      else Inr (v, i, a))"
  by pat_completeness auto
termination
  by (relation "measure (\<lambda>(olength, v, i, a). unat v)") (auto simp: unat_div word_le_nat_alt)

declare ultoa_loop.simps [simp del]

definition pg_ultoa_n :: "32 word \<Rightarrow> string \<Rightarrow> (int \<times> string) res" where
  "pg_ultoa_n v a =
     (if v = 0 then rbind (memcpy_at a 0 ''0'') (\<lambda>a. Inr (1, a))
      else
        let olength = decimalLength32 v in
        rbind (ultoa_loop olength v 0 a) (\<lambda>(v, i, a).
        rbind (ultoa_tail olength v i a) (\<lambda>a. Inr (olength, a))))"

text \<open>The two halves of a buffer that \<open>*a++ = '-'\<close> separates.\<close>

definition with_sign :: "bool \<Rightarrow> (string \<Rightarrow> (int \<times> string) res) \<Rightarrow> string \<Rightarrow> string res" where
  "with_sign neg conv a =
     (if neg then
        rbind (memcpy_at a 0 ''-'') (\<lambda>a.
        rbind (conv (tl a)) (\<lambda>(len, b).
        rbind (memcpy_at b len [CHR 0x00]) (\<lambda>b. Inr (hd a # b))))
      else
        rbind (conv a) (\<lambda>(len, b). memcpy_at b len [CHR 0x00]))"

definition pg_ltoa :: "32 word \<Rightarrow> string \<Rightarrow> string res" where
  "pg_ltoa v a = with_sign (sint v < 0) (pg_ultoa_n (if sint v < 0 then 0 - v else v)) a"

function ulltoa_loop :: "int \<Rightarrow> 64 word \<Rightarrow> int \<Rightarrow> string \<Rightarrow> (64 word \<times> int \<times> string) res" where
  "ulltoa_loop olength v i a =
     (if v \<ge> 100000000 then
        let q = v div 100000000; value2 = ucast (v - 100000000 * q) :: 32 word in
        rbind (put_four a (olength - i) (value2 mod 10000)) (\<lambda>a.
        rbind (put_four a (olength - i - 4) (value2 div 10000)) (\<lambda>a.
        ulltoa_loop olength q (i + 8) a))
      else Inr (v, i, a))"
  by pat_completeness auto
termination
  by (relation "measure (\<lambda>(olength, v, i, a). unat v)") (auto simp: unat_div word_le_nat_alt)

declare ulltoa_loop.simps [simp del]

definition pg_ulltoa_n :: "64 word \<Rightarrow> string \<Rightarrow> (int \<times> string) res" where
  "pg_ulltoa_n v a =
     (if v = 0 then rbind (memcpy_at a 0 ''0'') (\<lambda>a. Inr (1, a))
      else
        let olength = decimalLength64 v in
        rbind (ulltoa_loop olength v 0 a) (\<lambda>(v, i, a).
        let value2 = ucast v :: 32 word in
        rbind (if value2 \<ge> 10000
               then rbind (put_four a (olength - i) (value2 - 10000 * (value2 div 10000)))
                      (\<lambda>a. Inr (value2 div 10000, i + 4, a))
               else Inr (value2, i, a)) (\<lambda>(value2, i, a).
        rbind (ultoa_tail olength value2 i a) (\<lambda>a. Inr (olength, a)))))"

definition pg_lltoa :: "64 word \<Rightarrow> string \<Rightarrow> string res" where
  "pg_lltoa v a = with_sign (sint v < 0) (pg_ulltoa_n (if sint v < 0 then 0 - v else v)) a"

definition int4out :: "Datum \<Rightarrow> string res" where
  "int4out arg = rbind (pg_ltoa (DatumGetInt32 arg) (palloc 12)) cstring"

definition MAXINT8LEN :: nat where "MAXINT8LEN = 20"

definition int8out :: "Datum \<Rightarrow> string res" where
  "int8out val = rbind (pg_lltoa val (palloc (MAXINT8LEN + 1))) cstring"

section \<open>Input\<close>

text \<open>Checked arithmetic; \<open>None\<close> is the overflow result.\<close>

definition pg_sub_s32_overflow :: "32 word \<Rightarrow> 32 word \<Rightarrow> 32 word option" where
  "pg_sub_s32_overflow a b =
     (let res = sint a - sint b in
      if res > 2147483647 \<or> res < -2147483648 then None else Some (word_of_int res))"

definition pg_mul_s32_overflow :: "32 word \<Rightarrow> 32 word \<Rightarrow> 32 word option" where
  "pg_mul_s32_overflow a b =
     (let res = sint a * sint b in
      if res > 2147483647 \<or> res < -2147483648 then None else Some (word_of_int res))"

definition pg_sub_s64_overflow :: "64 word \<Rightarrow> 64 word \<Rightarrow> 64 word option" where
  "pg_sub_s64_overflow a b =
     (let res = sint a - sint b in
      if res > 9223372036854775807 \<or> res < -9223372036854775808 then None else Some (word_of_int res))"

definition pg_mul_s64_overflow :: "64 word \<Rightarrow> 64 word \<Rightarrow> 64 word option" where
  "pg_mul_s64_overflow a b =
     (let res = sint a * sint b in
      if res > 9223372036854775807 \<or> res < -9223372036854775808 then None else Some (word_of_int res))"

text \<open>
  \<open>pg_strtoint32\<close> and \<open>scanint8\<close> are the same scan at two widths: the number is
  accumulated as a negative one. The operations of the width and the name of the type
  in the error messages are arguments.
\<close>

fun digits_loop ::
  "('w word \<Rightarrow> 'w word \<Rightarrow> 'w word option) \<Rightarrow> ('w word \<Rightarrow> 'w word \<Rightarrow> 'w word option)
     \<Rightarrow> string \<Rightarrow> ('w::len) word \<Rightarrow> ('w word \<times> string) option" where
  "digits_loop mul sub [] tmp = Some (tmp, [])"
| "digits_loop mul sub (c # ptr) tmp =
     (if isdigit c then
        Option.bind (mul tmp 10) (\<lambda>tmp.
        Option.bind (sub tmp (word_of_int (of_char c - 48))) (\<lambda>tmp.
        digits_loop mul sub ptr tmp))
      else Some (tmp, c # ptr))"

definition scan_int ::
  "('w word \<Rightarrow> 'w word \<Rightarrow> 'w word option) \<Rightarrow> ('w word \<Rightarrow> 'w word \<Rightarrow> 'w word option)
     \<Rightarrow> string \<Rightarrow> string \<Rightarrow> ('w::len) word res" where
  "scan_int mul sub typname s =
     (let ptr = dropWhile isspace s;
          neg = (ptr \<noteq> [] \<and> hd ptr = CHR ''-'');
          ptr = (if ptr \<noteq> [] \<and> hd ptr \<in> {CHR ''-'', CHR ''+''} then tl ptr else ptr)
      in if ptr = [] \<or> \<not> isdigit (hd ptr) then Inl (Invalid_input_syntax typname)
         else
           case digits_loop mul sub ptr 0 of
             None \<Rightarrow> Inl (Value_out_of_range typname)
           | Some (tmp, ptr) \<Rightarrow>
               if dropWhile isspace ptr \<noteq> [] then Inl (Invalid_input_syntax typname)
               else if neg then Inr tmp
               else if sint tmp = - (2 ^ (LENGTH('w) - 1)) then Inl (Value_out_of_range typname)
               else Inr (- tmp))"

definition pg_strtoint32 :: "string \<Rightarrow> 32 word res" where
  "pg_strtoint32 = scan_int pg_mul_s32_overflow pg_sub_s32_overflow ''integer''"

definition int4in :: "string \<Rightarrow> Datum res" where
  "int4in num = rbind (pg_strtoint32 num) (\<lambda>v. Inr (Int32GetDatum v))"

text \<open>\<open>scanint8\<close> returns false (here \<open>None\<close>) or raises its error, as \<open>errorOK\<close> says.\<close>

definition scanint8 :: "string \<Rightarrow> bool \<Rightarrow> 64 word option res" where
  "scanint8 str errorOK =
     (case scan_int pg_mul_s64_overflow pg_sub_s64_overflow ''bigint'' str of
        Inl e \<Rightarrow> if errorOK then Inr None else Inl e
      | Inr v \<Rightarrow> Inr (Some v))"

definition int8in :: "string \<Rightarrow> Datum res" where
  "int8in str =
     rbind (scanint8 str False) (\<lambda>r. case r of None \<Rightarrow> Inl Undefined_behavior | Some v \<Rightarrow> Inr v)"

section \<open>Decimal numerals\<close>

definition dig :: "nat \<Rightarrow> char" where
  "dig n = char_of (48 + n)"

fun dec :: "nat \<Rightarrow> string" where
  "dec n = (if n < 10 then [dig n] else dec (n div 10) @ [dig (n mod 10)])"

declare dec.simps [simp del]

lemma dec_small: "n < 10 \<Longrightarrow> dec n = [dig n]"
  by (subst dec.simps) simp

lemma dec_step: "10 \<le> n \<Longrightarrow> dec n = dec (n div 10) @ [dig (n mod 10)]"
  by (subst dec.simps) simp

definition two_digits :: "nat \<Rightarrow> string" where
  "two_digits c = [dig (c div 10), dig (c mod 10)]"

lemma dec_100: "100 \<le> n \<Longrightarrow> dec n = dec (n div 100) @ two_digits (n mod 100)"
  using dec_step [of n] dec_step [of "n div 10"]
  by (simp add: two_digits_def div_mult2_eq [symmetric] mod_mult2_eq [of n 10 10, simplified]
      div_le_mono [of 100 n 10, simplified])

lemma dec_two: "10 \<le> n \<Longrightarrow> n < 100 \<Longrightarrow> dec n = two_digits n"
  using dec_step [of n] by (simp add: two_digits_def dec_small)

lemma dec_10000:
  assumes "10000 \<le> n"
  shows "dec n = dec (n div 10000) @ two_digits (n mod 10000 div 100) @ two_digits (n mod 10000 mod 100)"
proof -
  have a: "n mod 10000 = 100 * (n div 100 mod 100) + n mod 100" using mod_mult2_eq [of n 100 100] by simp
  have b: "n mod 10000 mod 100 = n mod 100" "n mod 10000 div 100 = n div 100 mod 100"
    unfolding a by simp_all
  have "100 \<le> n div 100" using assms div_le_mono [of 10000 n 100] by simp
  then have "dec (n div 100) = dec (n div 10000) @ two_digits (n div 100 mod 100)"
    using dec_100 [of "n div 100"] by (simp add: div_mult2_eq [symmetric])
  then show ?thesis using dec_100 [of n] assms unfolding b by simp
qed

lemma dec_nonempty [simp]: "dec n \<noteq> []"
  by (subst dec.simps) simp

lemma dec_length: "10 ^ k \<le> n \<Longrightarrow> n < 10 ^ Suc k \<Longrightarrow> length (dec n) = Suc k"
proof (induction k arbitrary: n)
  case 0
  then show ?case by (simp add: dec_small)
next
  case (Suc k)
  then have "10 ^ k \<le> n div 10" "n div 10 < 10 ^ Suc k"
    using div_le_mono [of "10 ^ Suc k" n 10] by (auto simp: less_mult_imp_div_less)
  moreover have "10 \<le> n" using Suc.prems(1) by (rule order.trans [rotated]) simp
  ultimately show ?case using Suc.IH [of "n div 10"] by (simp add: dec_step)
qed

section \<open>The length estimate\<close>

lemma leftmost_shift:
  fixes w :: "'w::len word"
  assumes "w \<noteq> 0" and "drop_bit (s + 8) w = 0" and "8 dvd s"
  shows "drop_bit (leftmost_shift w s) w \<noteq> 0 \<and> drop_bit (leftmost_shift w s + 8) w = 0 \<and> leftmost_shift w s \<le> s"
  using assms
proof (induction w s rule: leftmost_shift.induct)
  case (1 w s)
  show ?case
  proof (cases "drop_bit s w = 0 \<and> 8 \<le> s")
    case True
    moreover have "8 dvd s - 8" using True "1.prems"(3) by (simp add: dvd_diff_nat)
    ultimately show ?thesis
      using "1.IH" [OF True "1.prems"(1)] by (subst (1 2 3) leftmost_shift.simps) (auto intro: le_trans [OF _ diff_le_self])
  next
    case False
    have "drop_bit s w \<noteq> 0"
    proof (cases "s = 0")
      case True then show ?thesis using "1.prems"(1) by simp
    next
      case False': False
      then have "8 \<le> s" using "1.prems"(3) by (auto dest: dvd_imp_le)
      then show ?thesis using False by simp
    qed
    then show ?thesis using False "1.prems"(2) by (subst (1 2 3) leftmost_shift.simps) auto
  qed
qed

lemma leftmost_table:
  assumes "0 < x" "x < 256"
  shows "2 ^ (pg_leftmost_one_pos ! x) \<le> x \<and> x < 2 ^ Suc (pg_leftmost_one_pos ! x)"
proof -
  consider "x = 1" | "2 \<le> x" "x < 4" | "4 \<le> x" "x < 8" | "8 \<le> x" "x < 16" | "16 \<le> x" "x < 32"
    | "32 \<le> x" "x < 64" | "64 \<le> x" "x < 128" | "128 \<le> x" "x < 256"
    using assms by linarith
  then show ?thesis
    by cases (simp_all add: pg_leftmost_one_pos_def nth_append less_diff_conv2)
qed

lemma and_255: "unat ((a :: 'w::len word) AND 255) = unat a mod 256"
proof -
  have "a AND 255 = take_bit 8 a" by (simp add: take_bit_eq_mask mask_eq_exp_minus_1)
  then have "unat (a AND 255) = take_bit 8 (unat a)" by (simp only: unsigned_take_bit_eq)
  then show ?thesis by (simp add: take_bit_eq_mod)
qed

lemma leftmost_pos:
  fixes w :: "'w::len word"
  assumes "w \<noteq> 0" and "drop_bit (s + 8) w = 0" and "8 dvd s"
  defines "p \<equiv> leftmost_shift w s + pg_leftmost_one_pos ! unat (drop_bit (leftmost_shift w s) w AND 255)"
  shows "2 ^ p \<le> unat w \<and> unat w < 2 ^ Suc p"
proof -
  let ?r = "leftmost_shift w s" and ?x = "unat w div 2 ^ leftmost_shift w s"
  have r: "drop_bit ?r w \<noteq> 0" "drop_bit (?r + 8) w = 0" using leftmost_shift [OF assms(1-3)] by auto
  have d: "unat (drop_bit k w) = unat w div 2 ^ k" for k unfolding unat_drop_bit_eq by (simp add: drop_bit_eq_div)
  have x: "0 < ?x" "?x < 256"
  proof -
    show "0 < ?x" using r(1) d [of ?r] by (metis gr_zeroI unat_eq_zero)
    have "unat w div 2 ^ (?r + 8) = 0" using r(2) d [of "?r + 8"] by simp
    then have "unat w div 2 ^ ?r div 256 = 0" by (simp add: power_add div_mult2_eq)
    then show "?x < 256" by (simp add: div_eq_0_iff)
  qed
  have "unat (drop_bit ?r w AND 255) = ?x"
    using x(2) by (simp add: and_255 d)
  then have p: "p = ?r + pg_leftmost_one_pos ! ?x" by (simp add: p_def)
  have l: "?x * 2 ^ ?r \<le> unat w" "unat w < Suc ?x * 2 ^ ?r" by (auto simp: div_times_less_eq_dividend dividend_less_div_times)
  note t = leftmost_table [OF x]
  have "2 ^ p \<le> ?x * 2 ^ ?r" using t by (simp add: p power_add)
  moreover have "Suc ?x * 2 ^ ?r \<le> 2 ^ Suc p"
  proof -
    have "Suc ?x * 2 ^ ?r \<le> 2 ^ Suc (pg_leftmost_one_pos ! ?x) * 2 ^ ?r" using t by (intro mult_right_mono) auto
    then show ?thesis by (simp add: p power_add mult_ac)
  qed
  ultimately show ?thesis using l by linarith
qed


text \<open>1233 / 4096 approximates log10 of 2 well enough for words of up to 64 bits.\<close>

lemma log10_estimate:
  assumes "p < 64"
  defines "t \<equiv> (p + 1) * 1233 div 4096"
  shows "(2 :: nat) ^ Suc p \<le> 10 ^ Suc t" and "t = 0 \<or> (10 :: nat) ^ (t - 1) \<le> 2 ^ p" and "t < 20"
    and "p < 32 \<Longrightarrow> t < 10"
proof -
  have "list_all (\<lambda>p. (2 :: nat) ^ Suc p \<le> 10 ^ Suc ((p + 1) * 1233 div 4096) \<and>
      ((p + 1) * 1233 div 4096 = 0 \<or> (10 :: nat) ^ ((p + 1) * 1233 div 4096 - 1) \<le> 2 ^ p) \<and>
      (p + 1) * 1233 div 4096 < 20 \<and> (p < 32 \<longrightarrow> (p + 1) * 1233 div 4096 < 10)) [0..<64]"
    by (simp add: upt_rec)
  from bspec [OF this [unfolded list_all_iff], of p] assms(1)
  show "(2 :: nat) ^ Suc p \<le> 10 ^ Suc t" and "t = 0 \<or> (10 :: nat) ^ (t - 1) \<le> 2 ^ p"
    and "t < 20" and "p < 32 \<Longrightarrow> t < 10" by (simp_all only: t_def set_upt atLeastLessThan_iff le0)
qed

lemma length_estimate:
  assumes "2 ^ p \<le> n" "n < 2 ^ Suc p" "p < 64"
  defines "t \<equiv> (p + 1) * 1233 div 4096"
  shows "length (dec n) = t + (if 10 ^ t \<le> n then 1 else 0)"
proof (cases "10 ^ t \<le> n")
  case True
  then show ?thesis using dec_length [of t n] assms(2) log10_estimate(1) [OF assms(3)] by (simp add: t_def)
next
  case False
  moreover have "t \<noteq> 0"
  proof
    assume "t = 0"
    then have "n < 1" using False by simp
    moreover have "0 < (2::nat) ^ p" by simp
    ultimately show False using assms(1) by linarith
  qed
  moreover have "10 ^ (t - 1) \<le> n"
    using log10_estimate(2) [OF assms(3)] \<open>t \<noteq> 0\<close> assms(1) by (auto simp: t_def)
  ultimately show ?thesis using dec_length [of "t - 1" n] by simp
qed

lemma unat_powers32: "t < 10 \<Longrightarrow> unat (PowersOfTen32 ! t) = 10 ^ t"
proof -
  have "list_all (\<lambda>t. uint (PowersOfTen32 ! t) = 10 ^ t) [0..<10]" by code_simp
  moreover assume "t < 10"
  ultimately have "uint (PowersOfTen32 ! t) = 10 ^ t" by (simp add: list_all_iff)
  then show ?thesis by (metis nat_uint_eq nat_power_eq nat_numeral zero_le_numeral)
qed

lemma unat_powers64: "t < 20 \<Longrightarrow> unat (PowersOfTen64 ! t) = 10 ^ t"
proof -
  have "list_all (\<lambda>t. uint (PowersOfTen64 ! t) = 10 ^ t) [0..<20]" by code_simp
  moreover assume "t < 20"
  ultimately have "uint (PowersOfTen64 ! t) = 10 ^ t" by (simp add: list_all_iff)
  then show ?thesis by (metis nat_uint_eq nat_power_eq nat_numeral zero_le_numeral)
qed

lemma decimalLength32_dec:
  assumes "v \<noteq> 0"
  shows "decimalLength32 v = int (length (dec (unat v)))"
proof -
  let ?p = "pg_leftmost_one_pos32 v"
  have z: "drop_bit (24 + 8) v = 0" by (rule drop_bit_word_beyond) simp
  have p: "2 ^ ?p \<le> unat v" "unat v < 2 ^ Suc ?p"
    using leftmost_pos [OF assms, of 24] z by (auto simp: pg_leftmost_one_pos32_def Let_def)
  have "(2::nat) ^ ?p < 2 ^ 32" using p(1) unsigned_less [of v] by (auto elim: order.strict_trans1)
  then have "?p < 32" by (rule power_less_imp_less_exp [rotated]) simp
  then show ?thesis
    using length_estimate [OF p] unat_powers32 [OF log10_estimate(4), of ?p]
    by (simp add: decimalLength32_def Let_def word_le_nat_alt)
qed

lemma decimalLength64_dec:
  assumes "v \<noteq> 0"
  shows "decimalLength64 v = int (length (dec (unat v)))"
proof -
  let ?p = "pg_leftmost_one_pos64 v"
  have z: "drop_bit (56 + 8) v = 0" by (rule drop_bit_word_beyond) simp
  have p: "2 ^ ?p \<le> unat v" "unat v < 2 ^ Suc ?p"
    using leftmost_pos [OF assms, of 56] z by (auto simp: pg_leftmost_one_pos64_def Let_def)
  have "(2::nat) ^ ?p < 2 ^ 64" using p(1) unsigned_less [of v] by (auto elim: order.strict_trans1)
  then have "?p < 64" by (rule power_less_imp_less_exp [rotated]) simp
  then show ?thesis
    using length_estimate [OF p] unat_powers64 [OF log10_estimate(3), of ?p]
    by (simp add: decimalLength64_def Let_def word_le_nat_alt)
qed

section \<open>The conversions write decimal numerals\<close>

lemma dig_simps: "dig 0 = CHR ''0''" "dig (Suc 0) = CHR ''1''" "dig 2 = CHR ''2''" "dig 3 = CHR ''3''" "dig 4 = CHR ''4''"
  "dig 5 = CHR ''5''" "dig 6 = CHR ''6''" "dig 7 = CHR ''7''" "dig 8 = CHR ''8''" "dig 9 = CHR ''9''"
  by code_simp+

lemma length_two_digits [simp]: "length (two_digits c) = 2"
  by (simp add: two_digits_def)

lemma DIGIT_TABLE_concat: "DIGIT_TABLE = concat (map two_digits [0..<100])"
  by (simp add: DIGIT_TABLE_def two_digits_def upt_rec dig_simps dig_simps(3) [unfolded numeral_2_eq_2])

lemma digit_table: "c < 100 \<Longrightarrow> take 2 (drop (2 * c) DIGIT_TABLE) = two_digits c"
proof -
  have d: "drop (2 * c) (concat (map two_digits xs)) = concat (map two_digits (drop c xs))" for xs
  proof (induction xs arbitrary: c)
    case (Cons x xs)
    then show ?case by (cases c) (simp_all add: two_digits_def)
  qed simp
  assume "c < 100"
  then have u: "drop c [0..<100] = c # [Suc c..<100]" using upt_conv_Cons [of c 100] drop_upt [of c 0 100] by (simp only: add_0)
  show "take 2 (drop (2 * c) DIGIT_TABLE) = two_digits c"
    unfolding DIGIT_TABLE_concat d u by (simp add: two_digits_def)
qed

lemma unat_push1: "unat (c :: 32 word) < 100 \<Longrightarrow> unat (push_bit 1 c) = 2 * unat c"
  by (simp add: push_bit_eq_mult unat_word_ariths)

lemma put_pair_eq:
  assumes "unat c < 100" and "nat pos + 2 \<le> length a" and "0 \<le> pos"
  shows "put_pair a pos (push_bit 1 c) = Inr (take (nat pos) a @ two_digits (unat c) @ drop (nat pos + 2) a)"
proof -
  have u: "unat (push_bit 1 c) = 2 * unat c" using assms(1) by (rule unat_push1)
  show ?thesis
    unfolding put_pair_def u digit_table [OF assms(1)] memcpy_at_def using assms by simp
qed

lemma put_four_eq:
  assumes "unat c < 10000" and "nat pos \<le> length a" and "4 \<le> pos"
  shows "put_four a pos c =
    Inr (take (nat pos - 4) a @ two_digits (unat c div 100) @ two_digits (unat c mod 100) @ drop (nat pos) a)"
proof -
  have c: "unat (c mod 100) = unat c mod 100" "unat (c div 100) = unat c div 100" by (simp_all add: unat_mod unat_div)
  then have l: "unat (c mod 100) < 100" "unat (c div 100) < 100" using assms(1) by auto
  have p: "nat (pos - 2) = nat pos - 2" "nat (pos - 4) = nat pos - 4" using assms(3) by auto
  have n: "4 \<le> nat pos" using assms(3) by simp
  let ?a1 = "take (nat pos - 2) a @ two_digits (unat c mod 100) @ drop (nat pos) a"
  have "put_pair a (pos - 2) (push_bit 1 (c mod 100)) = Inr ?a1"
  proof -
    have "nat pos - 2 + 2 = nat pos" using n by simp
    then show ?thesis using put_pair_eq [OF l(1), of "pos - 2" a, unfolded c p] assms by simp
  qed
  moreover have "put_pair ?a1 (pos - 4) (push_bit 1 (c div 100)) =
      Inr (take (nat pos - 4) ?a1 @ two_digits (unat c div 100) @ drop (nat pos - 4 + 2) ?a1)"
    using put_pair_eq [OF l(2), of "pos - 4" ?a1] assms n unfolding c p by simp
  moreover have "take (nat pos - 4) ?a1 = take (nat pos - 4) a" using assms(2) n by simp
  moreover have "drop (nat pos - 4 + 2) ?a1 = two_digits (unat c mod 100) @ drop (nat pos) a" using assms(2) n by simp
  ultimately show ?thesis unfolding put_four_def by simp
qed


text \<open>
  The common invariant: the digits still to be written are those of the value that is
  left, and they go to the front of the buffer.
\<close>

lemma ultoa_tail_eq:
  assumes "unat v < 10000" and len: "olength - i = int (length (dec (unat v)))" and "length (dec (unat v)) \<le> length a"
  shows "ultoa_tail olength v i a = Inr (dec (unat v) @ drop (length (dec (unat v))) a)"
proof -
  have u: "unat (v mod 100) = unat v mod 100" "unat (v div 100) = unat v div 100" by (simp_all add: unat_mod unat_div)
  have cmp: "v \<ge> 100 \<longleftrightarrow> 100 \<le> unat v" "w \<ge> 10 \<longleftrightarrow> 10 \<le> unat w" for w :: "32 word" by (simp_all add: word_le_nat_alt)
  have small: "(if w \<ge> 10 then put_pair b (olength - j - 2) (push_bit 1 w) else memcpy_at b 0 [char_of (48 + unat w)]) =
      Inr (dec (unat w) @ drop (length (dec (unat w))) b)"
    if "unat w < 100" "olength - j = int (length (dec (unat w)))" "length (dec (unat w)) \<le> length b" for w b j
  proof (cases "10 \<le> unat w")
    case True
    then have d: "dec (unat w) = two_digits (unat w)" using dec_two that(1) by simp
    then have "olength - j - 2 = 0" "2 \<le> length b" using that(2,3) by simp_all
    then show ?thesis using put_pair_eq [OF that(1), of "olength - j - 2" b] True d by (simp add: cmp numeral_2_eq_2)
  next
    case False
    then show ?thesis using that by (simp add: cmp dec_small dig_def memcpy_at_def)
  qed
  show ?thesis
  proof (cases "100 \<le> unat v")
    case True
    let ?n = "length (dec (unat v div 100))"
    let ?a = "take ?n a @ two_digits (unat v mod 100) @ drop (?n + 2) a"
    have d: "dec (unat v) = dec (unat v div 100) @ two_digits (unat v mod 100)" using True by (rule dec_100)
    have p: "olength - i - 2 = int ?n" "?n + 2 \<le> length a" using assms(2,3) d by simp_all
    have l: "unat (v mod 100) < 100" "unat (v div 100) < 100" unfolding u using assms(1) by auto
    have "put_pair a (olength - i - 2) (push_bit 1 (v mod 100)) = Inr ?a"
      using put_pair_eq [OF l(1), of "int ?n" a] p unfolding u by simp
    then have "ultoa_tail olength v i a = (if v div 100 \<ge> 10 then put_pair ?a (olength - (i + 2) - 2) (push_bit 1 (v div 100))
      else memcpy_at ?a 0 [char_of (48 + unat (v div 100))])"
      using True unfolding ultoa_tail_def cmp(1) by simp
    also have "\<dots> = Inr (dec (unat v div 100) @ drop ?n ?a)"
      using small [OF l(2), of "i + 2" ?a] p unfolding u by (simp del: push_bit_Suc)
    also have "\<dots> = Inr (dec (unat v) @ drop (length (dec (unat v))) a)"
      using p(2) by (simp add: d)
    finally show ?thesis .
  next
    case False
    then show ?thesis
      using small [of v i a] assms(2,3) unfolding ultoa_tail_def cmp(1) by (simp del: push_bit_Suc)
  qed
qed

lemma four_digits:
  assumes "10000 \<le> unat v" and "olength - i = int (length (dec (unat v)))" and "length (dec (unat v)) \<le> length a"
    and c: "unat c = unat v mod 10000"
  defines "n \<equiv> length (dec (unat v div 10000))"
  shows "\<exists>a'. put_four a (olength - i) c = Inr a' \<and> length a' = length a \<and>
    olength - (i + 4) = int n \<and> n + 4 \<le> length a \<and> length (dec (unat v)) = n + 4 \<and>
    dec (unat v div 10000) @ drop n a' = dec (unat v) @ drop (length (dec (unat v))) a"
proof -
  let ?c = "unat v mod 10000"
  let ?a = "take n a @ two_digits (?c div 100) @ two_digits (?c mod 100) @ drop (n + 4) a"
  note d = dec_10000 [OF assms(1)]
  have p: "olength - i = int n + 4" "n + 4 \<le> length a" using assms(2,3) d by (simp_all add: n_def)
  have "put_four a (olength - i) c = Inr ?a"
    using put_four_eq [of c "olength - i" a] p unfolding c by (simp add: nat_add_distrib)
  then show ?thesis
    using p by (intro exI [of _ ?a]) (simp add: d n_def)
qed

lemma ultoa_loop_eq:
  assumes "olength - i = int (length (dec (unat v)))" and "length (dec (unat v)) \<le> length a"
  shows "rbind (ultoa_loop olength v i a) (\<lambda>(v, i, a). ultoa_tail olength v i a) =
    Inr (dec (unat v) @ drop (length (dec (unat v))) a)"
  using assms
proof (induction olength v i a rule: ultoa_loop.induct)
  case (1 olength v i a)
  show ?case
  proof (cases "v \<ge> 10000")
    case True
    then have v: "10000 \<le> unat v" by (simp add: word_le_nat_alt)
    have c: "unat (v - 10000 * (v div 10000)) = unat v mod 10000"
      using minus_mult_div_eq_mod [of v 10000] by (simp add: unat_mod)
    have u: "unat (v div 10000) = unat v div 10000" by (simp add: unat_div)
    from four_digits [OF v "1.prems" c] obtain a' where a':
      "put_four a (olength - i) (v - 10000 * (v div 10000)) = Inr a'" "length a' = length a"
      "olength - (i + 4) = int (length (dec (unat v div 10000)))" "length (dec (unat v div 10000)) + 4 \<le> length a"
      "dec (unat v div 10000) @ drop (length (dec (unat v div 10000))) a' = dec (unat v) @ drop (length (dec (unat v))) a" by blast
    have "ultoa_loop olength v i a = ultoa_loop olength (v div 10000) (i + 4) a'"
      using True a'(1) by (subst ultoa_loop.simps) simp
    then show ?thesis using "1.IH" [OF True, of a'] a' unfolding u by simp
  next
    case False
    then show ?thesis
      using "1.prems" ultoa_tail_eq [of v olength i a] by (subst ultoa_loop.simps) (simp add: word_le_nat_alt not_le)
  qed
qed

lemma pg_ultoa_n_eq:
  assumes "length (dec (unat v)) \<le> length a"
  shows "pg_ultoa_n v a = Inr (int (length (dec (unat v))), dec (unat v) @ drop (length (dec (unat v))) a)"
proof (cases "v = 0")
  case True
  then show ?thesis using assms by (simp add: pg_ultoa_n_def memcpy_at_def dec_small dig_simps)
next
  case False
  then show ?thesis
    using ultoa_loop_eq [of "decimalLength32 v" 0 v a] assms decimalLength32_dec [OF False]
    by (auto simp: pg_ultoa_n_def Let_def rbind_Inr_iff split: prod.splits)
qed

lemma four_digits_32:
  assumes "10000 \<le> v" and "olength - i = int (length (dec (unat v)))" and "length (dec (unat v)) \<le> length a"
    and "unat v div 10000 < 10000"
  shows "rbind (put_four a (olength - i) (v - 10000 * (v div 10000))) (\<lambda>a. ultoa_tail olength (v div 10000) (i + 4) a) =
    Inr (dec (unat v) @ drop (length (dec (unat v))) a)"
proof -
  have v: "10000 \<le> unat v" using assms(1) by (simp add: word_le_nat_alt)
  have "unat (v - 10000 * (v div 10000)) = unat v mod 10000"
    using minus_mult_div_eq_mod [of v 10000] by (simp add: unat_mod)
  from four_digits [OF v assms(2,3) this] obtain a' where a': "put_four a (olength - i) (v - 10000 * (v div 10000)) = Inr a'"
    "length a' = length a" "olength - (i + 4) = int (length (dec (unat v div 10000)))" "length (dec (unat v div 10000)) + 4 \<le> length a"
    "dec (unat v div 10000) @ drop (length (dec (unat v div 10000))) a' = dec (unat v) @ drop (length (dec (unat v))) a" by blast
  have u: "unat (v div 10000) = unat v div 10000" by (simp add: unat_div)
  show ?thesis using ultoa_tail_eq [of "v div 10000" olength "i + 4" a'] a' assms(4) unfolding u by simp
qed

lemma ulltoa_rest_eq:
  assumes "unat v < 100000000" and "olength - i = int (length (dec (unat v)))" and "length (dec (unat v)) \<le> length a"
  shows "(let value2 = ucast (v :: 64 word) :: 32 word in
        rbind (if value2 \<ge> 10000
               then rbind (put_four a (olength - i) (value2 - 10000 * (value2 div 10000)))
                      (\<lambda>a. Inr (value2 div 10000, i + 4, a))
               else Inr (value2, i, a)) (\<lambda>(value2, i, a). ultoa_tail olength value2 i a)) =
     Inr (dec (unat v) @ drop (length (dec (unat v))) a)"
proof -
  have u: "unat (ucast v :: 32 word) = unat v"
    using assms(1) unfolding unsigned_ucast_eq by (simp add: take_bit_eq_mod)
  let ?w = "ucast v :: 32 word"
  show ?thesis
  proof (cases "?w \<ge> 10000")
    case True
    moreover have "unat v div 10000 < 10000" using assms(1) by (simp add: less_mult_imp_div_less)
    ultimately show ?thesis
      using four_digits_32 [of ?w olength i a, unfolded u] assms by (auto simp: Let_def rbind_def split: sum.splits)
  next
    case False
    then have "unat v < 10000" using u by (simp add: word_le_nat_alt)
    then show ?thesis using False ultoa_tail_eq [of ?w olength i a, unfolded u] assms by (simp add: Let_def)
  qed
qed

lemma split_eight:
  fixes v :: "64 word"
  defines "q \<equiv> v div 100000000"
  defines "w \<equiv> ucast (v - 100000000 * q) :: 32 word"
  shows "unat q = unat v div 10000 div 10000" "unat (w mod 10000) = unat v mod 10000"
    "unat (w div 10000) = unat v div 10000 mod 10000"
proof -
  have "unat (v - 100000000 * q) = unat v mod 100000000"
    using minus_mult_div_eq_mod [of v 100000000] by (simp add: q_def unat_mod)
  then have w: "unat w = unat v mod 100000000" unfolding w_def unsigned_ucast_eq by (simp add: take_bit_eq_mod)
  have m: "unat v mod 100000000 = 10000 * (unat v div 10000 mod 10000) + unat v mod 10000"
    using mod_mult2_eq [of "unat v" 10000 10000] by simp
  show "unat q = unat v div 10000 div 10000" by (simp add: q_def unat_div div_mult2_eq [symmetric])
  show "unat (w mod 10000) = unat v mod 10000" unfolding unat_mod w m by simp
  show "unat (w div 10000) = unat v div 10000 mod 10000" unfolding unat_div w m by simp
qed

lemma ulltoa_loop_eq:
  assumes "olength - i = int (length (dec (unat v)))" and "length (dec (unat v)) \<le> length a"
  shows "\<exists>v' i' a'. ulltoa_loop olength v i a = Inr (v', i', a') \<and> unat v' < 100000000 \<and>
    olength - i' = int (length (dec (unat v'))) \<and> length (dec (unat v')) \<le> length a' \<and>
    dec (unat v') @ drop (length (dec (unat v'))) a' = dec (unat v) @ drop (length (dec (unat v))) a"
  using assms
proof (induction olength v i a rule: ulltoa_loop.induct)
  case (1 olength v i a)
  show ?case
  proof (cases "v \<ge> 100000000")
    case True
    let ?q = "v div 100000000"
    let ?w = "ucast (v - 100000000 * ?q) :: 32 word"
    note s = split_eight [of v]
    have v: "100000000 \<le> unat v" using True by (simp add: word_le_nat_alt)
    then have v1: "10000 \<le> unat v" by simp
    have v2: "10000 \<le> unat v div 10000" using v div_le_mono [of 100000000 "unat v" 10000] by simp
    from four_digits [OF v1 "1.prems" s(2)] obtain a1 where a1:
      "put_four a (olength - i) (?w mod 10000) = Inr a1" "length a1 = length a"
      "olength - (i + 4) = int (length (dec (unat v div 10000)))" "length (dec (unat v div 10000)) + 4 \<le> length a"
      "dec (unat v div 10000) @ drop (length (dec (unat v div 10000))) a1 = dec (unat v) @ drop (length (dec (unat v))) a" by blast
    define v' :: "64 word" where "v' = v div 10000"
    have u': "unat v' = unat v div 10000" by (simp add: v'_def unat_div)
    have "olength - (i + 4) = int (length (dec (unat v')))" "length (dec (unat v')) \<le> length a1" "10000 \<le> unat v'"
      "unat (?w div 10000) = unat v' mod 10000"
      using a1 v2 s(3) by (simp_all add: u')
    from four_digits [OF this(3,1,2,4)] obtain a2 where a2:
      "put_four a1 (olength - (i + 4)) (?w div 10000) = Inr a2" "length a2 = length a1"
      "olength - (i + 4 + 4) = int (length (dec (unat ?q)))" "length (dec (unat ?q)) + 4 \<le> length a1"
      "dec (unat ?q) @ drop (length (dec (unat ?q))) a2 = dec (unat v') @ drop (length (dec (unat v'))) a1"
      unfolding u' s(1) [symmetric] by blast
    have i: "i + 4 + 4 = i + 8" "olength - (i + 4) = olength - i - 4" by simp_all
    have step: "ulltoa_loop olength v i a = ulltoa_loop olength ?q (i + 8) a2"
      using True a1(1) a2(1) by (subst ulltoa_loop.simps) (simp add: Let_def i)
    have "length (dec (unat ?q)) \<le> length a2" using a2 by simp
    with "1.IH" [OF True refl refl, of a2] a2(3) obtain v'' i'' a'' where
      "ulltoa_loop olength ?q (i + 8) a2 = Inr (v'', i'', a'')" "unat v'' < 100000000"
      "olength - i'' = int (length (dec (unat v'')))" "length (dec (unat v'')) \<le> length a''"
      "dec (unat v'') @ drop (length (dec (unat v''))) a'' = dec (unat ?q) @ drop (length (dec (unat ?q))) a2"
      unfolding i by blast
    then show ?thesis unfolding step a2(5) u' a1(5) by blast
  next
    case False
    then show ?thesis using "1.prems" by (subst ulltoa_loop.simps) (simp add: word_le_nat_alt not_le)
  qed
qed

lemma pg_ulltoa_n_eq:
  assumes "length (dec (unat v)) \<le> length a"
  shows "pg_ulltoa_n v a = Inr (int (length (dec (unat v))), dec (unat v) @ drop (length (dec (unat v))) a)"
proof (cases "v = 0")
  case True
  then show ?thesis using assms by (simp add: pg_ulltoa_n_def memcpy_at_def dec_small dig_simps)
next
  case False
  from ulltoa_loop_eq [of "decimalLength64 v" 0 v a] assms decimalLength64_dec [OF False] obtain v' i' a' where
    l: "ulltoa_loop (decimalLength64 v) v 0 a = Inr (v', i', a')" "unat v' < 100000000"
    "decimalLength64 v - i' = int (length (dec (unat v')))" "length (dec (unat v')) \<le> length a'"
    "dec (unat v') @ drop (length (dec (unat v'))) a' = dec (unat v) @ drop (length (dec (unat v))) a" by auto
  from ulltoa_rest_eq [OF l(2,3,4)] show ?thesis
    using False l(1,5) decimalLength64_dec [OF False]
    by (auto simp: pg_ulltoa_n_def Let_def rbind_Inr_iff split: prod.splits if_splits)
qed


text \<open>The text of a signed integer.\<close>

definition int_text :: "int \<Rightarrow> string" where
  "int_text x = (if x < 0 then ''-'' else []) @ dec (nat \<bar>x\<bar>)"

lemma dig_not_nul: "n < 10 \<Longrightarrow> dig n \<noteq> CHR 0x00" "n < 10 \<Longrightarrow> isdigit (dig n)" "n < 10 \<Longrightarrow> of_char (dig n) - 48 = int n"
  "n < 10 \<Longrightarrow> dig n \<noteq> CHR ''-''" "n < 10 \<Longrightarrow> dig n \<noteq> CHR ''+''" "n < 10 \<Longrightarrow> \<not> isspace (dig n)"
proof -
  have "list_all (\<lambda>n. dig n \<noteq> CHR 0x00 \<and> isdigit (dig n) \<and> of_char (dig n) - 48 = int n \<and> dig n \<noteq> CHR ''-''
      \<and> dig n \<noteq> CHR ''+'' \<and> \<not> isspace (dig n)) [0..<10]"
    by code_simp
  then have *: "\<forall>n \<in> {0..<10}. dig n \<noteq> CHR 0x00 \<and> isdigit (dig n) \<and> of_char (dig n) - 48 = int n \<and> dig n \<noteq> CHR ''-''
      \<and> dig n \<noteq> CHR ''+'' \<and> \<not> isspace (dig n)"
    by (simp only: list_all_iff set_upt)
  assume "n < 10"
  with bspec [OF *, of n] show "dig n \<noteq> CHR 0x00" "isdigit (dig n)" "of_char (dig n) - 48 = int n"
    "dig n \<noteq> CHR ''-''" "dig n \<noteq> CHR ''+''" "\<not> isspace (dig n)" by auto
qed

lemma set_dec: "set (dec n) \<subseteq> dig ` {0..<10}"
proof (induction n rule: dec.induct)
  case (1 n)
  then show ?case by (subst dec.simps) auto
qed

lemma dec_no_nul: "CHR 0x00 \<notin> set (dec n)"
  using set_dec dig_not_nul(1) by fastforce

lemma with_sign_eq:
  assumes conv: "\<And>a. length (dec n) \<le> length a \<Longrightarrow> conv a = Inr (int (length (dec n)), dec n @ drop (length (dec n)) a)"
    and "length (dec n) + 2 \<le> length a"
  shows "rbind (with_sign neg conv a) cstring = Inr ((if neg then ''-'' else []) @ dec n)"
proof -
  have tw: "takeWhile (\<lambda>c. c \<noteq> CHR 0x00) (dec n @ CHR 0x00 # xs) = dec n" for xs
    using dec_no_nul by (subst takeWhile_append2) auto
  show ?thesis
    using assms(2) conv [of a] conv [of "tl ((CHR ''-'') # drop 1 a)"] tw
    by (auto simp: with_sign_def memcpy_at_def cstring_def)
qed

lemma uminus_word_int: "sint (v :: 'w::len word) < 0 \<Longrightarrow> int (unat (0 - v)) = - sint v"
proof -
  assume "sint v < 0"
  have r: "- (2 ^ (LENGTH('w) - 1)) \<le> sint v" using sint_ge [of v] by simp
  have "uint (- v) = (- sint v) mod 2 ^ LENGTH('w)"
    using uint_word_of_int [of "- sint v", where 'a = 'w] by simp
  moreover have "- sint v < 2 ^ LENGTH('w)"
  proof -
    have "(2::int) ^ (LENGTH('w) - 1) < 2 ^ LENGTH('w)" by (intro power_strict_increasing) auto
    then show ?thesis using r by linarith
  qed
  ultimately show ?thesis using \<open>sint v < 0\<close> by simp
qed

lemma magnitude: "unat (if sint v < 0 then 0 - v else v) = nat \<bar>sint (v :: 'w::len word)\<bar>"
proof (cases "sint v < 0")
  case True
  then show ?thesis using uminus_word_int [OF True] by (simp flip: nat_uint_eq)
next
  case False
  have "(2::int) ^ (LENGTH('w) - 1) < 2 ^ LENGTH('w)" by (intro power_strict_increasing) auto
  then have "sint v < 2 ^ LENGTH('w)" using sint_lt [of v] by linarith
  then have "uint v = sint v" using False uint_word_of_int [of "sint v", where 'a = 'w] by simp
  then show ?thesis using False by (simp flip: nat_uint_eq)
qed

lemma dec_length_le: "n < 10 ^ k \<Longrightarrow> 0 < k \<Longrightarrow> length (dec n) \<le> k"
proof (induction k arbitrary: n)
  case (Suc k)
  show ?case
  proof (cases "n < 10")
    case True then show ?thesis by (simp add: dec_small)
  next
    case False
    then have "n div 10 < 10 ^ k" "0 < k" using Suc.prems(1) by (auto simp: less_mult_imp_div_less intro: gr0I)
    then show ?thesis using Suc.IH [of "n div 10"] False by (simp add: dec_step)
  qed
qed simp

lemma pg_ltoa_text:
  assumes "12 \<le> length buf"
  shows "rbind (pg_ltoa w buf) cstring = Inr (int_text (sint w))"
proof -
  let ?n = "nat \<bar>sint w\<bar>"
  have "\<bar>sint w\<bar> < 10 ^ 10" using sint_range32 [of w] by auto
  then have "?n < 10 ^ 10" by (simp add: nat_less_iff)
  then have l: "length (dec ?n) \<le> 10" using dec_length_le [of ?n 10] by simp
  show ?thesis
    unfolding pg_ltoa_def int_text_def
  proof (rule with_sign_eq)
    show "length (dec ?n) + 2 \<le> length buf" using l assms by simp
    show "pg_ultoa_n (if sint w < 0 then 0 - w else w) a =
        Inr (int (length (dec ?n)), dec ?n @ drop (length (dec ?n)) a)" if "length (dec ?n) \<le> length a" for a
      using pg_ultoa_n_eq [of "if sint w < 0 then 0 - w else w" a] that unfolding magnitude .
  qed
qed

lemma pg_lltoa_text:
  assumes "MAXINT8LEN + 1 \<le> length buf"
  shows "rbind (pg_lltoa w buf) cstring = Inr (int_text (sint w))"
proof -
  let ?n = "nat \<bar>sint w\<bar>"
  have "\<bar>sint w\<bar> < 10 ^ 19" using sint_range64 [of w] by auto
  then have "?n < 10 ^ 19" by (simp add: nat_less_iff)
  then have l: "length (dec ?n) \<le> 19" using dec_length_le [of ?n 19] by simp
  show ?thesis
    unfolding pg_lltoa_def int_text_def
  proof (rule with_sign_eq)
    show "length (dec ?n) + 2 \<le> length buf" using l assms by (simp add: MAXINT8LEN_def)
    show "pg_ulltoa_n (if sint w < 0 then 0 - w else w) a =
        Inr (int (length (dec ?n)), dec ?n @ drop (length (dec ?n)) a)" if "length (dec ?n) \<le> length a" for a
      using pg_ulltoa_n_eq [of "if sint w < 0 then 0 - w else w" a] that unfolding magnitude .
  qed
qed

lemma int4out_text: "int4out v = Inr (int_text (sint (DatumGetInt32 v)))"
  unfolding int4out_def by (rule pg_ltoa_text) (simp add: palloc_def)

lemma int8out_text: "int8out v = Inr (int_text (sint v))"
  unfolding int8out_def by (rule pg_lltoa_text) (simp add: palloc_def)

section \<open>The scan reads decimal numerals\<close>

definition fits :: "'w::len itself \<Rightarrow> int \<Rightarrow> bool" where
  "fits t x \<longleftrightarrow> - (2 ^ (LENGTH('w) - 1)) \<le> x \<and> x < 2 ^ (LENGTH('w) - 1)"

text \<open>The checked arithmetic the scan relies on.\<close>

locale checked_arith =
  fixes mul sub :: "'w::len word \<Rightarrow> 'w word \<Rightarrow> 'w word option"
  assumes mul: "mul a b = (if fits TYPE('w) (sint a * sint b) then Some (word_of_int (sint a * sint b)) else None)"
    and sub: "sub a b = (if fits TYPE('w) (sint a - sint b) then Some (word_of_int (sint a - sint b)) else None)"
    and width: "5 \<le> LENGTH('w)"
begin

lemma sint_fits: "fits TYPE('w) x \<Longrightarrow> sint (word_of_int x :: 'w word) = x"
  using sint_of_bounded [where 'w = 'w, of x] by (simp add: fits_def)

lemma fits_small: "0 \<le> x \<Longrightarrow> x \<le> 10 \<Longrightarrow> fits TYPE('w) x"
proof -
  have "(2::int) ^ 4 \<le> 2 ^ (LENGTH('w) - 1)" using width by (intro power_increasing) auto
  then show "0 \<le> x \<Longrightarrow> x \<le> 10 \<Longrightarrow> fits TYPE('w) x" by (simp add: fits_def)
qed

lemma digit_step:
  assumes "d < 10" and "fits TYPE('w) (- int m)"
  shows "digits_loop mul sub (dig d # rest) (word_of_int (- int m)) =
    (if fits TYPE('w) (- int (m * 10 + d)) then digits_loop mul sub rest (word_of_int (- int (m * 10 + d))) else None)"
proof -
  have t: "sint (10 :: 'w word) = 10" "sint (word_of_int (int d) :: 'w word) = int d"
    using sint_fits [OF fits_small, of 10] sint_fits [OF fits_small, of "int d"] assms(1) by simp_all
  have n: "- int m * 10 - int d = - int (m * 10 + d)" by simp
  have mulr: "mul (word_of_int (- int m)) 10 =
      (if fits TYPE('w) (- int m * 10) then Some (word_of_int (- int m * 10)) else None)"
    unfolding mul t sint_fits [OF assms(2)] ..
  have subr: "sub (word_of_int (- int m * 10)) (word_of_int (int d)) =
      (if fits TYPE('w) (- int (m * 10 + d)) then Some (word_of_int (- int (m * 10 + d))) else None)"
    if "fits TYPE('w) (- int m * 10)"
    unfolding sub sint_fits [OF that] t n ..
  have f: "fits TYPE('w) (- int (m * 10 + d)) \<Longrightarrow> fits TYPE('w) (- int m * 10)" by (simp add: fits_def)
  show ?thesis
    unfolding digits_loop.simps dig_not_nul(3) [OF assms(1)] mulr
    using dig_not_nul(2) [OF assms(1)] subr f
    by (cases "fits TYPE('w) (- int m * 10)"; cases "fits TYPE('w) (- int (m * 10 + d))")
      (simp_all only: if_True if_False bind.simps not_True_eq_False)
qed

lemma digits_loop_dec:
  "digits_loop mul sub (dec n @ rest) 0 =
     (if fits TYPE('w) (- int n) then digits_loop mul sub rest (word_of_int (- int n)) else None)"
proof (induction n arbitrary: rest rule: dec.induct)
  case (1 n)
  show ?case
  proof (cases "n < 10")
    case True
    then show ?thesis using digit_step [of n 0 rest] fits_small [of 0] by (simp add: dec_small)
  next
    case False
    have n: "n div 10 * 10 + n mod 10 = n" by simp
    have "int (n div 10) \<le> int n" "0 < (2::int) ^ (LENGTH('w) - 1)" by simp_all
    then have "fits TYPE('w) (- int n) \<Longrightarrow> fits TYPE('w) (- int (n div 10))" unfolding fits_def by linarith
    then show ?thesis
      using "1.IH" [OF False, of "dig (n mod 10) # rest"] digit_step [of "n mod 10" "n div 10" rest, unfolded n] False
      by (simp add: dec_step del: digits_loop.simps)
  qed
qed

text \<open>Every decimal numeral is read, or refused as out of range.\<close>

lemma scan_int_text:
  "scan_int mul sub ty (int_text x) =
     (if fits TYPE('w) x then Inr (word_of_int x) else Inl (Value_out_of_range ty))"
proof -
  obtain d ds where d: "dec (nat \<bar>x\<bar>) = d # ds" by (cases "dec (nat \<bar>x\<bar>)") auto
  then obtain k where "d = dig k" "k < 10" using set_dec [of "nat \<bar>x\<bar>"] by auto
  then have c: "isdigit d" "\<not> isspace d" "d \<noteq> CHR ''-''" "d \<noteq> CHR ''+''" using dig_not_nul by auto
  have m: "\<not> isspace (CHR ''-'')" by (simp add: isspace_def)
  have l: "digits_loop mul sub (d # ds) 0 = (if fits TYPE('w) (- \<bar>x\<bar>) then Some (word_of_int (- \<bar>x\<bar>), []) else None)"
    using digits_loop_dec [of "nat \<bar>x\<bar>" "[]"] d by simp
  show ?thesis
  proof (cases "x < 0")
    case True
    then show ?thesis using l m c d by (simp add: scan_int_def int_text_def Let_def del: digits_loop.simps)
  next
    case False
    then have "fits TYPE('w) x \<longleftrightarrow> fits TYPE('w) (- \<bar>x\<bar>) \<and> - \<bar>x\<bar> \<noteq> - (2 ^ (LENGTH('w) - 1))" by (auto simp: fits_def)
    then show ?thesis using False l c d sint_fits [of "- \<bar>x\<bar>"]
      by (auto simp: scan_int_def int_text_def Let_def simp del: digits_loop.simps)
  qed
qed

end

interpretation arith32: checked_arith pg_mul_s32_overflow pg_sub_s32_overflow
  by unfold_locales (auto simp: pg_mul_s32_overflow_def pg_sub_s32_overflow_def fits_def Let_def)

interpretation arith64: checked_arith pg_mul_s64_overflow pg_sub_s64_overflow
  by unfold_locales (auto simp: pg_mul_s64_overflow_def pg_sub_s64_overflow_def fits_def Let_def)

lemma int4in_text:
  "int4in (int_text x) = (if fits TYPE(32) x then Inr (Int32GetDatum (word_of_int x)) else Inl (Value_out_of_range ''integer''))"
  by (simp add: int4in_def pg_strtoint32_def arith32.scan_int_text)

lemma int8in_text:
  "int8in (int_text x) = (if fits TYPE(64) x then Inr (word_of_int x) else Inl (Value_out_of_range ''bigint''))"
  by (simp add: int8in_def scanint8_def arith64.scan_int_text)

lemma sint_fits_32: "fits TYPE(32) (sint (w :: 32 word))"
  using sint_range32 [of w] by (simp add: fits_def)

lemma sint_fits_64: "fits TYPE(64) (sint (w :: 64 word))"
  using sint_range64 [of w] by (simp add: fits_def)

text \<open>
  C29. \<open>pg_ltoa\<close> and \<open>pg_lltoa\<close> write the decimal numeral of their argument, pair of digits
  by pair of digits at positions computed from an estimate of its length, into buffers of
  12 and 21 bytes with any contents, and never outside of them.
\<close>

theorem integer_output_text:
  assumes "12 \<le> length buf" and "MAXINT8LEN + 1 \<le> length buf'"
  shows "rbind (pg_ltoa w buf) cstring = Inr (int_text (sint w)) \<and>
    rbind (pg_lltoa w' buf') cstring = Inr (int_text (sint w'))"
  using pg_ltoa_text [OF assms(1)] pg_lltoa_text [OF assms(2)] by simp

theorem integer_output_text_witness:
  "rbind (pg_ltoa 0x80000000 (replicate 12 (CHR ''x''))) cstring = Inr ''-2147483648'' \<and>
   rbind (pg_lltoa 18446744073709551615 (replicate 21 (CHR ''x''))) cstring = Inr ''-1''"
proof -
  have "int_text (sint (0x80000000 :: 32 word)) = ''-2147483648''" "int_text (sint (18446744073709551615 :: 64 word)) = ''-1''"
    by (simp_all add: int_text_def dec.simps dig_simps)
  then show ?thesis
    using integer_output_text [where buf = "replicate 12 (CHR ''x'')" and buf' = "replicate 21 (CHR ''x'')" and
        w = "0x80000000" and w' = 18446744073709551615] by (simp add: MAXINT8LEN_def)
qed

text \<open>
  C30. Text input reads every decimal numeral: \<open>int4in\<close> and \<open>int8in\<close> return its value if it
  fits the type and raise the out-of-range error otherwise, at the exact limits of the
  type; hence reading what \<open>int4out\<close> or \<open>int8out\<close> wrote gives the value back.
\<close>

theorem integer_text_roundtrip:
  "int4in (int_text x) = (if - (2 ^ 31) \<le> x \<and> x < 2 ^ 31 then Inr (Int32GetDatum (word_of_int x))
     else Inl (Value_out_of_range ''integer'')) \<and>
   int8in (int_text x) = (if - (2 ^ 63) \<le> x \<and> x < 2 ^ 63 then Inr (word_of_int x)
     else Inl (Value_out_of_range ''bigint'')) \<and>
   rbind (int4out v) int4in = Inr (Int32GetDatum (DatumGetInt32 v)) \<and> rbind (int8out v) int8in = Inr v"
  unfolding int4in_text int8in_text int4out_text int8out_text rbind_simps
  using sint_fits_32 [of "DatumGetInt32 v"] sint_fits_64 [of v] by (simp add: fits_def)

end
