(* ===== verification/Range_IO.thy ===== *)
theory Range_IO
  imports Num_IO Range_Core
begin

text \<open>
  Text and binary input and output of ranges: \<open>range_in\<close>, \<open>range_out\<close>, \<open>range_recv\<close>,
  \<open>range_send\<close> and their helpers in \<open>rangetypes.c\<close>, the message buffers of \<open>pqformat.c\<close>,
  the calls of element I/O functions of \<open>fmgr.c\<close>, and binary I/O of \<open>int4\<close> and \<open>int8\<close>. The
  I/O functions of an element type and its catalog row are inputs.
\<close>

section \<open>Message buffers\<close>

record StringInfoData =
  si_data :: "char8 list"
  si_cursor :: nat

definition initStringInfo :: "char8 list \<Rightarrow> StringInfoData" where
  "initStringInfo bytes = \<lparr>si_data = bytes, si_cursor = 0\<rparr>"

definition pq_getmsgbyte :: "StringInfoData \<Rightarrow> (char8 \<times> StringInfoData) res" where
  "pq_getmsgbyte msg =
     (if si_cursor msg \<ge> length (si_data msg) then Inl No_data_left
      else Inr (si_data msg ! si_cursor msg, msg\<lparr>si_cursor := si_cursor msg + 1\<rparr>))"

definition pq_getmsgbytes :: "StringInfoData \<Rightarrow> int \<Rightarrow> (char8 list \<times> StringInfoData) res" where
  "pq_getmsgbytes msg datalen =
     (if datalen < 0 \<or> datalen > int (length (si_data msg)) - int (si_cursor msg) then Inl Insufficient_data
      else Inr (take (nat datalen) (drop (si_cursor msg) (si_data msg)),
                msg\<lparr>si_cursor := si_cursor msg + nat datalen\<rparr>))"

definition pq_copymsgbytes :: "StringInfoData \<Rightarrow> int \<Rightarrow> (char8 list \<times> StringInfoData) res" where
  "pq_copymsgbytes msg datalen =
     (if datalen < 0 \<or> datalen > int (length (si_data msg)) - int (si_cursor msg) then Inl Insufficient_data
      else Inr (take (nat datalen) (drop (si_cursor msg) (si_data msg)),
                msg\<lparr>si_cursor := si_cursor msg + nat datalen\<rparr>))"

text \<open>Network byte order: \<open>pg_ntoh\<close> of copied bytes, and the bytes of \<open>pg_hton\<close>.\<close>

definition be_word :: "char8 list \<Rightarrow> ('w::len) word" where
  "be_word bs = foldl (\<lambda>w b. push_bit 8 w OR ucast b) 0 bs"

fun be_bytes :: "nat \<Rightarrow> ('w::len) word \<Rightarrow> char8 list" where
  "be_bytes 0 w = []"
| "be_bytes (Suc n) w = be_bytes n (drop_bit 8 w) @ [ucast w]"

definition pq_getmsgint :: "StringInfoData \<Rightarrow> int \<Rightarrow> (32 word \<times> StringInfoData) res" where
  "pq_getmsgint msg b =
     (if b = 1 \<or> b = 2 \<or> b = 4 then rbind (pq_copymsgbytes msg b) (\<lambda>(bytes, msg). Inr (be_word bytes, msg))
      else Inl (Unsupported_integer_size b))"

abbreviation pq_getmsgint4 :: "StringInfoData \<Rightarrow> (32 word \<times> StringInfoData) res" where
  "pq_getmsgint4 msg \<equiv> pq_getmsgint msg 4"

definition pq_getmsgint64 :: "StringInfoData \<Rightarrow> (64 word \<times> StringInfoData) res" where
  "pq_getmsgint64 msg = rbind (pq_copymsgbytes msg 8) (\<lambda>(n64, msg). Inr (be_word n64, msg))"

definition pq_getmsgend :: "StringInfoData \<Rightarrow> unit res" where
  "pq_getmsgend msg = (if si_cursor msg \<noteq> length (si_data msg) then Inl Invalid_message_format else Inr ())"

text \<open>Output buffers are the bytes behind the length word that \<open>pq_begintypsend\<close> reserves.\<close>

definition pq_begintypsend :: "char8 list" where
  "pq_begintypsend = []"

definition pq_endtypsend :: "char8 list \<Rightarrow> char8 list" where
  "pq_endtypsend buf = buf"

definition pq_sendbyte :: "char8 list \<Rightarrow> char8 \<Rightarrow> char8 list" where
  "pq_sendbyte buf byt = buf @ [byt]"

definition pq_sendint32 :: "char8 list \<Rightarrow> 32 word \<Rightarrow> char8 list" where
  "pq_sendint32 buf i = buf @ be_bytes 4 i"

definition pq_sendint64 :: "char8 list \<Rightarrow> 64 word \<Rightarrow> char8 list" where
  "pq_sendint64 buf i = buf @ be_bytes 8 i"

definition pq_sendbytes :: "char8 list \<Rightarrow> char8 list \<Rightarrow> char8 list" where
  "pq_sendbytes buf bytes = buf @ bytes"

section \<open>Element I/O functions\<close>

datatype IOFuncSelector = IOFunc_input | IOFunc_output | IOFunc_receive | IOFunc_send

datatype 'a FmgrInfo =
    InputProc "string \<Rightarrow> Oid \<Rightarrow> int \<Rightarrow> 'a res"
  | OutputProc "'a \<Rightarrow> string res"
  | ReceiveProc "StringInfoData \<Rightarrow> Oid \<Rightarrow> int \<Rightarrow> 'a res"
  | SendProc "'a \<Rightarrow> char8 list res"

text \<open>
  I/O functions are strict; calling a function of another kind than the selected one
  is undefined.
\<close>

definition InputFunctionCall :: "('a::zero) FmgrInfo \<Rightarrow> string option \<Rightarrow> Oid \<Rightarrow> int \<Rightarrow> 'a res" where
  "InputFunctionCall flinfo str typioparam typmod =
     (case str of None \<Rightarrow> Inr 0
      | Some s \<Rightarrow> (case flinfo of InputProc f \<Rightarrow> f s typioparam typmod | _ \<Rightarrow> Inl Undefined_behavior))"

definition OutputFunctionCall :: "'a FmgrInfo \<Rightarrow> 'a \<Rightarrow> string res" where
  "OutputFunctionCall flinfo val = (case flinfo of OutputProc f \<Rightarrow> f val | _ \<Rightarrow> Inl Undefined_behavior)"

definition ReceiveFunctionCall :: "'a FmgrInfo \<Rightarrow> StringInfoData \<Rightarrow> Oid \<Rightarrow> int \<Rightarrow> 'a res" where
  "ReceiveFunctionCall flinfo buf typioparam typmod =
     (case flinfo of ReceiveProc f \<Rightarrow> f buf typioparam typmod | _ \<Rightarrow> Inl Undefined_behavior)"

definition SendFunctionCall :: "'a FmgrInfo \<Rightarrow> 'a \<Rightarrow> char8 list res" where
  "SendFunctionCall flinfo val = (case flinfo of SendProc f \<Rightarrow> f val | _ \<Rightarrow> Inl Undefined_behavior)"

text \<open>The columns of a \<open>pg_type\<close> row that type I/O reads; \<open>None\<close> is the invalid OID.\<close>

record 'a pg_type =
  typ_oid :: Oid
  typelem :: Oid
  typinput :: "'a FmgrInfo option"
  typoutput :: "'a FmgrInfo option"
  typreceive :: "'a FmgrInfo option"
  typsend :: "'a FmgrInfo option"

type_synonym 'a type_rows = "Oid \<Rightarrow> 'a pg_type option"

definition getTypeIOParam :: "'a pg_type \<Rightarrow> Oid" where
  "getTypeIOParam typeStruct = (if typelem typeStruct \<noteq> 0 then typelem typeStruct else typ_oid typeStruct)"

definition get_type_io_data ::
  "'a type_rows \<Rightarrow> Oid \<Rightarrow> IOFuncSelector \<Rightarrow> (Oid \<times> 'a FmgrInfo option) res" where
  "get_type_io_data rows typid which_func =
     (case rows typid of
        None \<Rightarrow> Inl (Cache_lookup_failed typid)
      | Some typeStruct \<Rightarrow>
          Inr (getTypeIOParam typeStruct,
               case which_func of
                 IOFunc_input \<Rightarrow> typinput typeStruct
               | IOFunc_output \<Rightarrow> typoutput typeStruct
               | IOFunc_receive \<Rightarrow> typreceive typeStruct
               | IOFunc_send \<Rightarrow> typsend typeStruct))"

record 'a RangeIOData =
  io_typcache :: "'a TypeCacheEntry"
  typioproc :: "'a FmgrInfo"
  typioparam :: Oid

text \<open>\<open>get_range_io_data\<close> returns the data and the new contents of \<open>fn_extra\<close>.\<close>

definition get_range_io_data ::
  "(Oid \<Rightarrow> 'a TypeCacheEntry) \<Rightarrow> 'a type_rows \<Rightarrow> 'a RangeIOData option \<Rightarrow> Oid \<Rightarrow> IOFuncSelector
     \<Rightarrow> ('a RangeIOData \<times> 'a RangeIOData option) res" where
  "get_range_io_data lookup_type_cache rows fn_extra rngtypid func =
     (let miss =
        (let typcache = lookup_type_cache rngtypid in
         case rngelemtype typcache of
           None \<Rightarrow> Inl (Not_a_range_type rngtypid)
         | Some elemtype \<Rightarrow>
             rbind (get_type_io_data rows (elem_type_id elemtype) func) (\<lambda>(param, typiofunc).
               case typiofunc of
                 None \<Rightarrow> if func = IOFunc_receive then Inl (No_binary_input (elem_type_id elemtype))
                         else Inl (No_binary_output (elem_type_id elemtype))
               | Some proc \<Rightarrow>
                   let cache = \<lparr>io_typcache = typcache, typioproc = proc, typioparam = param\<rparr>
                   in Inr (cache, Some cache)))
      in case fn_extra of
           None \<Rightarrow> miss
         | Some cache \<Rightarrow>
             if type_id (io_typcache cache) \<noteq> rngtypid then miss else Inr (cache, fn_extra))"

section \<open>Parsing and printing\<close>

definition uchar :: "string \<Rightarrow> int" where
  "uchar s = (case s of [] \<Rightarrow> 0 | c # _ \<Rightarrow> of_char c)"

definition ascii_lower :: "int \<Rightarrow> int" where
  "ascii_lower ch = (if 65 \<le> ch \<and> ch \<le> 90 then ch + 32 else ch)"

fun pg_strncasecmp :: "string \<Rightarrow> string \<Rightarrow> nat \<Rightarrow> int" where
  "pg_strncasecmp s1 s2 0 = 0"
| "pg_strncasecmp s1 s2 (Suc n) =
     (let ch1 = uchar s1; ch2 = uchar s2 in
      if ch1 \<noteq> ch2 \<and> ascii_lower ch1 \<noteq> ascii_lower ch2 then ascii_lower ch1 - ascii_lower ch2
      else if ch1 = 0 then 0
      else pg_strncasecmp (tl s1) (tl s2) n)"

declare pg_strncasecmp.simps [simp del]

definition RANGE_EMPTY_LITERAL :: string where
  "RANGE_EMPTY_LITERAL = ''empty''"

definition is_delim :: "char \<Rightarrow> bool" where
  "is_delim c \<longleftrightarrow> c = CHR '','' \<or> c = CHR '')'' \<or> c = CHR '']''"

text \<open>The scan of one bound; \<open>buf\<close> is the text collected so far.\<close>

function bound_loop :: "bool \<Rightarrow> string \<Rightarrow> string \<Rightarrow> (string \<times> string) res" where
  "bound_loop inquote [] buf = Inl Unexpected_end_of_input"
| "bound_loop inquote (ch # ptr) buf =
     (if \<not> inquote \<and> is_delim ch then Inr (buf, ch # ptr)
      else if ch = CHR 0x5C then
        (case ptr of [] \<Rightarrow> Inl Unexpected_end_of_input | c # ptr' \<Rightarrow> bound_loop inquote ptr' (buf @ [c]))
      else if ch = CHR 0x22 then
        (if \<not> inquote then bound_loop True ptr buf
         else if ptr \<noteq> [] \<and> hd ptr = CHR 0x22 then bound_loop inquote (tl ptr) (buf @ [hd ptr])
         else bound_loop False ptr buf)
      else bound_loop inquote ptr (buf @ [ch]))"
  by pat_completeness auto
termination
  by (relation "measure (\<lambda>(inquote, ptr, buf). length ptr)") auto

text \<open>The bound's text, \<open>None\<close> for an infinite bound, and the rest of the input.\<close>

definition range_parse_bound :: "string \<Rightarrow> (string option \<times> bool \<times> string) res" where
  "range_parse_bound ptr =
     (if ptr \<noteq> [] \<and> is_delim (hd ptr) then Inr (None, True, ptr)
      else rbind (bound_loop False ptr []) (\<lambda>(buf, ptr). Inr (Some buf, False, ptr)))"

definition parse_upper :: "char8 \<Rightarrow> string option \<Rightarrow> string \<Rightarrow> (char8 \<times> string option \<times> string option) res" where
  "parse_upper flags lbound_str ptr =
     rbind (range_parse_bound ptr) (\<lambda>(ubound_str, infi, ptr).
     let flags = (if infi then flags OR RANGE_UB_INF else flags) in
     if ptr = [] \<or> (hd ptr \<noteq> CHR '']'' \<and> hd ptr \<noteq> CHR '')'') then Inl Too_many_commas
     else
       let flags = (if hd ptr = CHR '']'' then flags OR RANGE_UB_INC else flags) in
       if dropWhile isspace (tl ptr) \<noteq> [] then Inl Junk_after_right_paren
       else Inr (flags, lbound_str, ubound_str))"

definition parse_lower :: "char8 \<Rightarrow> string \<Rightarrow> (char8 \<times> string option \<times> string option) res" where
  "parse_lower flags ptr =
     rbind (range_parse_bound ptr) (\<lambda>(lbound_str, infi, ptr).
     let flags = (if infi then flags OR RANGE_LB_INF else flags) in
     if ptr = [] \<or> hd ptr \<noteq> CHR '','' then Inl Missing_comma
     else parse_upper flags lbound_str (tl ptr))"

definition range_parse :: "string \<Rightarrow> (char8 \<times> string option \<times> string option) res" where
  "range_parse str =
     (let ptr = dropWhile isspace str in
      if pg_strncasecmp ptr RANGE_EMPTY_LITERAL (length RANGE_EMPTY_LITERAL) = 0 then
        (if dropWhile isspace (drop (length RANGE_EMPTY_LITERAL) ptr) \<noteq> [] then Inl Junk_after_empty
         else Inr (RANGE_EMPTY, None, None))
      else if ptr = [] \<or> (hd ptr \<noteq> CHR ''['' \<and> hd ptr \<noteq> CHR ''('') then Inl Missing_left_paren
      else parse_lower (if hd ptr = CHR ''['' then RANGE_LB_INC else 0) (tl ptr))"

definition needs_quote :: "char \<Rightarrow> bool" where
  "needs_quote ch \<longleftrightarrow> ch = CHR 0x22 \<or> ch = CHR 0x5C \<or> ch = CHR ''('' \<or> ch = CHR '')'' \<or>
     ch = CHR ''['' \<or> ch = CHR '']'' \<or> ch = CHR '','' \<or> isspace ch"

definition range_bound_escape :: "string \<Rightarrow> string" where
  "range_bound_escape val =
     (let nq = (val = [] \<or> list_ex needs_quote val);
          body = concat (map (\<lambda>ch. if ch = CHR 0x22 \<or> ch = CHR 0x5C then [ch, ch] else [ch]) val)
      in if nq then [CHR 0x22] @ body @ [CHR 0x22] else body)"

text \<open>Printing a missing bound reads through a null pointer.\<close>

definition deparse_bound :: "bool \<Rightarrow> string option \<Rightarrow> string res" where
  "deparse_bound has bound_str =
     (if has then case bound_str of None \<Rightarrow> Inl Undefined_behavior | Some s \<Rightarrow> Inr (range_bound_escape s)
      else Inr [])"

definition range_deparse :: "char8 \<Rightarrow> string option \<Rightarrow> string option \<Rightarrow> string res" where
  "range_deparse flags lbound_str ubound_str =
     (if flags AND RANGE_EMPTY \<noteq> 0 then Inr RANGE_EMPTY_LITERAL
      else
        rbind (deparse_bound (RANGE_HAS_LBOUND flags) lbound_str) (\<lambda>l.
        rbind (deparse_bound (RANGE_HAS_UBOUND flags) ubound_str) (\<lambda>u.
        Inr ([if flags AND RANGE_LB_INC \<noteq> 0 then CHR ''['' else CHR ''(''] @ l @ [CHR '',''] @ u @
             [if flags AND RANGE_UB_INC \<noteq> 0 then CHR '']'' else CHR '')'']))))"

section \<open>The I/O functions\<close>

text \<open>The bounds the flags describe; an absent value is not read by \<open>make_range\<close>.\<close>

definition flag_bounds :: "char8 \<Rightarrow> 'a \<Rightarrow> 'a \<Rightarrow> 'a RangeBound \<times> 'a RangeBound" where
  "flag_bounds flags lval uval =
     (\<lparr>rb_val = lval, rb_infinite = flags AND RANGE_LB_INF \<noteq> 0,
       rb_inclusive = flags AND RANGE_LB_INC \<noteq> 0, rb_lower = True\<rparr>,
      \<lparr>rb_val = uval, rb_infinite = flags AND RANGE_UB_INF \<noteq> 0,
       rb_inclusive = flags AND RANGE_UB_INC \<noteq> 0, rb_lower = False\<rparr>)"

definition range_in ::
  "(Oid \<Rightarrow> ('a::zero) TypeCacheEntry) \<Rightarrow> 'a type_rows \<Rightarrow> 'a RangeIOData option \<Rightarrow> string \<Rightarrow> Oid \<Rightarrow> int
     \<Rightarrow> ('a RangeType \<times> 'a RangeIOData option) res" where
  "range_in lk rows fx input_str rngtypoid typmod =
     rbind (get_range_io_data lk rows fx rngtypoid IOFunc_input) (\<lambda>(cache, fx).
     rbind (range_parse input_str) (\<lambda>(flags, lbound_str, ubound_str).
     rbind (if RANGE_HAS_LBOUND flags
            then InputFunctionCall (typioproc cache) lbound_str (typioparam cache) typmod else Inr 0) (\<lambda>lval.
     rbind (if RANGE_HAS_UBOUND flags
            then InputFunctionCall (typioproc cache) ubound_str (typioparam cache) typmod else Inr 0) (\<lambda>uval.
     case flag_bounds flags lval uval of (lower, upper) \<Rightarrow>
     rbind (make_range (io_typcache cache) lower upper (flags AND RANGE_EMPTY \<noteq> 0)) (\<lambda>r. Inr (r, fx))))))"

definition range_out ::
  "(Oid \<Rightarrow> ('a::zero) TypeCacheEntry) \<Rightarrow> 'a type_rows \<Rightarrow> 'a RangeIOData option \<Rightarrow> 'a RangeType
     \<Rightarrow> (string \<times> 'a RangeIOData option) res" where
  "range_out lk rows fx r =
     rbind (get_range_io_data lk rows fx (rangetypid r) IOFunc_output) (\<lambda>(cache, fx).
     case range_deserialize (io_typcache cache) r of (lower, upper, emp) \<Rightarrow>
     let flags = range_get_flags r in
     rbind (if RANGE_HAS_LBOUND flags
            then rbind (OutputFunctionCall (typioproc cache) (rb_val lower)) (\<lambda>s. Inr (Some s))
            else Inr None) (\<lambda>lbound_str.
     rbind (if RANGE_HAS_UBOUND flags
            then rbind (OutputFunctionCall (typioproc cache) (rb_val upper)) (\<lambda>s. Inr (Some s))
            else Inr None) (\<lambda>ubound_str.
     rbind (range_deparse flags lbound_str ubound_str) (\<lambda>s. Inr (s, fx)))))"

text \<open>Receiving one bound: a length word and that many bytes for the element type.\<close>

definition recv_bound ::
  "'a RangeIOData \<Rightarrow> int \<Rightarrow> StringInfoData \<Rightarrow> ('a \<times> StringInfoData) res" where
  "recv_bound cache typmod buf =
     rbind (pq_getmsgint4 buf) (\<lambda>(bound_len, buf).
     rbind (pq_getmsgbytes buf (sint bound_len)) (\<lambda>(bound_data, buf).
     rbind (ReceiveFunctionCall (typioproc cache) (initStringInfo bound_data) (typioparam cache) typmod)
       (\<lambda>val. Inr (val, buf))))"

definition range_recv ::
  "(Oid \<Rightarrow> ('a::zero) TypeCacheEntry) \<Rightarrow> 'a type_rows \<Rightarrow> 'a RangeIOData option \<Rightarrow> StringInfoData \<Rightarrow> Oid \<Rightarrow> int
     \<Rightarrow> ('a RangeType \<times> 'a RangeIOData option) res" where
  "range_recv lk rows fx buf rngtypoid typmod =
     rbind (get_range_io_data lk rows fx rngtypoid IOFunc_receive) (\<lambda>(cache, fx).
     rbind (pq_getmsgbyte buf) (\<lambda>(flags, buf).
     let flags = flags AND (RANGE_EMPTY OR RANGE_LB_INC OR RANGE_LB_INF OR RANGE_UB_INC OR RANGE_UB_INF) in
     rbind (if RANGE_HAS_LBOUND flags then recv_bound cache typmod buf else Inr (0, buf)) (\<lambda>(lval, buf).
     rbind (if RANGE_HAS_UBOUND flags then recv_bound cache typmod buf else Inr (0, buf)) (\<lambda>(uval, buf).
     rbind (pq_getmsgend buf) (\<lambda>_.
     case flag_bounds flags lval uval of (lower, upper) \<Rightarrow>
     rbind (make_range (io_typcache cache) lower upper (flags AND RANGE_EMPTY \<noteq> 0)) (\<lambda>r. Inr (r, fx)))))))"

definition send_bound :: "'a RangeIOData \<Rightarrow> 'a \<Rightarrow> char8 list \<Rightarrow> char8 list res" where
  "send_bound cache val buf =
     rbind (SendFunctionCall (typioproc cache) val) (\<lambda>bound_data.
     Inr (pq_sendbytes (pq_sendint32 buf (word_of_nat (length bound_data))) bound_data))"

definition range_send ::
  "(Oid \<Rightarrow> ('a::zero) TypeCacheEntry) \<Rightarrow> 'a type_rows \<Rightarrow> 'a RangeIOData option \<Rightarrow> 'a RangeType
     \<Rightarrow> (char8 list \<times> 'a RangeIOData option) res" where
  "range_send lk rows fx r =
     rbind (get_range_io_data lk rows fx (rangetypid r) IOFunc_send) (\<lambda>(cache, fx).
     case range_deserialize (io_typcache cache) r of (lower, upper, emp) \<Rightarrow>
     let flags = range_get_flags r; buf = pq_sendbyte pq_begintypsend flags in
     rbind (if RANGE_HAS_LBOUND flags then send_bound cache (rb_val lower) buf else Inr buf) (\<lambda>buf.
     rbind (if RANGE_HAS_UBOUND flags then send_bound cache (rb_val upper) buf else Inr buf) (\<lambda>buf.
     Inr (pq_endtypsend buf, fx))))"

section \<open>Element I/O of the built-in types\<close>

definition int4recv :: "StringInfoData \<Rightarrow> Datum res" where
  "int4recv buf = rbind (pq_getmsgint4 buf) (\<lambda>(v, buf). Inr (Int32GetDatum v))"

definition int4send :: "Datum \<Rightarrow> char8 list" where
  "int4send arg = pq_endtypsend (pq_sendint32 pq_begintypsend (DatumGetInt32 arg))"

definition int8recv :: "StringInfoData \<Rightarrow> Datum res" where
  "int8recv buf = rbind (pq_getmsgint64 buf) (\<lambda>(v, buf). Inr v)"

definition int8send :: "Datum \<Rightarrow> char8 list" where
  "int8send arg = pq_endtypsend (pq_sendint64 pq_begintypsend arg)"

text \<open>The rows of \<open>pg_type.dat\<close>.\<close>

definition int4_row :: "Datum pg_type" where
  "int4_row = \<lparr>typ_oid = 23, typelem = 0, typinput = Some (InputProc (\<lambda>s _ _. int4in s)),
     typoutput = Some (OutputProc int4out), typreceive = Some (ReceiveProc (\<lambda>b _ _. int4recv b)),
     typsend = Some (SendProc (\<lambda>v. Inr (int4send v)))\<rparr>"

definition int8_row :: "Datum pg_type" where
  "int8_row = \<lparr>typ_oid = 20, typelem = 0, typinput = Some (InputProc (\<lambda>s _ _. int8in s)),
     typoutput = Some (OutputProc int8out), typreceive = Some (ReceiveProc (\<lambda>b _ _. int8recv b)),
     typsend = Some (SendProc (\<lambda>v. Inr (int8send v)))\<rparr>"

section \<open>Parsing inverts printing\<close>

lemma is_delim_needs_quote: "is_delim c \<Longrightarrow> needs_quote c"
  by (auto simp: is_delim_def needs_quote_def)

lemma delim_neq: "is_delim c \<Longrightarrow> c \<noteq> CHR 0x22 \<and> c \<noteq> CHR 0x5C"
  by (auto simp: is_delim_def)

lemma bound_loop_plain:
  assumes "\<not> list_ex needs_quote val" and "rest \<noteq> []" and "is_delim (hd rest)"
  shows "bound_loop False (val @ rest) buf = Inr (buf @ val, rest)"
  using assms(1)
proof (induction val arbitrary: buf)
  case Nil
  then show ?case using assms(2,3) by (cases rest) auto
next
  case (Cons c val)
  then show ?case using is_delim_needs_quote [of c] by (auto simp: needs_quote_def)
qed

lemma bound_loop_quoted:
  assumes "rest \<noteq> []" and "is_delim (hd rest)"
  shows "bound_loop True (concat (map (\<lambda>ch. if ch = CHR 0x22 \<or> ch = CHR 0x5C then [ch, ch] else [ch]) val) @ CHR 0x22 # rest) buf =
    Inr (buf @ val, rest)"
proof (induction val arbitrary: buf)
  case Nil
  then show ?case using assms delim_neq [of "hd rest"] by (cases rest) auto
next
  case (Cons c val)
  then show ?case by auto
qed

lemma parse_bound_escape:
  assumes "rest \<noteq> []" and "is_delim (hd rest)"
  shows "range_parse_bound (range_bound_escape val @ rest) = Inr (Some val, False, rest)"
proof (cases "val = [] \<or> list_ex needs_quote val")
  case True
  then show ?thesis
    using bound_loop_quoted [OF assms, of val "[]"]
    by (simp add: range_parse_bound_def range_bound_escape_def is_delim_def)
next
  case False
  then have "\<not> list_ex needs_quote val" by simp
  then have b: "concat (map (\<lambda>ch. if ch = CHR 0x22 \<or> ch = CHR 0x5C then [ch, ch] else [ch]) val) = val"
    by (induction val) (auto simp: needs_quote_def)
  have "\<not> is_delim (hd val)" using False is_delim_needs_quote by (cases val) auto
  then show ?thesis
    using bound_loop_plain [of val rest "[]"] False assms b
    by (simp add: range_parse_bound_def range_bound_escape_def)
qed

lemma parse_bound_deparse:
  assumes "rest \<noteq> []" and "is_delim (hd rest)" and "has \<longleftrightarrow> b \<noteq> None"
  shows "\<exists>s. deparse_bound has b = Inr s \<and> range_parse_bound (s @ rest) = Inr (b, \<not> has, rest)"
  using assms parse_bound_escape [OF assms(1,2)]
  by (cases b) (auto simp: deparse_bound_def range_parse_bound_def)

text \<open>The flags a textual range can carry: the inclusion and infinity bits.\<close>

definition text_flags :: "char8 \<Rightarrow> bool" where
  "text_flags flags \<longleftrightarrow> flags AND (RANGE_EMPTY OR RANGE_LB_NULL OR RANGE_UB_NULL OR RANGE_CONTAIN_EMPTY) = 0"

lemma text_flags_eq:
  assumes "text_flags flags"
  shows "flags = (((if bit flags 1 then RANGE_LB_INC else 0) OR (if bit flags 3 then RANGE_LB_INF else 0))
    OR (if bit flags 4 then RANGE_UB_INF else 0)) OR (if bit flags 2 then RANGE_UB_INC else 0)"
  using assms by (intro char8_bits_eqI) (auto simp: text_flags_def flag_simps)

lemma not_empty_literal:
  assumes "c = CHR ''['' \<or> c = CHR ''(''"
  shows "pg_strncasecmp (c # s) RANGE_EMPTY_LITERAL (length RANGE_EMPTY_LITERAL) \<noteq> 0"
proof -
  obtain n where n: "length RANGE_EMPTY_LITERAL = Suc n" by (simp add: RANGE_EMPTY_LITERAL_def)
  show ?thesis
    unfolding n using assms by (auto simp: RANGE_EMPTY_LITERAL_def uchar_def ascii_lower_def pg_strncasecmp.simps(2) [of _ _ n])
qed

lemma parse_deparse:
  assumes "text_flags flags" and "lb \<noteq> None \<longleftrightarrow> RANGE_HAS_LBOUND flags" and "ub \<noteq> None \<longleftrightarrow> RANGE_HAS_UBOUND flags"
  shows "\<exists>s. range_deparse flags lb ub = Inr s \<and> range_parse s = Inr (flags, lb, ub)"
proof -
  have f: "\<not> bit flags 0" "RANGE_HAS_LBOUND flags \<longleftrightarrow> \<not> bit flags 3" "RANGE_HAS_UBOUND flags \<longleftrightarrow> \<not> bit flags 4"
    using assms(1) by (auto simp: text_flags_def flag_simps)
  let ?c = "if flags AND RANGE_UB_INC \<noteq> 0 then CHR '']'' else CHR '')''"
  have d: "is_delim ?c" "is_delim (CHR '','')" by (simp_all add: is_delim_def)
  from parse_bound_deparse [of "[?c]" "RANGE_HAS_UBOUND flags" ub] d(1) assms(3) obtain u where
    u: "deparse_bound (RANGE_HAS_UBOUND flags) ub = Inr u" "range_parse_bound (u @ [?c]) = Inr (ub, \<not> RANGE_HAS_UBOUND flags, [?c])" by auto
  from parse_bound_deparse [of "CHR '','' # u @ [?c]" "RANGE_HAS_LBOUND flags" lb] d(2) assms(2) obtain l where
    l: "deparse_bound (RANGE_HAS_LBOUND flags) lb = Inr l"
    "range_parse_bound (l @ CHR '','' # u @ [?c]) = Inr (lb, \<not> RANGE_HAS_LBOUND flags, CHR '','' # u @ [?c])" by auto
  let ?o = "if flags AND RANGE_LB_INC \<noteq> 0 then CHR ''['' else CHR ''(''"
  let ?s = "?o # l @ CHR '','' # u @ [?c]"
  have "range_deparse flags lb ub = Inr ?s" using f(1) l(1) u(1) by (simp add: range_deparse_def flag_bits)
  moreover have "range_parse ?s = Inr (flags, lb, ub)"
  proof -
    have o: "dropWhile isspace ?s = ?s" by (simp add: isspace_def)
    have e: "pg_strncasecmp ?s RANGE_EMPTY_LITERAL (length RANGE_EMPTY_LITERAL) \<noteq> 0"
      by (rule not_empty_literal) simp
    show ?thesis
      unfolding range_parse_def parse_lower_def parse_upper_def o Let_def using e l(2) u(2) f text_flags_eq [OF assms(1), symmetric]
      by (cases "bit flags 1"; cases "bit flags 2"; cases "bit flags 3"; cases "bit flags 4") (simp_all add: flag_bits)
  qed
  ultimately show ?thesis by blast
qed


lemma parse_empty: "range_parse RANGE_EMPTY_LITERAL = Inr (RANGE_EMPTY, None, None)"
  by code_simp

section \<open>Element I/O\<close>

text \<open>
  What the range I/O functions rely on of the element type: its output is accepted by
  its input function and gives the value back, in text and in binary form, for the
  values \<open>valid\<close> of the type. A binary value is shorter than 2 GB.
\<close>

locale elem_io =
  fixes row :: "('a::zero) pg_type" and valid :: "'a \<Rightarrow> bool"
  assumes text_io: "valid v \<Longrightarrow> \<exists>inp out s. typinput row = Some (InputProc inp) \<and> typoutput row = Some (OutputProc out) \<and>
      out v = Inr s \<and> (\<forall>p m. inp s p m = Inr v)"
    and binary_io: "valid v \<Longrightarrow> \<exists>rcv send bs. typreceive row = Some (ReceiveProc rcv) \<and> typsend row = Some (SendProc send) \<and>
      send v = Inr bs \<and> length bs < 2 ^ 31 \<and> (\<forall>p m. rcv (initStringInfo bs) p m = Inr v)"
    and valid_zero: "valid 0"

text \<open>The contents of \<open>fn_extra\<close>: nothing, or what a fresh lookup stores.\<close>

definition io_cache_ok ::
  "(Oid \<Rightarrow> 'a TypeCacheEntry) \<Rightarrow> 'a type_rows \<Rightarrow> IOFuncSelector \<Rightarrow> 'a RangeIOData option \<Rightarrow> bool" where
  "io_cache_ok lk rows func fx \<longleftrightarrow>
     (\<forall>c. fx = Some c \<longrightarrow> get_range_io_data lk rows None (type_id (io_typcache c)) func = Inr (c, Some c))"

text \<open>The catalog describes the range type \<open>tc\<close> with the element row \<open>row\<close>.\<close>

definition io_catalog ::
  "(Oid \<Rightarrow> 'a TypeCacheEntry) \<Rightarrow> 'a type_rows \<Rightarrow> 'a TypeCacheEntry \<Rightarrow> 'a pg_type \<Rightarrow> bool" where
  "io_catalog lk rows tc row \<longleftrightarrow> lk (type_id tc) = tc \<and>
     (\<exists>e. rngelemtype tc = Some e \<and> rows (elem_type_id e) = Some row)"

definition io_proc :: "'a pg_type \<Rightarrow> IOFuncSelector \<Rightarrow> 'a FmgrInfo option" where
  "io_proc row func = (case func of IOFunc_input \<Rightarrow> typinput row | IOFunc_output \<Rightarrow> typoutput row
     | IOFunc_receive \<Rightarrow> typreceive row | IOFunc_send \<Rightarrow> typsend row)"

definition io_data :: "'a TypeCacheEntry \<Rightarrow> 'a pg_type \<Rightarrow> 'a FmgrInfo \<Rightarrow> 'a RangeIOData" where
  "io_data tc row p = \<lparr>io_typcache = tc, typioproc = p, typioparam = getTypeIOParam row\<rparr>"

lemma io_data_sel [simp]:
  "io_typcache (io_data tc row p) = tc" "typioproc (io_data tc row p) = p"
  "typioparam (io_data tc row p) = getTypeIOParam row"
  by (simp_all add: io_data_def)

lemma get_range_io_data_found:
  assumes "io_catalog lk rows tc row" and "io_cache_ok lk rows func fx" and "io_proc row func = Some p"
  shows "get_range_io_data lk rows fx (type_id tc) func = Inr (io_data tc row p, Some (io_data tc row p))"
proof -
  have "get_range_io_data lk rows None (type_id tc) func = Inr (io_data tc row p, Some (io_data tc row p))"
    using assms(1,3)
    by (auto simp: io_catalog_def get_range_io_data_def get_type_io_data_def io_proc_def io_data_def Let_def)
  moreover have "get_range_io_data lk rows (Some c) id func =
      (if type_id (io_typcache c) \<noteq> id then get_range_io_data lk rows None id func else Inr (c, Some c))" for c id
    by (simp add: get_range_io_data_def Let_def)
  ultimately show ?thesis
    using assms(2) by (cases fx) (auto simp: io_cache_ok_def)
qed

section \<open>Round trips\<close>

lemma range_flags_cases:
  assumes "range_wf tc r" and "\<not> RangeIsEmpty r"
  shows "text_flags (rflags r)"
  using assms by (auto simp: range_wf_def text_flags_def flag_simps RangeIsEmpty_bit)

lemma deserialize_flag_bounds:
  assumes "range_deserialize tc r = (l, u, e)"
  shows "flag_bounds (rflags r) (rb_val l) (rb_val u) = (l, u)" and "e = (rflags r AND RANGE_EMPTY \<noteq> 0)"
  using assms by (auto simp: range_deserialize_def flag_bounds_def Let_def)

lemma deserialize_absent:
  assumes "range_deserialize tc r = (l, u, e)"
  shows "\<not> RANGE_HAS_LBOUND (rflags r) \<Longrightarrow> rb_val l = 0" and "\<not> RANGE_HAS_UBOUND (rflags r) \<Longrightarrow> rb_val u = 0"
  using assms by (auto simp: range_deserialize_def Let_def)

lemma deserialize_valid:
  assumes "range_deserialize tc r = (l, u, e)" and "range_wf tc r" and "\<forall>v \<in> set (rbounds r). valid v"
  shows "RANGE_HAS_LBOUND (rflags r) \<Longrightarrow> valid (rb_val l)" and "RANGE_HAS_UBOUND (rflags r) \<Longrightarrow> valid (rb_val u)"
proof -
  have ne: "\<not> RangeIsEmpty r" if "RANGE_HAS_LBOUND (rflags r) \<or> RANGE_HAS_UBOUND (rflags r)"
    using that by (auto simp: RangeIsEmpty_bit flag_simps)
  have len: "length (rbounds r) = (if RANGE_HAS_LBOUND (rflags r) then 1 else 0) + (if RANGE_HAS_UBOUND (rflags r) then 1 else 0)"
    if "RANGE_HAS_LBOUND (rflags r) \<or> RANGE_HAS_UBOUND (rflags r)"
    using assms(2) ne [OF that] by (simp add: range_wf_def)
  show "RANGE_HAS_LBOUND (rflags r) \<Longrightarrow> valid (rb_val l)"
    using assms(1,3) len by (cases "rbounds r") (auto simp: range_deserialize_def Let_def fetch_att_def split: if_splits)
  show "RANGE_HAS_UBOUND (rflags r) \<Longrightarrow> valid (rb_val u)"
    using assms(1,3) len
    by (cases "rbounds r"; cases "tl (rbounds r)") (auto simp: range_deserialize_def Let_def fetch_att_def split: if_splits)
qed

context range_type
begin

lemma make_range_deserialize:
  assumes "range_ok tc cb r" and "range_deserialize tc r = (l, u, e)"
  shows "make_range tc l u e = Inr r"
proof (cases e)
  case True
  then show ?thesis using range_okD(8) [OF assms] by (auto simp: make_range_def split: option.split)
next
  case False
  note d = range_okD [OF assms]
  have "\<not> range_cmp_bound_values tc l u > 0" using cle_values [OF d(6) [OF False] d(2,3)] by simp
  then show ?thesis
    using make_range_canonical [OF d(2,3) d(4,5)] d(6,7) False by simp
qed

end

lemma bound_text:
  assumes "has \<Longrightarrow> \<exists>s. out v = Inr s \<and> inp s p m = Inr v" and "\<not> has \<Longrightarrow> v = 0"
  shows "\<exists>bs. (bs \<noteq> None \<longleftrightarrow> has) \<and> (if has then rbind (out v) (\<lambda>s. Inr (Some s)) else Inr None) = Inr bs \<and>
    (if has then InputFunctionCall (InputProc inp) bs p m else Inr 0) = Inr v"
  using assms by (cases has) (auto simp: InputFunctionCall_def)

lemma range_text_io:
  assumes rt: "range_type tc cb" and io: "elem_io row valid" and cat: "io_catalog lk rows tc row"
    and fo: "io_cache_ok lk rows IOFunc_output fo" and fi: "io_cache_ok lk rows IOFunc_input fi"
    and ok: "range_ok tc cb r" and val: "\<forall>v \<in> set (rbounds r). valid v"
  shows "\<exists>s fo' fi'. range_out lk rows fo r = Inr (s, fo') \<and> range_in lk rows fi s (type_id tc) typmod = Inr (r, fi')"
proof -
  obtain l u e where d: "range_deserialize tc r = (l, u, e)" by (metis prod_cases3)
  from elem_io.text_io [OF io elem_io.valid_zero [OF io]] obtain inp out where
    p: "typinput row = Some (InputProc inp)" "typoutput row = Some (OutputProc out)" by blast
  have el: "\<exists>s. out v = Inr s \<and> inp s (getTypeIOParam row) typmod = Inr v" if "valid v" for v
    using elem_io.text_io [OF io that] p by auto
  have tid: "rangetypid r = type_id tc" and wf: "range_wf tc r" using ok by (auto simp: range_ok_def range_wf_def)
  have go: "get_range_io_data lk rows fo (type_id tc) IOFunc_output = Inr (io_data tc row (OutputProc out), Some (io_data tc row (OutputProc out)))"
    and gi: "get_range_io_data lk rows fi (type_id tc) IOFunc_input = Inr (io_data tc row (InputProc inp), Some (io_data tc row (InputProc inp)))"
    by (rule get_range_io_data_found [OF cat]; simp add: fo fi io_proc_def p)+
  have mk: "make_range tc l u (rflags r AND RANGE_EMPTY \<noteq> 0) = Inr r"
    using range_type.make_range_deserialize [OF rt ok d] deserialize_flag_bounds(2) [OF d] by simp
  define fl where "fl = rflags r"
  obtain ls where L: "ls \<noteq> None \<longleftrightarrow> RANGE_HAS_LBOUND fl"
    "(if RANGE_HAS_LBOUND fl then rbind (out (rb_val l)) (\<lambda>s. Inr (Some s)) else Inr None) = Inr ls"
    "(if RANGE_HAS_LBOUND fl then InputFunctionCall (InputProc inp) ls (getTypeIOParam row) typmod else Inr 0) = Inr (rb_val l)"
    using bound_text [of "RANGE_HAS_LBOUND fl" out "rb_val l" inp "getTypeIOParam row" typmod]
      el deserialize_valid(1) [OF d wf val] deserialize_absent(1) [OF d] unfolding fl_def by blast
  obtain us where U: "us \<noteq> None \<longleftrightarrow> RANGE_HAS_UBOUND fl"
    "(if RANGE_HAS_UBOUND fl then rbind (out (rb_val u)) (\<lambda>s. Inr (Some s)) else Inr None) = Inr us"
    "(if RANGE_HAS_UBOUND fl then InputFunctionCall (InputProc inp) us (getTypeIOParam row) typmod else Inr 0) = Inr (rb_val u)"
    using bound_text [of "RANGE_HAS_UBOUND fl" out "rb_val u" inp "getTypeIOParam row" typmod]
      el deserialize_valid(2) [OF d wf val] deserialize_absent(2) [OF d] unfolding fl_def by blast
  have P: "\<exists>s. range_deparse fl ls us = Inr s \<and> range_parse s = Inr (fl, ls, us)"
  proof (cases "RangeIsEmpty r")
    case True
    then have "fl = RANGE_EMPTY" using wf by (simp add: range_wf_def fl_def)
    then show ?thesis using parse_empty L(1) U(1)
      by (cases ls; cases us) (auto simp: range_deparse_def RANGE_HAS_LBOUND_def RANGE_HAS_UBOUND_def flag_defs)
  next
    case False
    then show ?thesis using parse_deparse [OF range_flags_cases [OF wf False], of ls us] L(1) U(1) by (simp add: fl_def)
  qed
  then obtain s where s: "range_deparse fl ls us = Inr s" "range_parse s = Inr (fl, ls, us)" by blast
  have "range_out lk rows fo r = Inr (s, Some (io_data tc row (OutputProc out)))"
    by (simp only: range_out_def tid go rbind_simps prod.case io_data_sel d Let_def OutputFunctionCall_def FmgrInfo.case
        range_get_flags_def fl_def [symmetric] L(2) U(2) s(1))
  moreover have "range_in lk rows fi s (type_id tc) typmod = Inr (r, Some (io_data tc row (InputProc inp)))"
    by (simp only: range_in_def gi s(2) rbind_simps prod.case io_data_sel L(3) U(3)
        deserialize_flag_bounds(1) [OF d, folded fl_def] mk [folded fl_def])
  ultimately show ?thesis by blast
qed


lemma be_word_snoc: "be_word (bs @ [b]) = (push_bit 8 (be_word bs) OR ucast b :: 'w::len word)"
  by (simp add: be_word_def)

lemma be_word_bytes: "be_word (be_bytes n w) = take_bit (8 * n) (w :: 'w::len word)"
proof (induction n arbitrary: w)
  case 0
  then show ?case by (simp add: be_word_def)
next
  case (Suc n)
  have "push_bit 8 (take_bit (8 * n) (drop_bit 8 w)) OR ucast (ucast w :: char8) = take_bit (8 * Suc n) w"
    by (rule bit_word_eqI)
      (auto simp: bit_simps bit_ucast_iff bit_push_bit_iff bit_take_bit_iff bit_drop_bit_eq bit_or_iff)
  then show ?case by (simp only: be_bytes.simps be_word_snoc Suc.IH)
qed

lemma length_be_bytes [simp]: "length (be_bytes n w) = n"
  by (induction n arbitrary: w) auto

lemma getmsgint4:
  assumes "drop (si_cursor msg) (si_data msg) = be_bytes 4 w @ rest"
  shows "pq_getmsgint4 msg = Inr (w, msg\<lparr>si_cursor := si_cursor msg + 4\<rparr>)"
    and "drop (si_cursor msg + 4) (si_data msg) = rest" and "si_cursor msg + 4 \<le> length (si_data msg)"
proof -
  have l: "length (si_data msg) - si_cursor msg = 4 + length rest" using arg_cong [OF assms, of length] by simp
  then show "si_cursor msg + 4 \<le> length (si_data msg)" by simp
  have "be_word (be_bytes 4 w) = w" by (simp only: be_word_bytes) (simp add: take_bit_word_eq_self)
  then show "pq_getmsgint4 msg = Inr (w, msg\<lparr>si_cursor := si_cursor msg + 4\<rparr>)"
    using assms l by (simp add: pq_getmsgint_def pq_copymsgbytes_def)
  have "drop 4 (drop (si_cursor msg) (si_data msg)) = rest" unfolding assms by simp
  then show "drop (si_cursor msg + 4) (si_data msg) = rest" by (simp add: add.commute)
qed

lemma getmsgbytes:
  assumes "drop (si_cursor msg) (si_data msg) = bs @ rest" and "si_cursor msg \<le> length (si_data msg)"
  shows "pq_getmsgbytes msg (int (length bs)) = Inr (bs, msg\<lparr>si_cursor := si_cursor msg + length bs\<rparr>)"
    and "drop (si_cursor msg + length bs) (si_data msg) = rest" and "si_cursor msg + length bs \<le> length (si_data msg)"
proof -
  have l: "length (si_data msg) - si_cursor msg = length bs + length rest" using arg_cong [OF assms(1), of length] by simp
  then show "si_cursor msg + length bs \<le> length (si_data msg)" using assms(2) by simp
  show "pq_getmsgbytes msg (int (length bs)) = Inr (bs, msg\<lparr>si_cursor := si_cursor msg + length bs\<rparr>)"
    using assms l by (auto simp: pq_getmsgbytes_def)
  have "drop (length bs) (drop (si_cursor msg) (si_data msg)) = rest" unfolding assms(1) by simp
  then show "drop (si_cursor msg + length bs) (si_data msg) = rest" by (simp add: add.commute)
qed


lemma recv_bound_eq:
  assumes "drop (si_cursor msg) (si_data msg) = be_bytes 4 (word_of_nat (length bs) :: 32 word) @ bs @ rest"
    and "length bs < 2 ^ 31" and "rcv (initStringInfo bs) (typioparam c) m = Inr v" and "typioproc c = ReceiveProc rcv"
  shows "\<exists>k. recv_bound c m msg = Inr (v, msg\<lparr>si_cursor := k\<rparr>) \<and> drop k (si_data msg) = rest \<and> k \<le> length (si_data msg)"
proof -
  have s: "sint (word_of_nat (length bs) :: 32 word) = int (length bs)"
  proof -
    have "int (length bs) < 2 ^ 31" using assms(2) by simp
    then show ?thesis using sint_of_bounded [where 'w = 32, of "int (length bs)"] by simp
  qed
  note i = getmsgint4 [OF assms(1)]
  let ?m = "msg\<lparr>si_cursor := si_cursor msg + 4\<rparr>"
  have "drop (si_cursor ?m) (si_data ?m) = bs @ rest" "si_cursor ?m \<le> length (si_data ?m)" using i(2,3) by simp_all
  note b = getmsgbytes [OF this]
  show ?thesis
    using b assms(3,4) by (intro exI [of _ "si_cursor msg + 4 + length bs"])
      (simp add: recv_bound_def i(1) s ReceiveFunctionCall_def)
qed

lemma send_bound_eq:
  assumes "typioproc c = SendProc send" and "send v = Inr bs"
  shows "send_bound c v buf = Inr (buf @ be_bytes 4 (word_of_nat (length bs) :: 32 word) @ bs)"
  using assms by (simp add: send_bound_def SendFunctionCall_def pq_sendbytes_def pq_sendint32_def)

text \<open>One optional bound: what is sent is received.\<close>

lemma bound_binary:
  assumes "has \<Longrightarrow> \<exists>bs. send v = Inr bs \<and> length bs < 2 ^ 31 \<and> rcv (initStringInfo bs) (typioparam cr) m = Inr v"
    and "\<not> has \<Longrightarrow> v = 0" and "typioproc cs = SendProc send" and "typioproc cr = ReceiveProc rcv"
  shows "\<exists>out. (\<forall>buf. (if has then send_bound cs v buf else Inr buf) = Inr (buf @ out)) \<and>
    (\<forall>data k rest. drop k data = out @ rest \<and> k \<le> length data \<longrightarrow>
      (\<exists>k'. (if has then recv_bound cr m \<lparr>si_data = data, si_cursor = k\<rparr> else Inr (0, \<lparr>si_data = data, si_cursor = k\<rparr>)) =
         Inr (v, \<lparr>si_data = data, si_cursor = k'\<rparr>) \<and> drop k' data = rest \<and> k' \<le> length data))"
proof (cases has)
  case True
  then obtain bs where bs: "send v = Inr bs" "length bs < 2 ^ 31" "rcv (initStringInfo bs) (typioparam cr) m = Inr v"
    using assms(1) by blast
  have "\<exists>k'. recv_bound cr m \<lparr>si_data = data, si_cursor = k\<rparr> = Inr (v, \<lparr>si_data = data, si_cursor = k'\<rparr>) \<and>
      drop k' data = rest \<and> k' \<le> length data"
    if "drop k data = be_bytes 4 (word_of_nat (length bs) :: 32 word) @ bs @ rest" for k data rest
    using recv_bound_eq [of "\<lparr>si_data = data, si_cursor = k\<rparr>", OF _ bs(2,3) assms(4)] that by simp
  then show ?thesis
    using True send_bound_eq [OF assms(3) bs(1)]
    by (intro exI [of _ "be_bytes 4 (word_of_nat (length bs) :: 32 word) @ bs"]) simp
next
  case False
  then show ?thesis using assms(2) by (intro exI [of _ "[]"]) auto
qed


lemma wf_flags_mask:
  assumes "range_wf tc r"
  shows "rflags r AND (RANGE_EMPTY OR RANGE_LB_INC OR RANGE_LB_INF OR RANGE_UB_INC OR RANGE_UB_INF) = rflags r"
  using assms
  by (intro char8_bits_eqI) (auto simp: range_wf_def flag_simps RangeIsEmpty_bit bit_and_iff split: if_splits)

lemma range_binary_io:
  assumes rt: "range_type tc cb" and io: "elem_io row valid" and cat: "io_catalog lk rows tc row"
    and fs: "io_cache_ok lk rows IOFunc_send fs" and fr: "io_cache_ok lk rows IOFunc_receive fr"
    and ok: "range_ok tc cb r" and val: "\<forall>v \<in> set (rbounds r). valid v"
  shows "\<exists>bytes fs' fr'. range_send lk rows fs r = Inr (bytes, fs') \<and>
    range_recv lk rows fr (initStringInfo bytes) (type_id tc) typmod = Inr (r, fr')"
proof -
  obtain l u e where d: "range_deserialize tc r = (l, u, e)" by (metis prod_cases3)
  from elem_io.binary_io [OF io elem_io.valid_zero [OF io]] obtain rcv send where
    p: "typreceive row = Some (ReceiveProc rcv)" "typsend row = Some (SendProc send)" by blast
  have el: "\<exists>bs. send v = Inr bs \<and> length bs < 2 ^ 31 \<and> rcv (initStringInfo bs) (getTypeIOParam row) typmod = Inr v"
    if "valid v" for v using elem_io.binary_io [OF io that] p by auto
  have tid: "rangetypid r = type_id tc" and wf: "range_wf tc r" using ok by (auto simp: range_ok_def range_wf_def)
  let ?s = "io_data tc row (SendProc send)" and ?r = "io_data tc row (ReceiveProc rcv)"
  have gs: "get_range_io_data lk rows fs (type_id tc) IOFunc_send = Inr (?s, Some ?s)"
    and gr: "get_range_io_data lk rows fr (type_id tc) IOFunc_receive = Inr (?r, Some ?r)"
    by (rule get_range_io_data_found [OF cat]; simp add: fs fr io_proc_def p)+
  have mk: "make_range tc l u (rflags r AND RANGE_EMPTY \<noteq> 0) = Inr r"
    using range_type.make_range_deserialize [OF rt ok d] deserialize_flag_bounds(2) [OF d] by simp
  define fl where "fl = rflags r"
  obtain lo where L: "\<And>buf. (if RANGE_HAS_LBOUND fl then send_bound ?s (rb_val l) buf else Inr buf) = Inr (buf @ lo)"
    "\<And>data k rest. drop k data = lo @ rest \<Longrightarrow> k \<le> length data \<Longrightarrow>
      \<exists>k'. (if RANGE_HAS_LBOUND fl then recv_bound ?r typmod \<lparr>si_data = data, si_cursor = k\<rparr> else Inr (0, \<lparr>si_data = data, si_cursor = k\<rparr>)) =
         Inr (rb_val l, \<lparr>si_data = data, si_cursor = k'\<rparr>) \<and> drop k' data = rest \<and> k' \<le> length data"
    using bound_binary [of "RANGE_HAS_LBOUND fl" send "rb_val l" rcv ?r typmod ?s] el
      deserialize_valid(1) [OF d wf val] deserialize_absent(1) [OF d] unfolding fl_def io_data_sel by blast
  obtain uo where U: "\<And>buf. (if RANGE_HAS_UBOUND fl then send_bound ?s (rb_val u) buf else Inr buf) = Inr (buf @ uo)"
    "\<And>data k rest. drop k data = uo @ rest \<Longrightarrow> k \<le> length data \<Longrightarrow>
      \<exists>k'. (if RANGE_HAS_UBOUND fl then recv_bound ?r typmod \<lparr>si_data = data, si_cursor = k\<rparr> else Inr (0, \<lparr>si_data = data, si_cursor = k\<rparr>)) =
         Inr (rb_val u, \<lparr>si_data = data, si_cursor = k'\<rparr>) \<and> drop k' data = rest \<and> k' \<le> length data"
    using bound_binary [of "RANGE_HAS_UBOUND fl" send "rb_val u" rcv ?r typmod ?s] el
      deserialize_valid(2) [OF d wf val] deserialize_absent(2) [OF d] unfolding fl_def io_data_sel by blast
  let ?msg = "fl # lo @ uo"
  have send: "range_send lk rows fs r = Inr (?msg, Some ?s)"
    by (simp only: range_send_def tid gs rbind_simps prod.case io_data_sel d Let_def range_get_flags_def fl_def [symmetric]
        L(1) U(1) pq_sendbyte_def pq_begintypsend_def pq_endtypsend_def append.simps append_assoc)
  obtain k where k: "(if RANGE_HAS_LBOUND fl then recv_bound ?r typmod \<lparr>si_data = ?msg, si_cursor = 1\<rparr>
      else Inr (0, \<lparr>si_data = ?msg, si_cursor = 1\<rparr>)) = Inr (rb_val l, \<lparr>si_data = ?msg, si_cursor = k\<rparr>)"
    "drop k ?msg = uo" "k \<le> length ?msg" using L(2) [of 1 ?msg uo] by auto
  obtain k' where k': "(if RANGE_HAS_UBOUND fl then recv_bound ?r typmod \<lparr>si_data = ?msg, si_cursor = k\<rparr>
      else Inr (0, \<lparr>si_data = ?msg, si_cursor = k\<rparr>)) = Inr (rb_val u, \<lparr>si_data = ?msg, si_cursor = k'\<rparr>)"
    "drop k' ?msg = []" "k' \<le> length ?msg" using U(2) [of k ?msg "[]"] k(2,3) by auto
  have "k' = length ?msg" using k'(2,3) by simp
  then have end_ok: "pq_getmsgend \<lparr>si_data = ?msg, si_cursor = k'\<rparr> = Inr ()" by (simp add: pq_getmsgend_def)
  have get: "pq_getmsgbyte (initStringInfo ?msg) = Inr (fl, \<lparr>si_data = ?msg, si_cursor = 1\<rparr>)"
    by (simp add: pq_getmsgbyte_def initStringInfo_def)
  have "range_recv lk rows fr (initStringInfo ?msg) (type_id tc) typmod = Inr (r, Some ?r)"
    by (simp only: range_recv_def gr get rbind_simps prod.case Let_def wf_flags_mask [OF wf, folded fl_def] k(1) k'(1) end_ok
        io_data_sel deserialize_flag_bounds(1) [OF d, folded fl_def] mk [folded fl_def])
  then show ?thesis using send by blast
qed

interpretation int4io: elem_io int4_row "\<lambda>v. Int32GetDatum (DatumGetInt32 v) = v"
proof
  fix v :: Datum assume v: "Int32GetDatum (DatumGetInt32 v) = v"
  have "int4in (int_text (sint (DatumGetInt32 v))) = Inr v"
    using v sint_fits_32 [of "DatumGetInt32 v"] by (simp add: int4in_text)
  then show "\<exists>inp out s. typinput int4_row = Some (InputProc inp) \<and> typoutput int4_row = Some (OutputProc out) \<and>
      out v = Inr s \<and> (\<forall>p m. inp s p m = Inr v)"
    by (simp add: int4_row_def int4out_text)
  have "pq_getmsgint4 (initStringInfo (be_bytes 4 (DatumGetInt32 v))) =
      Inr (DatumGetInt32 v, (initStringInfo (be_bytes 4 (DatumGetInt32 v)))\<lparr>si_cursor := 4\<rparr>)"
    using getmsgint4(1) [of "initStringInfo (be_bytes 4 (DatumGetInt32 v))" "DatumGetInt32 v" "[]"]
    by (simp add: initStringInfo_def)
  then have "int4recv (initStringInfo (int4send v)) = Inr v"
    using v by (simp add: int4recv_def int4send_def pq_endtypsend_def pq_sendint32_def pq_begintypsend_def)
  then show "\<exists>rcv send bs. typreceive int4_row = Some (ReceiveProc rcv) \<and> typsend int4_row = Some (SendProc send) \<and>
      send v = Inr bs \<and> length bs < 2 ^ 31 \<and> (\<forall>p m. rcv (initStringInfo bs) p m = Inr v)"
    by (simp add: int4_row_def int4send_def pq_endtypsend_def pq_sendint32_def pq_begintypsend_def)
next
  show "Int32GetDatum (DatumGetInt32 0) = 0" by (simp add: Int32GetDatum_def DatumGetInt32_def)
qed

lemma int8recv_send: "int8recv (initStringInfo (int8send v)) = Inr v"
proof -
  have "be_word (be_bytes 8 v) = v" by (simp only: be_word_bytes) (simp add: take_bit_word_eq_self)
  then show ?thesis
    by (simp add: int8recv_def int8send_def pq_endtypsend_def pq_sendint64_def pq_begintypsend_def
        pq_getmsgint64_def pq_copymsgbytes_def initStringInfo_def)
qed

interpretation int8io: elem_io int8_row "\<lambda>_. True"
proof
  fix v :: Datum
  have "int8in (int_text (sint v)) = Inr v" using sint_fits_64 [of v] by (simp add: int8in_text)
  then show "\<exists>inp out s. typinput int8_row = Some (InputProc inp) \<and> typoutput int8_row = Some (OutputProc out) \<and>
      out v = Inr s \<and> (\<forall>p m. inp s p m = Inr v)"
    by (simp add: int8_row_def int8out_text)
  show "\<exists>rcv send bs. typreceive int8_row = Some (ReceiveProc rcv) \<and> typsend int8_row = Some (SendProc send) \<and>
      send v = Inr bs \<and> length bs < 2 ^ 31 \<and> (\<forall>p m. rcv (initStringInfo bs) p m = Inr v)"
    using int8recv_send [of v] by (simp add: int8_row_def int8send_def pq_endtypsend_def pq_sendint64_def pq_begintypsend_def)
qed simp

section \<open>The shape of a parsed range\<close>

lemma bound_loop_result:
  "bound_loop q ptr buf = Inl e \<Longrightarrow> e = Unexpected_end_of_input"
  "bound_loop q ptr buf = Inr (b, rest) \<Longrightarrow> rest \<noteq> [] \<and> is_delim (hd rest)"
  by (induction q ptr buf rule: bound_loop.induct) (auto split: if_splits list.splits)

lemma range_parse_bound_result:
  "range_parse_bound ptr = Inl e \<Longrightarrow> e = Unexpected_end_of_input"
  "range_parse_bound ptr = Inr (b, infi, rest) \<Longrightarrow> (b = None \<longleftrightarrow> infi) \<and> rest \<noteq> [] \<and> is_delim (hd rest)"
  by (auto simp: range_parse_bound_def rbind_Inl_iff dest: bound_loop_result split: if_splits)

definition parse_errors :: "pg_error set" where
  "parse_errors = {Junk_after_empty, Missing_left_paren, Missing_comma, Too_many_commas, Junk_after_right_paren,
     Unexpected_end_of_input}"

lemma parse_upper_result:
  assumes "flags AND NOT (RANGE_LB_INC OR RANGE_LB_INF) = 0" and "lb \<noteq> None \<longleftrightarrow> flags AND RANGE_LB_INF = 0"
  shows "case parse_upper flags lb ptr of Inl e \<Rightarrow> e \<in> parse_errors | Inr (flags, lb, ub) \<Rightarrow>
    text_flags flags \<and> (lb \<noteq> None \<longleftrightarrow> RANGE_HAS_LBOUND flags) \<and> (ub \<noteq> None \<longleftrightarrow> RANGE_HAS_UBOUND flags)"
proof (cases "range_parse_bound ptr")
  case (Inl e)
  then show ?thesis using range_parse_bound_result(1) [OF Inl] by (simp add: parse_upper_def parse_errors_def)
next
  case (Inr p)
  obtain ub infi rest where p: "p = (ub, infi, rest)" by (metis prod_cases3)
  have b: "\<not> bit flags n" if "n \<noteq> 1" "n \<noteq> 3" for n
  proof
    assume "bit flags n"
    then have "bit (flags AND NOT (RANGE_LB_INC OR RANGE_LB_INF)) n"
      using that bit_imp_le_length [of flags n] by (simp add: bit_and_iff bit_not_iff flag_simps)
    then show False using assms(1) by simp
  qed
  define fl where "fl = (if infi then flags OR RANGE_UB_INF else flags)"
  have "text_flags (fl OR x) \<and> (lb \<noteq> None \<longleftrightarrow> RANGE_HAS_LBOUND (fl OR x)) \<and> (ub \<noteq> None \<longleftrightarrow> RANGE_HAS_UBOUND (fl OR x))"
    if "x \<in> {0, RANGE_UB_INC}" for x
    using that assms(2) b [of 0] b [of 4] b [of 5] b [of 6] b [of 7] range_parse_bound_result(2) [OF Inr [unfolded p]]
    by (auto simp: fl_def text_flags_def flag_simps)
  from this [of 0] this [of RANGE_UB_INC] show ?thesis
    using Inr p by (simp add: parse_upper_def parse_errors_def fl_def [symmetric] Let_def)
qed

lemma parse_lower_result:
  assumes "flags \<in> {0, RANGE_LB_INC}"
  shows "case parse_lower flags ptr of Inl e \<Rightarrow> e \<in> parse_errors | Inr (flags, lb, ub) \<Rightarrow>
    text_flags flags \<and> (lb \<noteq> None \<longleftrightarrow> RANGE_HAS_LBOUND flags) \<and> (ub \<noteq> None \<longleftrightarrow> RANGE_HAS_UBOUND flags)"
proof (cases "range_parse_bound ptr")
  case (Inl e)
  then show ?thesis using range_parse_bound_result(1) [OF Inl] by (simp add: parse_lower_def parse_errors_def)
next
  case (Inr p)
  obtain lb infi rest where p: "p = (lb, infi, rest)" by (metis prod_cases3)
  define fl where "fl = (if infi then flags OR RANGE_LB_INF else flags)"
  have "fl AND NOT (RANGE_LB_INC OR RANGE_LB_INF) = 0" "fl AND RANGE_LB_INF = 0 \<longleftrightarrow> \<not> infi"
    using assms by (auto simp: fl_def flag_defs)
  then show ?thesis
    using parse_upper_result [of fl lb "tl rest"] Inr p range_parse_bound_result(2) [OF Inr [unfolded p]]
    by (simp add: parse_lower_def parse_errors_def fl_def [symmetric] Let_def)
qed

lemma range_parse_cases:
  "range_parse str \<in> {Inl Junk_after_empty, Inr (RANGE_EMPTY, None, None), Inl Missing_left_paren,
     parse_lower (if hd (dropWhile isspace str) = CHR ''['' then RANGE_LB_INC else 0) (tl (dropWhile isspace str))}"
proof -
  have *: "(if a then if b then x1 else x2 else if c then x3 else x4) \<in> {x1, x2, x3, x4}" for a b c and x1 x2 x3 x4 :: 'x
    by simp
  show ?thesis unfolding range_parse_def Let_def by (rule *)
qed

text \<open>
  C33. Whatever the input, \<open>range_parse\<close> either raises one of its six syntax errors or
  returns consistent data: the empty flag alone without bounds, or inclusion and
  infinity flags only, with a bound text exactly for each bound that is not infinite.
\<close>

theorem range_parse_result:
  "case range_parse str of
     Inl e \<Rightarrow> e \<in> parse_errors
   | Inr (flags, lb, ub) \<Rightarrow> flags = RANGE_EMPTY \<and> lb = None \<and> ub = None \<or>
       text_flags flags \<and> (lb \<noteq> None \<longleftrightarrow> RANGE_HAS_LBOUND flags) \<and> (ub \<noteq> None \<longleftrightarrow> RANGE_HAS_UBOUND flags)"
proof -
  have weaken: "case r of Inl e \<Rightarrow> e \<in> parse_errors | Inr (flags, lb, ub) \<Rightarrow> flags = RANGE_EMPTY \<and> lb = None \<and> ub = None \<or> P flags lb ub"
    if "r \<in> {Inl Junk_after_empty, Inr (RANGE_EMPTY, None, None), Inl Missing_left_paren, q}"
      "case q of Inl e \<Rightarrow> e \<in> parse_errors | Inr (flags, lb, ub) \<Rightarrow> P flags lb ub"
    for r q :: "(char8 \<times> string option \<times> string option) res" and P
    using that by (auto simp: parse_errors_def split: sum.splits)
  show ?thesis
    by (rule weaken [OF range_parse_cases parse_lower_result]) simp
qed

text \<open>
  C31. Text round trip: for a range type whose element type reads back what it writes,
  \<open>range_out\<close> succeeds on every stored range and \<open>range_in\<close> reads its result back as the
  identical stored value, quoting, escaping and the state of both call sites included.
\<close>

theorem range_text_roundtrip:
  assumes "range_type tc cb" and "elem_io row valid" and "io_catalog lk rows tc row"
    and "io_cache_ok lk rows IOFunc_output fo" and "io_cache_ok lk rows IOFunc_input fi"
    and "range_ok tc cb r" and "\<forall>v \<in> set (rbounds r). valid v"
  shows "\<exists>s fo' fi'. range_out lk rows fo r = Inr (s, fo') \<and> range_in lk rows fi s (type_id tc) typmod = Inr (r, fi')"
  using assms by (rule range_text_io)

definition int4_rows :: "Datum type_rows" where
  "int4_rows oid = (if oid = 23 then Some int4_row else None)"

lemma int4_catalog: "io_catalog int4_lookup int4_rows int4range_typcache int4_row"
  by (simp add: io_catalog_def int4_lookup_def int4_rows_def int4range_typcache_def int4_elemtype_def Let_def)

theorem range_text_roundtrip_witness:
  "\<exists>s fo' fi'. range_out int4_lookup int4_rows None (int4_rng 1 10) = Inr (s, fo') \<and>
     range_in int4_lookup int4_rows None s (type_id int4range_typcache) (-1) = Inr (int4_rng 1 10, fi')"
proof -
  have "\<forall>v \<in> set (rbounds (int4_rng 1 10)). Int32GetDatum (DatumGetInt32 v) = v" by code_simp
  then show ?thesis
    by (intro range_text_roundtrip [OF int4.range_type_axioms int4io.elem_io_axioms int4_catalog])
      (simp_all add: io_cache_ok_def ok_ranges)
qed

text \<open>
  C32. Binary round trip: \<open>range_recv\<close> reads back what \<open>range_send\<close> wrote as the identical
  stored value, and consumes the message exactly.
\<close>

theorem range_binary_roundtrip:
  assumes "range_type tc cb" and "elem_io row valid" and "io_catalog lk rows tc row"
    and "io_cache_ok lk rows IOFunc_send fs" and "io_cache_ok lk rows IOFunc_receive fr"
    and "range_ok tc cb r" and "\<forall>v \<in> set (rbounds r). valid v"
  shows "\<exists>bytes fs' fr'. range_send lk rows fs r = Inr (bytes, fs') \<and>
    range_recv lk rows fr (initStringInfo bytes) (type_id tc) typmod = Inr (r, fr')"
  using assms by (rule range_binary_io)

theorem range_binary_roundtrip_witness:
  "\<exists>bytes fs' fr'. range_send int4_lookup int4_rows None (int4_rng 1 10) = Inr (bytes, fs') \<and>
    range_recv int4_lookup int4_rows None (initStringInfo bytes) (type_id int4range_typcache) (-1) = Inr (int4_rng 1 10, fr')"
proof -
  have "\<forall>v \<in> set (rbounds (int4_rng 1 10)). Int32GetDatum (DatumGetInt32 v) = v" by code_simp
  then show ?thesis
    by (intro range_binary_roundtrip [OF int4.range_type_axioms int4io.elem_io_axioms int4_catalog])
      (simp_all add: io_cache_ok_def ok_ranges)
qed

end
