(* ===== verification/Range_Gist.thy ===== *)
theory Range_Gist
  imports Range_Core
begin

text \<open>
  The GiST operator class of range types (\<open>rangetypes_gist.c\<close>): the union of keys,
  the consistency tests on inner and leaf pages, the equality of keys and the insertion
  penalty. A key on an inner page is a range that covers every range below it; the flag
  \<open>RANGE_CONTAIN_EMPTY\<close> records that some range below it is empty.

  A search of a GiST tree with these functions returns exactly the ranges a sequential
  scan returns: the contract of an operator class is a locale, the search is proved
  correct once inside it, and the range operator class is an interpretation.
\<close>

section \<open>Strategies, entries and queries\<close>

definition RANGESTRAT_BEFORE :: nat where [strat_defs]: "RANGESTRAT_BEFORE = 1"
definition RANGESTRAT_OVERLEFT :: nat where [strat_defs]: "RANGESTRAT_OVERLEFT = 2"
definition RANGESTRAT_OVERLAPS :: nat where [strat_defs]: "RANGESTRAT_OVERLAPS = 3"
definition RANGESTRAT_OVERRIGHT :: nat where [strat_defs]: "RANGESTRAT_OVERRIGHT = 4"
definition RANGESTRAT_AFTER :: nat where [strat_defs]: "RANGESTRAT_AFTER = 5"
definition RANGESTRAT_ADJACENT :: nat where [strat_defs]: "RANGESTRAT_ADJACENT = 6"
definition RANGESTRAT_CONTAINS :: nat where [strat_defs]: "RANGESTRAT_CONTAINS = 7"
definition RANGESTRAT_CONTAINED_BY :: nat where [strat_defs]: "RANGESTRAT_CONTAINED_BY = 8"
definition RANGESTRAT_CONTAINS_ELEM :: nat where [strat_defs]: "RANGESTRAT_CONTAINS_ELEM = 16"
definition RANGESTRAT_EQ :: nat where [strat_defs]: "RANGESTRAT_EQ = 18"

text \<open>
  The fields of a \<open>GISTENTRY\<close> the operator class reads: the key and whether the entry's
  page is a leaf. The query datum is a range for every strategy but
  \<open>RANGESTRAT_CONTAINS_ELEM\<close>, where it is an element; reading it as the other is
  undefined.
\<close>

record 'a GISTENTRY =
  gkey :: "'a RangeType"
  gleaf :: bool

datatype 'a query = QRange "'a RangeType" | QElem 'a

fun DatumGetRangeTypeP :: "'a query \<Rightarrow> 'a RangeType res" where
  "DatumGetRangeTypeP (QRange r) = Inr r"
| "DatumGetRangeTypeP (QElem v) = Inl Undefined_behavior"

fun DatumGetElem :: "'a query \<Rightarrow> 'a res" where
  "DatumGetElem (QElem v) = Inr v"
| "DatumGetElem (QRange r) = Inl Undefined_behavior"

section \<open>Union of keys\<close>

definition range_super_union ::
  "('a::zero) TypeCacheEntry \<Rightarrow> 'a RangeType \<Rightarrow> 'a RangeType \<Rightarrow> 'a RangeType res" where
  "range_super_union typcache r1 r2 =
     (case range_deserialize typcache r1 of (lower1, upper1, empty1) \<Rightarrow>
      case range_deserialize typcache r2 of (lower2, upper2, empty2) \<Rightarrow>
      let flags1 = range_get_flags r1; flags2 = range_get_flags r2 in
      if empty1 then
        (if flags2 AND (RANGE_EMPTY OR RANGE_CONTAIN_EMPTY) \<noteq> 0 then Inr r2
         else Inr (range_set_contain_empty r2))
      else if empty2 then
        (if flags1 AND (RANGE_EMPTY OR RANGE_CONTAIN_EMPTY) \<noteq> 0 then Inr r1
         else Inr (range_set_contain_empty r1))
      else
        let low1 = range_cmp_bounds typcache lower1 lower2 \<le> 0;
            up1 = range_cmp_bounds typcache upper1 upper2 \<ge> 0;
            ce1 = flags1 AND RANGE_CONTAIN_EMPTY \<noteq> 0;
            ce2 = flags2 AND RANGE_CONTAIN_EMPTY \<noteq> 0
        in if low1 \<and> up1 \<and> (ce1 \<or> \<not> ce2) then Inr r1
           else if \<not> low1 \<and> \<not> up1 \<and> (ce2 \<or> \<not> ce1) then Inr r2
           else rbind (make_range typcache (if low1 then lower1 else lower2)
                         (if up1 then upper1 else upper2) False)
                  (\<lambda>result. Inr (if ce1 \<or> ce2 then range_set_contain_empty result else result)))"

fun union_loop ::
  "('a::zero) TypeCacheEntry \<Rightarrow> 'a RangeType \<Rightarrow> 'a GISTENTRY list \<Rightarrow> 'a RangeType res" where
  "union_loop typcache result_range [] = Inr result_range"
| "union_loop typcache result_range (ent # ents) =
     rbind (range_super_union typcache result_range (gkey ent)) (\<lambda>r. union_loop typcache r ents)"

definition range_gist_union ::
  "('a::zero) lookup \<Rightarrow> 'a fnx \<Rightarrow> 'a GISTENTRY list \<Rightarrow> ('a RangeType \<times> 'a fnx) res" where
  "range_gist_union lk fx entryvec =
     (case entryvec of [] \<Rightarrow> Inl Undefined_behavior
      | ent # ents \<Rightarrow>
          with_typcache lk fx (rangetypid (gkey ent)) (\<lambda>typcache. union_loop typcache (gkey ent) ents))"

section \<open>Consistency tests\<close>

definition range_gist_consistent_int ::
  "('a::zero) TypeCacheEntry \<Rightarrow> nat \<Rightarrow> 'a RangeType \<Rightarrow> 'a query \<Rightarrow> bool res" where
  "range_gist_consistent_int typcache strategy key query =
     (let unless_empty = (\<lambda>test. rbind (DatumGetRangeTypeP query) (\<lambda>q.
            if RangeIsEmpty key \<or> RangeIsEmpty q then Inr False else test q));
          negated = (\<lambda>test. unless_empty (\<lambda>q. rbind (test typcache key q) (\<lambda>b. Inr (\<not> b))))
      in
      if strategy = RANGESTRAT_BEFORE then negated range_overright_internal
      else if strategy = RANGESTRAT_OVERLEFT then negated range_after_internal
      else if strategy = RANGESTRAT_OVERLAPS then
        rbind (DatumGetRangeTypeP query) (range_overlaps_internal typcache key)
      else if strategy = RANGESTRAT_OVERRIGHT then negated range_before_internal
      else if strategy = RANGESTRAT_AFTER then negated range_overleft_internal
      else if strategy = RANGESTRAT_ADJACENT then
        unless_empty (\<lambda>q. rbind (range_adjacent_internal typcache key q) (\<lambda>adj.
          if adj then Inr True else range_overlaps_internal typcache key q))
      else if strategy = RANGESTRAT_CONTAINS then
        rbind (DatumGetRangeTypeP query) (range_contains_internal typcache key)
      else if strategy = RANGESTRAT_CONTAINED_BY then
        (if RangeIsOrContainsEmpty key then Inr True
         else rbind (DatumGetRangeTypeP query) (range_overlaps_internal typcache key))
      else if strategy = RANGESTRAT_CONTAINS_ELEM then
        rbind (DatumGetElem query) (\<lambda>v. Inr (range_contains_elem_internal typcache key v))
      else if strategy = RANGESTRAT_EQ then
        rbind (DatumGetRangeTypeP query) (\<lambda>q.
          if RangeIsEmpty q then Inr (RangeIsOrContainsEmpty key)
          else range_contains_internal typcache key q)
      else Inl (Unrecognized_strategy strategy))"

definition range_gist_consistent_leaf ::
  "('a::zero) TypeCacheEntry \<Rightarrow> nat \<Rightarrow> 'a RangeType \<Rightarrow> 'a query \<Rightarrow> bool res" where
  "range_gist_consistent_leaf typcache strategy key query =
     (let on_range = (\<lambda>test. rbind (DatumGetRangeTypeP query) (test typcache key)) in
      if strategy = RANGESTRAT_BEFORE then on_range range_before_internal
      else if strategy = RANGESTRAT_OVERLEFT then on_range range_overleft_internal
      else if strategy = RANGESTRAT_OVERLAPS then on_range range_overlaps_internal
      else if strategy = RANGESTRAT_OVERRIGHT then on_range range_overright_internal
      else if strategy = RANGESTRAT_AFTER then on_range range_after_internal
      else if strategy = RANGESTRAT_ADJACENT then on_range range_adjacent_internal
      else if strategy = RANGESTRAT_CONTAINS then on_range range_contains_internal
      else if strategy = RANGESTRAT_CONTAINED_BY then on_range range_contained_by_internal
      else if strategy = RANGESTRAT_CONTAINS_ELEM then
        rbind (DatumGetElem query) (\<lambda>v. Inr (range_contains_elem_internal typcache key v))
      else if strategy = RANGESTRAT_EQ then on_range range_eq_internal
      else Inl (Unrecognized_strategy strategy))"

text \<open>The result is the answer and the \<open>recheck\<close> flag.\<close>

definition range_gist_consistent ::
  "('a::zero) lookup \<Rightarrow> 'a fnx \<Rightarrow> 'a GISTENTRY \<Rightarrow> 'a query \<Rightarrow> nat
     \<Rightarrow> ((bool \<times> bool) \<times> 'a fnx) res" where
  "range_gist_consistent lk fx entry query strategy =
     (let key = gkey entry; recheck = False in
      with_typcache lk fx (rangetypid key) (\<lambda>typcache.
        rbind (if gleaf entry then range_gist_consistent_leaf typcache strategy key query
               else range_gist_consistent_int typcache strategy key query)
          (\<lambda>b. Inr (b, recheck))))"

section \<open>The operators of the operator class\<close>

text \<open>
  The operators an index on ranges serves, by their strategy numbers in the catalog
  \<open>pg_amop.dat\<close>, each with the function \<open>pg_operator.dat\<close> gives it. The SP-GiST family has
  the same rows. \<open>operator_call\<close> is what a scan of the table evaluates on a row.
\<close>

definition on_range :: "('a::zero) range_op \<Rightarrow> 'a lookup \<Rightarrow> 'a fnx \<Rightarrow> 'a RangeType \<Rightarrow> 'a query
     \<Rightarrow> (bool \<times> 'a fnx) res" where
  "on_range op lk fx r query = rbind (DatumGetRangeTypeP query) (op lk fx r)"

definition range_amop ::
  "(nat \<times> (('a::zero) lookup \<Rightarrow> 'a fnx \<Rightarrow> 'a RangeType \<Rightarrow> 'a query \<Rightarrow> (bool \<times> 'a fnx) res)) list" where
  "range_amop =
     [(1, on_range range_before), (2, on_range range_overleft), (3, on_range range_overlaps),
      (4, on_range range_overright), (5, on_range range_after), (6, on_range range_adjacent),
      (7, on_range range_contains), (8, on_range range_contained_by),
      (16, \<lambda>lk fx r query. rbind (DatumGetElem query) (range_contains_elem lk fx r)),
      (18, on_range range_eq)]"

definition operator_call ::
  "('a::zero) lookup \<Rightarrow> 'a fnx \<Rightarrow> 'a RangeType \<Rightarrow> nat \<times> 'a query \<Rightarrow> bool res" where
  "operator_call lk fx r key =
     (case key of (strategy, query) \<Rightarrow>
      (case map_of range_amop strategy of
         None \<Rightarrow> Inl (Unrecognized_strategy strategy)
       | Some op \<Rightarrow> rbind (op lk fx r query) (\<lambda>(b, fx'). Inr b)))"

section \<open>Equality of keys\<close>

definition range_gist_same ::
  "('a::zero) lookup \<Rightarrow> 'a fnx \<Rightarrow> 'a RangeType \<Rightarrow> 'a RangeType \<Rightarrow> (bool \<times> 'a fnx) res" where
  "range_gist_same lk fx r1 r2 =
     (if range_get_flags r1 \<noteq> range_get_flags r2 then Inr (False, fx)
      else with_typcache lk fx (rangetypid r1) (\<lambda>typcache. range_eq_internal typcache r1 r2))"

section \<open>Penalty\<close>

definition INFINITE_BOUND_PENALTY :: real where "INFINITE_BOUND_PENALTY = 2"
definition CONTAIN_EMPTY_PENALTY :: real where "CONTAIN_EMPTY_PENALTY = 1"
definition DEFAULT_SUBTYPE_DIFF_PENALTY :: real where "DEFAULT_SUBTYPE_DIFF_PENALTY = 1"

text \<open>The caller has checked that the type has a \<open>subtype_diff\<close> function.\<close>

definition call_subtype_diff :: "'a TypeCacheEntry \<Rightarrow> 'a \<Rightarrow> 'a \<Rightarrow> float8 res" where
  "call_subtype_diff typcache val1 val2 =
     (case rng_subdiff typcache of None \<Rightarrow> Inl Undefined_behavior
      | Some subdiff \<Rightarrow>
          let value' = subdiff val1 val2 in
          Inr (if f_le (Fin 0) value' then value' else Fin 0))"

text \<open>The extension of a key by one bound, or the constant that stands in for it.\<close>

definition extension_penalty :: "'a TypeCacheEntry \<Rightarrow> 'a \<Rightarrow> 'a \<Rightarrow> float8 res" where
  "extension_penalty typcache val1 val2 =
     (if rng_subdiff typcache \<noteq> None then call_subtype_diff typcache val1 val2
      else Inr (Fin DEFAULT_SUBTYPE_DIFF_PENALTY))"

text \<open>The four classes of a new range: empty, unbounded, bounded on one side, normal.\<close>

definition penalty_empty ::
  "'a RangeType \<Rightarrow> 'a RangeBound \<Rightarrow> 'a RangeBound \<Rightarrow> bool \<Rightarrow> float8" where
  "penalty_empty orig orig_lower orig_upper orig_empty =
     (if orig_empty then Fin 0
      else if RangeIsOrContainsEmpty orig then Fin CONTAIN_EMPTY_PENALTY
      else if rb_infinite orig_lower \<and> rb_infinite orig_upper then Fin (2 * CONTAIN_EMPTY_PENALTY)
      else if rb_infinite orig_lower \<or> rb_infinite orig_upper then Fin (3 * CONTAIN_EMPTY_PENALTY)
      else Fin (4 * CONTAIN_EMPTY_PENALTY))"

definition penalty_unbounded ::
  "'a RangeType \<Rightarrow> 'a RangeBound \<Rightarrow> 'a RangeBound \<Rightarrow> float8" where
  "penalty_unbounded orig orig_lower orig_upper =
     (let penalty =
            (if rb_infinite orig_lower \<and> rb_infinite orig_upper then Fin 0
             else if rb_infinite orig_lower \<or> rb_infinite orig_upper
             then Fin INFINITE_BOUND_PENALTY
             else Fin (2 * INFINITE_BOUND_PENALTY))
      in if RangeIsOrContainsEmpty orig then f_add penalty (Fin CONTAIN_EMPTY_PENALTY)
         else penalty)"

definition penalty_lower_inf ::
  "'a TypeCacheEntry \<Rightarrow> 'a RangeBound \<Rightarrow> 'a RangeBound \<Rightarrow> bool \<Rightarrow> 'a RangeBound \<Rightarrow> float8 res" where
  "penalty_lower_inf typcache orig_lower orig_upper orig_empty new_upper =
     (if \<not> orig_empty \<and> rb_infinite orig_lower then
        if rb_infinite orig_upper then Inr (Fin 0)
        else if range_cmp_bounds typcache new_upper orig_upper > 0
        then extension_penalty typcache (rb_val new_upper) (rb_val orig_upper)
        else Inr (Fin 0)
      else Inr PInf)"

definition penalty_upper_inf ::
  "'a TypeCacheEntry \<Rightarrow> 'a RangeBound \<Rightarrow> 'a RangeBound \<Rightarrow> bool \<Rightarrow> 'a RangeBound \<Rightarrow> float8 res" where
  "penalty_upper_inf typcache orig_lower orig_upper orig_empty new_lower =
     (if \<not> orig_empty \<and> rb_infinite orig_upper then
        if rb_infinite orig_lower then Inr (Fin 0)
        else if range_cmp_bounds typcache new_lower orig_lower < 0
        then extension_penalty typcache (rb_val orig_lower) (rb_val new_lower)
        else Inr (Fin 0)
      else Inr PInf)"

definition penalty_normal ::
  "'a TypeCacheEntry \<Rightarrow> 'a RangeBound \<Rightarrow> 'a RangeBound \<Rightarrow> bool \<Rightarrow> 'a RangeBound \<Rightarrow> 'a RangeBound
     \<Rightarrow> float8 res" where
  "penalty_normal typcache orig_lower orig_upper orig_empty new_lower new_upper =
     (if orig_empty \<or> rb_infinite orig_lower \<or> rb_infinite orig_upper then Inr PInf
      else
        rbind (if range_cmp_bounds typcache new_lower orig_lower < 0
               then extension_penalty typcache (rb_val orig_lower) (rb_val new_lower)
               else Inr (Fin 0)) (\<lambda>dl.
        rbind (if range_cmp_bounds typcache new_upper orig_upper > 0
               then extension_penalty typcache (rb_val new_upper) (rb_val orig_upper)
               else Inr (Fin 0)) (\<lambda>du.
        Inr (f_add (f_add (Fin 0) dl) du))))"

definition range_gist_penalty ::
  "('a::zero) lookup \<Rightarrow> 'a fnx \<Rightarrow> 'a GISTENTRY \<Rightarrow> 'a GISTENTRY \<Rightarrow> (float8 \<times> 'a fnx) res" where
  "range_gist_penalty lk fx origentry newentry =
     (let orig = gkey origentry; new = gkey newentry in
      if rangetypid orig \<noteq> rangetypid new then Inl Range_types_do_not_match
      else with_typcache lk fx (rangetypid orig) (\<lambda>typcache.
        case range_deserialize typcache orig of (orig_lower, orig_upper, orig_empty) \<Rightarrow>
        case range_deserialize typcache new of (new_lower, new_upper, new_empty) \<Rightarrow>
          if new_empty then Inr (penalty_empty orig orig_lower orig_upper orig_empty)
          else if rb_infinite new_lower \<and> rb_infinite new_upper
          then Inr (penalty_unbounded orig orig_lower orig_upper)
          else if rb_infinite new_lower
          then penalty_lower_inf typcache orig_lower orig_upper orig_empty new_upper
          else if rb_infinite new_upper
          then penalty_upper_inf typcache orig_lower orig_upper orig_empty new_lower
          else penalty_normal typcache orig_lower orig_upper orig_empty new_lower new_upper))"

section \<open>Keys and what they cover\<close>

text \<open>
  A key is a stored range in canonical form, with the \<open>RANGE_CONTAIN_EMPTY\<close> bit set or
  not on a non-empty one. A key covers a range, or another key, when it contains it and
  its flags admit the empty ranges the other stands for.
\<close>

definition clear_contain_empty :: "'a RangeType \<Rightarrow> 'a RangeType" where
  "clear_contain_empty r = r\<lparr>rflags := rflags r AND NOT RANGE_CONTAIN_EMPTY\<rparr>"

definition gist_key ::
  "('a::zero) TypeCacheEntry \<Rightarrow> ('a RangeBound \<Rightarrow> bool) \<Rightarrow> 'a RangeType \<Rightarrow> bool" where
  "gist_key tc cb r \<longleftrightarrow> range_ok tc cb (clear_contain_empty r) \<and>
     (RangeIsEmpty r \<longrightarrow> rflags r AND RANGE_CONTAIN_EMPTY = 0)"

definition gist_covers ::
  "('a::zero) TypeCacheEntry \<Rightarrow> 'a RangeType \<Rightarrow> 'a RangeType \<Rightarrow> bool" where
  "gist_covers tc key r \<longleftrightarrow>
     range_contains_internal tc key r = Inr True \<and>
     (RangeIsOrContainsEmpty r \<longrightarrow> RangeIsOrContainsEmpty key)"

lemma clear_bit: "bit (rflags (clear_contain_empty r)) n \<longleftrightarrow> bit (rflags r) n \<and> n \<noteq> 7"
  by (auto simp: clear_contain_empty_def bit_and_iff bit_not_iff flag_const_bits bit_imp_le_length
      dest: bit_imp_le_length)

lemma clear_sel [simp]:
  "rangetypid (clear_contain_empty r) = rangetypid r" "rbounds (clear_contain_empty r) = rbounds r"
  "RangeIsEmpty (clear_contain_empty r) = RangeIsEmpty r"
  by (simp_all add: RangeIsEmpty_bit clear_bit) (simp_all add: clear_contain_empty_def)

lemma deserialize_clear [simp]:
  "range_deserialize tc (clear_contain_empty r) = range_deserialize tc r"
  by (simp add: range_deserialize_def Let_def flag_simps clear_bit)

lemma set_contain_empty_sel [simp]:
  "rangetypid (range_set_contain_empty r) = rangetypid r"
  "RangeIsEmpty (range_set_contain_empty r) = RangeIsEmpty r"
  "range_deserialize tc (range_set_contain_empty r) = range_deserialize tc r"
  "RangeIsOrContainsEmpty (range_set_contain_empty r)"
  by (simp_all add: range_set_contain_empty_def RangeIsEmpty_bit RangeIsOrContainsEmpty_bit
      range_deserialize_def Let_def flag_simps)

lemma clear_set_contain_empty [simp]:
  "clear_contain_empty (range_set_contain_empty r) = clear_contain_empty r"
proof -
  have "(f OR m) AND NOT m = f AND NOT m" for f m :: char8
    by (rule bit_word_eqI) (auto simp: bit_simps)
  then show ?thesis by (simp add: clear_contain_empty_def range_set_contain_empty_def)
qed

lemma adjacent_clear:
  "range_adjacent_internal tc (clear_contain_empty r) q = range_adjacent_internal tc r q"
  by (simp add: range_adjacent_internal_def)

context range_type
begin

lemma gist_keyD:
  assumes "gist_key tc cb r" and "range_deserialize tc r = (l, u, e)"
  shows "rangetypid r = type_id tc" and "rb_lower l" and "\<not> rb_lower u" and "e = RangeIsEmpty r"
    and "\<not> e \<Longrightarrow> cb l" and "\<not> e \<Longrightarrow> cb u" and "\<not> e \<Longrightarrow> cle (range_cmp_bounds tc) l u"
    and "range_ok tc cb (clear_contain_empty r)"
  using assms range_okD [of "clear_contain_empty r" l u e] deserialize_fields [OF assms(2)]
    ok_typid [of "clear_contain_empty r"]
  by (auto simp: gist_key_def)

lemma gist_key_typid: "gist_key tc cb r \<Longrightarrow> rangetypid r = type_id tc"
  using gist_keyD(1) by (metis prod_cases3)

lemma range_ok_bit7: "range_ok tc cb r \<Longrightarrow> \<not> bit (rflags r) 7"
  by (auto simp: range_ok_def range_wf_def flag_simps split: if_splits)

lemma ok_gist_key:
  assumes "range_ok tc cb r"
  shows "gist_key tc cb r" and "RangeIsOrContainsEmpty r \<longleftrightarrow> RangeIsEmpty r"
proof -
  have b: "\<not> bit (rflags r) 7" using range_ok_bit7 [OF assms] .
  have "rflags (clear_contain_empty r) = rflags r"
    using b by (intro char8_bits_eqI) (simp_all add: clear_bit)
  then have "clear_contain_empty r = r"
    by (cases r) (simp add: clear_contain_empty_def)
  then show "gist_key tc cb r"
    using assms b by (simp add: gist_key_def flag_simps)
  show "RangeIsOrContainsEmpty r \<longleftrightarrow> RangeIsEmpty r"
    using b by (simp add: RangeIsOrContainsEmpty_bit RangeIsEmpty_bit)
qed

lemma gist_key_set_contain_empty:
  "gist_key tc cb r \<Longrightarrow> \<not> RangeIsEmpty r \<Longrightarrow> gist_key tc cb (range_set_contain_empty r)"
  by (simp add: gist_key_def)

lemma gist_covers_iff:
  assumes "gist_key tc cb k" and "gist_key tc cb r"
    and "range_deserialize tc k = (lk, uk, ek)" and "range_deserialize tc r = (lr, ur, er)"
  shows "gist_covers tc k r \<longleftrightarrow>
    (er \<or> \<not> ek \<and> cle (range_cmp_bounds tc) lk lr \<and> cle (range_cmp_bounds tc) ur uk) \<and>
    (RangeIsOrContainsEmpty r \<longrightarrow> RangeIsOrContainsEmpty k)"
  using gist_keyD(1) [OF assms(1,3)] gist_keyD(1) [OF assms(2,4)]
    contains_iff [OF _ assms(3,4)]
  by (simp add: gist_covers_def)

lemma gist_covers_trans:
  assumes "gist_key tc cb k" and "gist_key tc cb m" and "gist_key tc cb r"
    and "gist_covers tc k m" and "gist_covers tc m r"
  shows "gist_covers tc k r"
proof -
  obtain lk uk ek where k: "range_deserialize tc k = (lk, uk, ek)" by (metis prod_cases3)
  obtain lm um em where m: "range_deserialize tc m = (lm, um, em)" by (metis prod_cases3)
  obtain lr ur er where r: "range_deserialize tc r = (lr, ur, er)" by (metis prod_cases3)
  show ?thesis
    using assms(4,5) bnd.cle_trans [of lk lm lr] bnd.cle_trans [of ur um uk]
    unfolding gist_covers_iff [OF assms(1,2) k m] gist_covers_iff [OF assms(2,3) m r]
      gist_covers_iff [OF assms(1,3) k r] by blast
qed

text \<open>The union of two keys is the least key that covers both.\<close>

lemma super_union_nonempty:
  assumes k1: "gist_key tc cb r1" and k2: "gist_key tc cb r2"
    and d1: "range_deserialize tc r1 = (l1, u1, False)"
    and d2: "range_deserialize tc r2 = (l2, u2, False)"
  obtains r l u where "range_super_union tc r1 r2 = Inr r" and "gist_key tc cb r"
    and "range_deserialize tc r = (l, u, False)"
    and "\<And>b. cle (range_cmp_bounds tc) b l \<longleftrightarrow>
      cle (range_cmp_bounds tc) b l1 \<and> cle (range_cmp_bounds tc) b l2"
    and "\<And>b. cle (range_cmp_bounds tc) u b \<longleftrightarrow>
      cle (range_cmp_bounds tc) u1 b \<and> cle (range_cmp_bounds tc) u2 b"
    and "RangeIsOrContainsEmpty r \<longleftrightarrow> RangeIsOrContainsEmpty r1 \<or> RangeIsOrContainsEmpty r2"
proof -
  let ?le = "cle (range_cmp_bounds tc)"
  define ll uu where "ll = min_bound tc l1 l2" and "uu = max_bound tc u2 u1"
  note K1 = gist_keyD [OF k1 d1] and K2 = gist_keyD [OF k2 d2]
  have ne: "\<not> bit (rflags r1) 0" "\<not> bit (rflags r2) 0"
    using K1(4) K2(4) by (simp_all add: RangeIsEmpty_bit)
  have "?le ll uu" "rb_lower ll" "\<not> rb_lower uu" "cb ll" "cb uu"
    using K1(2,3,5-7) K2(2,3,5-7) bnd.cle_trans [of l2 u2 u1]
    by (auto simp: ll_def uu_def min_max_bound) (auto simp: min_bound_def max_bound_def split: if_splits)
  then obtain m where m: "make_range tc ll uu False = Inr m" "range_ok tc cb m"
    "range_deserialize tc m = (norm_bound ll, norm_bound uu, False)"
    using make_range_le [of ll uu] by blast
  define r where "r = (if ?le l1 l2 \<and> ?le u2 u1 \<and> (bit (rflags r1) 7 \<or> \<not> bit (rflags r2) 7) then r1
    else if \<not> ?le l1 l2 \<and> \<not> ?le u2 u1 \<and> (bit (rflags r2) 7 \<or> \<not> bit (rflags r1) 7) then r2
    else if bit (rflags r1) 7 \<or> bit (rflags r2) 7 then range_set_contain_empty m else m)"
  have "range_super_union tc r1 r2 = Inr r"
    using m(1) by (simp add: range_super_union_def d1 d2 Let_def bnd.cmp_signs flag_simps
        range_get_flags_def r_def ll_def uu_def min_bound_def max_bound_def)
  moreover have "gist_key tc cb r"
    using k1 k2 ok_gist_key(1) [OF m(2)] m(3) deserialize_fields(3) [OF m(3)]
    by (simp add: r_def gist_key_set_contain_empty)
  moreover have "RangeIsOrContainsEmpty r \<longleftrightarrow> RangeIsOrContainsEmpty r1 \<or> RangeIsOrContainsEmpty r2"
    using ne ok_gist_key(2) [OF m(2)] deserialize_fields(3) [OF m(3)]
    by (simp add: r_def) (auto simp: RangeIsOrContainsEmpty_bit)
  moreover have "range_deserialize tc r = (ll, uu, False) \<or>
      range_deserialize tc r = (norm_bound ll, norm_bound uu, False)"
    using d1 d2 m(3) by (auto simp: r_def ll_def uu_def min_bound_def max_bound_def)
  ultimately show ?thesis
    using that [of r ll uu] that [of r "norm_bound ll" "norm_bound uu"]
    by (auto simp: ll_def uu_def min_max_bound)
qed

lemma super_union_empty:
  assumes k1: "gist_key tc cb r1" and k2: "gist_key tc cb r2"
    and emp: "RangeIsEmpty r1 \<or> RangeIsEmpty r2"
  obtains r where "range_super_union tc r1 r2 = Inr r" and "gist_key tc cb r"
    and "range_deserialize tc r = range_deserialize tc (if RangeIsEmpty r1 then r2 else r1)"
    and "RangeIsOrContainsEmpty r"
proof -
  obtain l1 u1 e1 where d1: "range_deserialize tc r1 = (l1, u1, e1)" by (metis prod_cases3)
  obtain l2 u2 e2 where d2: "range_deserialize tc r2 = (l2, u2, e2)" by (metis prod_cases3)
  define r where "r = (if RangeIsEmpty r1 then
      if RangeIsOrContainsEmpty r2 then r2 else range_set_contain_empty r2
    else if RangeIsOrContainsEmpty r1 then r1 else range_set_contain_empty r1)"
  have imp: "RangeIsEmpty x \<Longrightarrow> RangeIsOrContainsEmpty x" for x :: "'a RangeType"
    by (simp add: RangeIsEmpty_bit RangeIsOrContainsEmpty_bit)
  have "range_super_union tc r1 r2 = Inr r"
    using emp gist_keyD(4) [OF k1 d1] gist_keyD(4) [OF k2 d2]
    by (auto simp: range_super_union_def d1 d2 Let_def r_def RangeIsOrContainsEmpty_def)
  moreover have "gist_key tc cb r"
    using k1 k2 imp [of r1] imp [of r2] by (auto simp: r_def intro: gist_key_set_contain_empty)
  ultimately show ?thesis
    by (rule that) (simp_all add: r_def)
qed

lemma super_union_least:
  assumes k1: "gist_key tc cb r1" and k2: "gist_key tc cb r2"
  obtains r where "range_super_union tc r1 r2 = Inr r" and "gist_key tc cb r"
    and "\<And>k. gist_key tc cb k \<Longrightarrow>
      gist_covers tc k r \<longleftrightarrow> gist_covers tc k r1 \<and> gist_covers tc k r2"
proof -
  obtain l1 u1 e1 where d1: "range_deserialize tc r1 = (l1, u1, e1)" by (metis prod_cases3)
  obtain l2 u2 e2 where d2: "range_deserialize tc r2 = (l2, u2, e2)" by (metis prod_cases3)
  note E = gist_keyD(4) [OF k1 d1] gist_keyD(4) [OF k2 d2]
  obtain r l u e where r: "range_super_union tc r1 r2 = Inr r" "gist_key tc cb r"
    and dr: "range_deserialize tc r = (l, u, e)"
    and e: "e \<longleftrightarrow> e1 \<and> e2"
    and b: "\<And>b. \<not> e \<Longrightarrow> cle (range_cmp_bounds tc) b l \<longleftrightarrow>
      (e1 \<or> cle (range_cmp_bounds tc) b l1) \<and> (e2 \<or> cle (range_cmp_bounds tc) b l2)"
    "\<And>b. \<not> e \<Longrightarrow> cle (range_cmp_bounds tc) u b \<longleftrightarrow>
      (e1 \<or> cle (range_cmp_bounds tc) u1 b) \<and> (e2 \<or> cle (range_cmp_bounds tc) u2 b)"
    and f: "RangeIsOrContainsEmpty r \<longleftrightarrow>
      RangeIsOrContainsEmpty r1 \<or> RangeIsOrContainsEmpty r2"
  proof (cases "e1 \<or> e2")
    case False
    then have D: "range_deserialize tc r1 = (l1, u1, False)" "range_deserialize tc r2 = (l2, u2, False)"
      using d1 d2 by auto
    show ?thesis
      by (rule super_union_nonempty [OF k1 k2 D], rule that [of _ _ _ False]) (use False in simp_all)
  next
    case True
    then have emp: "RangeIsEmpty r1 \<or> RangeIsEmpty r2" using E by simp
    have "RangeIsOrContainsEmpty r1 \<or> RangeIsOrContainsEmpty r2"
      using emp by (auto simp: RangeIsEmpty_bit RangeIsOrContainsEmpty_bit)
    moreover obtain r where "range_super_union tc r1 r2 = Inr r" "gist_key tc cb r"
      "range_deserialize tc r = range_deserialize tc (if e1 then r2 else r1)"
      "RangeIsOrContainsEmpty r"
      using super_union_empty [OF k1 k2 emp] unfolding E by blast
    ultimately show ?thesis
      using True d1 d2
      by (intro that [of r "if e1 then l2 else l1" "if e1 then u2 else u1" "e1 \<and> e2"]) (simp_all, blast+)
  qed
  have "gist_covers tc k r \<longleftrightarrow> gist_covers tc k r1 \<and> gist_covers tc k r2"
    if k: "gist_key tc cb k" for k
  proof -
    obtain lk uk ek where dk: "range_deserialize tc k = (lk, uk, ek)" by (metis prod_cases3)
    show ?thesis
      unfolding gist_covers_iff [OF k r(2) dk dr] gist_covers_iff [OF k k1 dk d1]
        gist_covers_iff [OF k k2 dk d2] using e b f by auto
  qed
  with r that show ?thesis by blast
qed

text \<open>The union of a page's keys: \<open>range_gist_union\<close>.\<close>

lemma union_loop_least:
  assumes "gist_key tc cb r" and "\<forall>ent \<in> set ents. gist_key tc cb (gkey ent)"
  obtains u where "union_loop tc r ents = Inr u" and "gist_key tc cb u"
    and "\<And>k. gist_key tc cb k \<Longrightarrow> gist_covers tc k u \<longleftrightarrow>
      gist_covers tc k r \<and> (\<forall>ent \<in> set ents. gist_covers tc k (gkey ent))"
  using assms
proof (induction ents arbitrary: r thesis)
  case (Cons ent ents)
  obtain s where s: "range_super_union tc r (gkey ent) = Inr s" "gist_key tc cb s"
    and c: "\<And>k. gist_key tc cb k \<Longrightarrow>
      gist_covers tc k s \<longleftrightarrow> gist_covers tc k r \<and> gist_covers tc k (gkey ent)"
    using super_union_least [of r "gkey ent"] Cons.prems(2,3) by auto
  show ?case
    by (rule Cons.IH [of s]) (use Cons.prems s c in auto)
qed simp

lemma gist_covers_refl: "gist_key tc cb k \<Longrightarrow> gist_covers tc k k"
  by (cases "range_deserialize tc k") (simp add: gist_covers_iff)

end

section \<open>Consistency of inner keys\<close>

text \<open>
  The strategies and the kind of query they take. The query is a stored range of the
  indexed type or an element.
\<close>

definition range_strategies :: "nat set" where
  "range_strategies =
     {RANGESTRAT_BEFORE, RANGESTRAT_OVERLEFT, RANGESTRAT_OVERLAPS, RANGESTRAT_OVERRIGHT,
      RANGESTRAT_AFTER, RANGESTRAT_ADJACENT, RANGESTRAT_CONTAINS, RANGESTRAT_CONTAINED_BY,
      RANGESTRAT_EQ}"

fun query_ok ::
  "('a::zero) TypeCacheEntry \<Rightarrow> ('a RangeBound \<Rightarrow> bool) \<Rightarrow> nat \<Rightarrow> 'a query \<Rightarrow> bool" where
  "query_ok tc cb strategy (QRange q) \<longleftrightarrow> strategy \<in> range_strategies \<and> range_ok tc cb q"
| "query_ok tc cb strategy (QElem v) \<longleftrightarrow> strategy = RANGESTRAT_CONTAINS_ELEM"

context range_type
begin

text \<open>No bound fits between two bounds that meet.\<close>

lemma meet_squeeze:
  assumes "range_cmp_bound_values tc a b = 0" and "rb_inclusive a \<noteq> rb_inclusive b"
    and "\<not> rb_lower a" and "rb_lower b"
  shows "\<not> rb_lower a' \<Longrightarrow> cle (range_cmp_bounds tc) a a' \<Longrightarrow> \<not> cle (range_cmp_bounds tc) b a' \<Longrightarrow>
      range_cmp_bound_values tc a' b = 0 \<and> rb_inclusive a' \<noteq> rb_inclusive b"
    and "rb_lower b' \<Longrightarrow> cle (range_cmp_bounds tc) b' b \<Longrightarrow> \<not> cle (range_cmp_bounds tc) b' a \<Longrightarrow>
      range_cmp_bound_values tc a b' = 0 \<and> rb_inclusive a \<noteq> rb_inclusive b'"
proof -
  let ?c = "cle (rng_cmp_proc tc)"
  have fin: "\<not> rb_infinite a" "\<not> rb_infinite b"
    using values_finite [of a b] assms by auto
  have z: "?c (rb_val a) (rb_val b)" "?c (rb_val b) (rb_val a)"
    using assms(1) fin by (simp_all add: range_cmp_bound_values_def zero_iff)
  have iff: "range_cmp_bound_values tc x y = 0 \<longleftrightarrow> ?c (rb_val x) (rb_val y) \<and> ?c (rb_val y) (rb_val x)"
    if "\<not> rb_infinite x" "\<not> rb_infinite y" for x y
    using that by (simp add: range_cmp_bound_values_def zero_iff)
  note ds = cmp_bounds_le_iff bnd_cls_def bnd_off_def
  show "range_cmp_bound_values tc a' b = 0 \<and> rb_inclusive a' \<noteq> rb_inclusive b"
    if h: "\<not> rb_lower a'" "cle (range_cmp_bounds tc) a a'" "\<not> cle (range_cmp_bounds tc) b a'"
  proof -
    have fa: "\<not> rb_infinite a'"
      using h upper_inf_greatest by blast
    with h fin have "?c (rb_val a) (rb_val a')" by (simp add: ds split: if_splits)
    moreover from this have "?c (rb_val b) (rb_val a')" using z cle_trans by blast
    moreover from this have "?c (rb_val a') (rb_val b)" using h(3) fa fin by (auto simp: ds)
    moreover from this have "?c (rb_val a') (rb_val a)" using z cle_trans by blast
    ultimately show ?thesis
      using h fa fin assms(2-4) iff [OF fa fin(2)] by (auto simp: ds split: if_splits)
  qed
  show "range_cmp_bound_values tc a b' = 0 \<and> rb_inclusive a \<noteq> rb_inclusive b'"
    if h: "rb_lower b'" "cle (range_cmp_bounds tc) b' b" "\<not> cle (range_cmp_bounds tc) b' a"
  proof -
    have fb: "\<not> rb_infinite b'"
      using h lower_inf_least by blast
    with h fin have "?c (rb_val b') (rb_val b)" by (simp add: ds split: if_splits)
    moreover from this have "?c (rb_val b') (rb_val a)" using z cle_trans by blast
    moreover from this have "?c (rb_val a) (rb_val b')" using h(3) fb fin by (auto simp: ds)
    moreover from this have "?c (rb_val b) (rb_val b')" using z cle_trans by blast
    ultimately show ?thesis
      using h fb fin assms(2-4) iff [OF fin(1) fb] by (auto simp: ds split: if_splits)
  qed
qed

lemma meet_less:
  assumes "range_cmp_bound_values tc a b = 0" and "rb_inclusive a \<noteq> rb_inclusive b"
    and "\<not> rb_lower a" and "rb_lower b"
  shows "cle (range_cmp_bounds tc) a b"
proof -
  have fin: "\<not> rb_infinite a" "\<not> rb_infinite b"
    using values_finite [of a b] assms by simp_all
  then have "cle (rng_cmp_proc tc) (rb_val a) (rb_val b)"
    using assms(1) by (simp add: range_cmp_bound_values_def cle_def)
  with fin show ?thesis
    using assms(3,4) by (simp add: cmp_bounds_le_iff bnd_cls_def bnd_off_def)
qed

lemma key_adjacent_eq:
  assumes "gist_key tc cb k" and "range_ok tc cb q"
    and "range_deserialize tc k = (lk, uk, False)" and "range_deserialize tc q = (lq, uq, False)"
  shows "range_adjacent_internal tc k q =
    Inr (range_cmp_bound_values tc uk lq = 0 \<and> rb_inclusive uk \<noteq> rb_inclusive lq \<or>
         range_cmp_bound_values tc uq lk = 0 \<and> rb_inclusive uq \<noteq> rb_inclusive lk)"
  using adjacent_eq [of "clear_contain_empty k" q] gist_keyD(8) [OF assms(1,3)] assms(2-4)
  by (simp add: adjacent_clear)

text \<open>What holds of a covered range and a query, at the level of bounds.\<close>

lemma adjacent_mono:
  assumes k: "gist_key tc cb k" and r: "gist_key tc cb r" and q: "range_ok tc cb q"
    and dk: "range_deserialize tc k = (lk, uk, False)" and dr: "range_deserialize tc r = (lr, ur, False)"
    and dq: "range_deserialize tc q = (lq, uq, False)"
    and "cle (range_cmp_bounds tc) lk lr" and "cle (range_cmp_bounds tc) ur uk"
    and "range_adjacent_internal tc r q = Inr True"
  shows "range_adjacent_internal tc k q = Inr True \<or> range_overlaps_internal tc k q = Inr True"
proof -
  note K = gist_keyD [OF k dk] and R = gist_keyD [OF r dr] and Q = range_okD [OF q dq]
  have t: "rangetypid k = rangetypid q" using K(1) ok_typid [OF q] by simp
  have ov: "range_overlaps_internal tc k q =
    Inr (cle (range_cmp_bounds tc) lk uq \<and> cle (range_cmp_bounds tc) lq uk)"
    using overlaps_nonempty [OF t dk dq] K(7) Q(6) by simp
  have adj: "range_cmp_bound_values tc ur lq = 0 \<and> rb_inclusive ur \<noteq> rb_inclusive lq \<or>
      range_cmp_bound_values tc uq lr = 0 \<and> rb_inclusive uq \<noteq> rb_inclusive lr"
    using assms(9) key_adjacent_eq [OF r q dr dq] by simp
  then show ?thesis
  proof (elim disjE conjE)
    assume m: "range_cmp_bound_values tc ur lq = 0" "rb_inclusive ur \<noteq> rb_inclusive lq"
    have "cle (range_cmp_bounds tc) lk uq"
      using meet_less [OF m R(3) Q(2)] assms(7) R(7) Q(6) bnd.cle_trans [of lk lr ur]
        bnd.cle_trans [of lk ur lq] bnd.cle_trans [of lk lq uq] by blast
    with ov show ?thesis
      using meet_squeeze(1) [OF m R(3) Q(2) K(3) assms(8)] key_adjacent_eq [OF k q dk dq] by auto
  next
    assume m: "range_cmp_bound_values tc uq lr = 0" "rb_inclusive uq \<noteq> rb_inclusive lr"
    have "cle (range_cmp_bounds tc) lq uk"
      using meet_less [OF m Q(3) R(2)] assms(8) R(7) Q(6) bnd.cle_trans [of lq uq lr]
        bnd.cle_trans [of lq lr ur] bnd.cle_trans [of lq ur uk] by blast
    with ov show ?thesis
      using meet_squeeze(2) [OF m Q(3) R(2) K(2) assms(7)] key_adjacent_eq [OF k q dk dq] by auto
  qed
qed

text \<open>
  A query that a covered range satisfies is not rejected by the key above it, for any
  strategy.
\<close>

lemma key_elem_mono:
  assumes k: "gist_key tc cb k" and r: "gist_key tc cb r" and "gist_covers tc k r"
    and "range_contains_elem_internal tc r v"
  shows "range_contains_elem_internal tc k v"
proof -
  obtain lk uk ek where dk: "range_deserialize tc k = (lk, uk, ek)" by (metis prod_cases3)
  obtain lr ur er where dr: "range_deserialize tc r = (lr, ur, er)" by (metis prod_cases3)
  show ?thesis
    using assms(3,4) bnd.cle_trans [of lk lr "pt v"] bnd.cle_trans [of "pt v" ur uk]
    by (auto simp: gist_covers_iff [OF k r dk dr] contains_elem_iff [OF dk] contains_elem_iff [OF dr])
qed

lemma consistent_int_nonempty:
  assumes k: "gist_key tc cb k" and r: "gist_key tc cb r" and q: "range_ok tc cb q"
    and dk: "range_deserialize tc k = (lk, uk, False)" and dr: "range_deserialize tc r = (lr, ur, False)"
    and dq: "range_deserialize tc q = (lq, uq, False)"
    and le: "cle (range_cmp_bounds tc) lk lr" "cle (range_cmp_bounds tc) ur uk"
    and s: "strategy \<in> range_strategies"
    and leaf: "range_gist_consistent_leaf tc strategy r (QRange q) = Inr True"
  shows "range_gist_consistent_int tc strategy k (QRange q) = Inr True"
proof -
  note K = gist_keyD [OF k dk] and R = gist_keyD [OF r dr] and Q = range_okD [OF q dq]
  have t: "rangetypid k = rangetypid q" "rangetypid r = rangetypid q" "rangetypid q = rangetypid r"
    using K(1) R(1) ok_typid [OF q] by simp_all
  note E = K(4) R(4) deserialize_fields(3) [OF dq]
  note ops = internal_ops_nonempty(1-6) [OF t(1) dk dq] internal_ops_nonempty(1-6) [OF t(2) dr dq]
    internal_ops_nonempty(1-6) [OF t(3) dq dr]
  have ov: "range_overlaps_internal tc k q =
      Inr (cle (range_cmp_bounds tc) lk uq \<and> cle (range_cmp_bounds tc) lq uk)"
    "range_overlaps_internal tc r q =
      Inr (cle (range_cmp_bounds tc) lr uq \<and> cle (range_cmp_bounds tc) lq ur)"
    using overlaps_nonempty [OF t(1) dk dq] overlaps_nonempty [OF t(2) dr dq] K(7) R(7) Q(6) by simp_all
  have up: "cle (range_cmp_bounds tc) x lk \<Longrightarrow> cle (range_cmp_bounds tc) x lr"
    "cle (range_cmp_bounds tc) x lr \<Longrightarrow> cle (range_cmp_bounds tc) x ur"
    "cle (range_cmp_bounds tc) x ur \<Longrightarrow> cle (range_cmp_bounds tc) x uk"
    "cle (range_cmp_bounds tc) uk x \<Longrightarrow> cle (range_cmp_bounds tc) ur x"
    "cle (range_cmp_bounds tc) ur x \<Longrightarrow> cle (range_cmp_bounds tc) lr x"
    "cle (range_cmp_bounds tc) lr x \<Longrightarrow> cle (range_cmp_bounds tc) lk x" for x
    using le R(7) bnd.cle_trans by blast+
  from s show ?thesis
    unfolding range_strategies_def
  proof (elim insertE emptyE)
    assume st: "strategy = RANGESTRAT_ADJACENT"
    then have "range_adjacent_internal tc r q = Inr True"
      using leaf by (simp add: range_gist_consistent_leaf_def strat_defs)
    from adjacent_mono [OF k r q dk dr dq le this] show ?thesis
      using st E by (auto simp: range_gist_consistent_int_def strat_defs key_adjacent_eq [OF k q dk dq])
  qed (use leaf E up in \<open>auto simp: range_gist_consistent_int_def range_gist_consistent_leaf_def
      range_contained_by_internal_def strat_defs ops ov bnd.cmp_signs\<close>)
qed

lemma consistent_int_sound:
  assumes k: "gist_key tc cb k" and r: "range_ok tc cb r" and c: "gist_covers tc k r"
    and query: "query_ok tc cb strategy query"
    and leaf: "range_gist_consistent_leaf tc strategy r query = Inr True"
  shows "range_gist_consistent_int tc strategy k query = Inr True"
proof (cases query)
  case (QElem v)
  then show ?thesis
    using query leaf key_elem_mono [OF k ok_gist_key(1) [OF r] c]
    by (simp add: range_gist_consistent_int_def range_gist_consistent_leaf_def strat_defs)
next
  case (QRange q)
  with query have s: "strategy \<in> range_strategies" and q: "range_ok tc cb q" by simp_all
  note kr = ok_gist_key(1) [OF r]
  obtain lk uk ek where dk: "range_deserialize tc k = (lk, uk, ek)" by (metis prod_cases3)
  obtain lr ur er where dr: "range_deserialize tc r = (lr, ur, er)" by (metis prod_cases3)
  obtain lq uq eq where dq: "range_deserialize tc q = (lq, uq, eq)" by (metis prod_cases3)
  note C = c [unfolded gist_covers_iff [OF k kr dk dr]]
  note E = gist_keyD(4) [OF k dk] gist_keyD(4) [OF kr dr] deserialize_fields(3) [OF dq]
    ok_gist_key(2) [OF r]
  have t: "rangetypid k = rangetypid q" "rangetypid r = rangetypid q" "rangetypid q = rangetypid r"
    using gist_keyD(1) [OF k dk] ok_typid [OF r] ok_typid [OF q] by simp_all
  show ?thesis
  proof (cases "er \<or> eq")
    case False
    then show ?thesis
      using consistent_int_nonempty [OF k kr q _ _ _ _ _ s] C leaf dk dr dq QRange by simp
  next
    case True
    note ops = internal_ops_empty [OF t(2) dr dq] internal_ops_empty [OF t(3) dq dr]
      contains_iff [OF t(1) dk dq] contains_iff [OF t(2) dr dq] contains_iff [OF t(3) dq dr]
    from s show ?thesis
      unfolding range_strategies_def
      by (elim insertE emptyE)
        (use leaf E True C QRange in \<open>auto simp: range_gist_consistent_int_def
          range_gist_consistent_leaf_def range_contained_by_internal_def strat_defs ops\<close>)
  qed
qed

lemma key_ops_defined:
  assumes k: "gist_key tc cb k" and q: "range_ok tc cb q"
  shows "\<exists>b. range_eq_internal tc k q = Inr b" and "\<exists>b. range_contains_internal tc k q = Inr b"
    and "\<exists>b. range_contains_internal tc q k = Inr b" and "\<exists>b. range_before_internal tc k q = Inr b"
    and "\<exists>b. range_after_internal tc k q = Inr b" and "\<exists>b. range_overleft_internal tc k q = Inr b"
    and "\<exists>b. range_overright_internal tc k q = Inr b" and "\<exists>b. range_overlaps_internal tc k q = Inr b"
    and "\<exists>b. range_adjacent_internal tc k q = Inr b"
proof -
  obtain lk uk ek where dk: "range_deserialize tc k = (lk, uk, ek)" by (metis prod_cases3)
  obtain lq uq eq where dq: "range_deserialize tc q = (lq, uq, eq)" by (metis prod_cases3)
  have t: "rangetypid k = rangetypid q"
    using gist_keyD(1) [OF k dk] ok_typid [OF q] by simp
  show "\<exists>b. range_adjacent_internal tc k q = Inr b"
    using internal_ops_empty(8) [OF t dk dq] key_adjacent_eq [OF k q] dk dq by (cases "ek \<or> eq") auto
qed (simp_all add: range_eq_internal_def range_contains_internal_def range_before_internal_def
    range_after_internal_def range_overleft_internal_def range_overright_internal_def
    range_overlaps_internal_def gist_key_typid [OF k] ok_typid [OF q] split_beta)

lemma consistent_defined:
  assumes k: "gist_key tc cb k" and query: "query_ok tc cb strategy query"
  shows "\<exists>b. range_gist_consistent_leaf tc strategy k query = Inr b"
    and "\<exists>b. range_gist_consistent_int tc strategy k query = Inr b"
proof -
  note ds = range_gist_consistent_leaf_def range_gist_consistent_int_def
    range_contained_by_internal_def strat_defs rbind_def
  show "\<exists>b. range_gist_consistent_leaf tc strategy k query = Inr b"
  proof (cases query)
    case (QRange q)
    then show ?thesis
      using query key_ops_defined [OF k, of q] by (auto simp: ds range_strategies_def)
  qed (use query in \<open>auto simp: ds\<close>)
  show "\<exists>b. range_gist_consistent_int tc strategy k query = Inr b"
  proof (cases query)
    case (QRange q)
    then show ?thesis
      using query key_ops_defined [OF k, of q] by (auto simp: ds range_strategies_def)
  qed (use query in \<open>auto simp: ds\<close>)
qed

end

section \<open>Searching a GiST tree\<close>

text \<open>
  A tree as the access method keeps it: a leaf page with its keys, an inner page with
  a key for every child page. A search tests every key of a page and descends where the
  test succeeds; \<open>consistent\<close> takes whether the page is a leaf.
\<close>

datatype 'k gist_tree = GLeaf "'k list" | GNode "('k \<times> 'k gist_tree) list"

fun gist_leaves :: "'k gist_tree \<Rightarrow> 'k list" where
  "gist_leaves (GLeaf ks) = ks"
| "gist_leaves (GNode cs) = concat (map (\<lambda>(k, t). gist_leaves t) cs)"

fun page_keys :: "'k gist_tree \<Rightarrow> 'k list" where
  "page_keys (GLeaf ks) = ks"
| "page_keys (GNode cs) = map fst cs"

fun filter_res :: "('k \<Rightarrow> bool res) \<Rightarrow> 'k list \<Rightarrow> 'k list res" where
  "filter_res p [] = Inr []"
| "filter_res p (k # ks) =
     rbind (p k) (\<lambda>b. rbind (filter_res p ks) (\<lambda>xs. Inr (if b then k # xs else xs)))"

fun concat_res :: "('c \<Rightarrow> 'k list res) \<Rightarrow> 'c list \<Rightarrow> 'k list res" where
  "concat_res f [] = Inr []"
| "concat_res f (c # cs) = rbind (f c) (\<lambda>xs. rbind (concat_res f cs) (\<lambda>ys. Inr (xs @ ys)))"

lemma concat_res_cong [fundef_cong]:
  "cs = ds \<Longrightarrow> (\<And>c. c \<in> set ds \<Longrightarrow> f c = g c) \<Longrightarrow> concat_res f cs = concat_res g ds"
  by (induction cs arbitrary: ds) auto

fun gist_search :: "(bool \<Rightarrow> 'k \<Rightarrow> bool res) \<Rightarrow> 'k gist_tree \<Rightarrow> 'k list res" where
  "gist_search consistent (GLeaf ks) = filter_res (consistent True) ks"
| "gist_search consistent (GNode cs) =
     concat_res (\<lambda>(k, t). rbind (consistent False k) (\<lambda>b.
       if b then gist_search consistent t else Inr [])) cs"

text \<open>The invariant of a tree: the key of a child page covers every key of that page.\<close>

fun gist_tree_ok ::
  "('k \<Rightarrow> bool) \<Rightarrow> ('k \<Rightarrow> bool) \<Rightarrow> ('k \<Rightarrow> 'k \<Rightarrow> bool) \<Rightarrow> 'k gist_tree \<Rightarrow> bool" where
  "gist_tree_ok leaf_ok key_ok covers (GLeaf ks) \<longleftrightarrow> list_all leaf_ok ks"
| "gist_tree_ok leaf_ok key_ok covers (GNode cs) \<longleftrightarrow>
     list_all (\<lambda>(k, t). key_ok k \<and> list_all (covers k) (page_keys t) \<and>
       gist_tree_ok leaf_ok key_ok covers t) cs"

text \<open>
  What the access method asks of an operator class: covering is transitive, the
  consistency tests return an answer on the keys of the index, and a key does not
  reject a query that a leaf key it covers satisfies.
\<close>

locale gist_opclass =
  fixes leaf_ok key_ok :: "'k \<Rightarrow> bool"
    and covers :: "'k \<Rightarrow> 'k \<Rightarrow> bool"
    and query_valid :: "'q \<Rightarrow> bool"
    and consistent :: "'q \<Rightarrow> bool \<Rightarrow> 'k \<Rightarrow> bool res"
  assumes leaf_key: "leaf_ok k \<Longrightarrow> key_ok k"
    and covers_trans: "key_ok k \<Longrightarrow> key_ok m \<Longrightarrow> key_ok r \<Longrightarrow> covers k m \<Longrightarrow> covers m r \<Longrightarrow> covers k r"
    and leaf_defined: "query_valid q \<Longrightarrow> leaf_ok k \<Longrightarrow> \<exists>b. consistent q True k = Inr b"
    and inner_defined: "query_valid q \<Longrightarrow> key_ok k \<Longrightarrow> \<exists>b. consistent q False k = Inr b"
    and sound: "query_valid q \<Longrightarrow> key_ok k \<Longrightarrow> leaf_ok r \<Longrightarrow> covers k r \<Longrightarrow> consistent q True r = Inr True \<Longrightarrow>
      consistent q False k = Inr True"
begin

abbreviation tree_ok :: "'k gist_tree \<Rightarrow> bool" where
  "tree_ok \<equiv> gist_tree_ok leaf_ok key_ok covers"

lemma leaves_ok: "tree_ok t \<Longrightarrow> r \<in> set (gist_leaves t) \<Longrightarrow> leaf_ok r"
  by (induction t rule: gist_leaves.induct) (fastforce simp: list_all_iff)+

lemma covers_leaves:
  assumes "tree_ok t" and "key_ok k" and "list_all (covers k) (page_keys t)"
    and "r \<in> set (gist_leaves t)"
  shows "covers k r"
  using assms
proof (induction t arbitrary: k rule: gist_leaves.induct)
  case (2 cs)
  then obtain m t where mt: "(m, t) \<in> set cs" "r \<in> set (gist_leaves t)" by auto
  with 2 have ok: "key_ok m" "tree_ok t" "list_all (covers m) (page_keys t)" "covers k m"
    by (force simp: list_all_iff)+
  then have "covers m r" using 2(1) mt by blast
  with ok show ?case
    using covers_trans [of k m r] 2(3) leaf_key leaves_ok [OF ok(2) mt(2)] by blast
qed (simp add: list_all_iff)

lemma filter_res_defined:
  "query_valid q \<Longrightarrow> list_all leaf_ok ks \<Longrightarrow>
   filter_res (consistent q True) ks = Inr (filter (\<lambda>r. consistent q True r = Inr True) ks)"
proof (induction ks)
  case (Cons k ks)
  then show ?case using leaf_defined [of q k] by auto
qed simp

text \<open>A search of a well-formed tree returns what a scan of its leaf keys returns.\<close>

lemma search_exact:
  assumes query: "query_valid q"
  shows "tree_ok t \<Longrightarrow>
   gist_search (consistent q) t = Inr (filter (\<lambda>r. consistent q True r = Inr True) (gist_leaves t))"
proof (induction t rule: gist_leaves.induct)
  case (2 cs)
  have child: "rbind (consistent q False k) (\<lambda>b. if b then gist_search (consistent q) t else Inr []) =
    Inr (filter (\<lambda>r. consistent q True r = Inr True) (gist_leaves t))" if kt: "(k, t) \<in> set cs" for k t
  proof -
    have ok: "key_ok k" "tree_ok t" "list_all (covers k) (page_keys t)"
      using 2(2) kt by (auto simp: list_all_iff)
    obtain b where b: "consistent q False k = Inr b" using inner_defined [OF query ok(1)] by blast
    have "b" if "r \<in> set (gist_leaves t)" "consistent q True r = Inr True" for r
      using sound [OF query ok(1) leaves_ok [OF ok(2) that(1)] covers_leaves [OF ok(2,1,3) that(1)] that(2)] b
      by simp
    then show ?thesis
      using 2(1) [OF kt refl ok(2)] b by (cases b) (auto simp: empty_filter_conv)
  qed
  have "concat_res (\<lambda>(k, t). rbind (consistent q False k) (\<lambda>b.
      if b then gist_search (consistent q) t else Inr [])) ds =
    Inr (filter (\<lambda>r. consistent q True r = Inr True) (concat (map (\<lambda>(k, t). gist_leaves t) ds)))"
    if "set ds \<subseteq> set cs" for ds
    using that by (induction ds) (auto simp: child)
  then show ?case by simp
qed (simp add: filter_res_defined [OF query])

end

text \<open>A search tests the keys of the tree only.\<close>

lemma filter_res_cong: "(\<And>k. k \<in> set ks \<Longrightarrow> f k = g k) \<Longrightarrow> filter_res f ks = filter_res g ks"
  by (induction ks) auto

lemma gist_search_cong:
  assumes "\<And>leaf k. key_ok k \<Longrightarrow> f leaf k = g leaf k" and "\<And>k. leaf_ok k \<Longrightarrow> key_ok k"
    and "gist_tree_ok leaf_ok key_ok covers t"
  shows "gist_search f t = gist_search g t"
  using assms(3)
proof (induction t rule: gist_leaves.induct)
  case (1 ks)
  then show ?case
    using assms(1,2) by (auto simp: list_all_iff intro: filter_res_cong)
next
  case (2 cs)
  have "(case c of (k, t) \<Rightarrow> rbind (f False k) (\<lambda>b. if b then gist_search f t else Inr [])) =
    (case c of (k, t) \<Rightarrow> rbind (g False k) (\<lambda>b. if b then gist_search g t else Inr []))"
    if "c \<in> set cs" for c
  proof -
    obtain k t where c: "c = (k, t)" by fastforce
    then have ok: "key_ok k" "gist_tree_ok leaf_ok key_ok covers t"
      using that 2(2) by (auto simp: list_all_iff)
    show ?thesis
      unfolding c prod.case assms(1) [OF ok(1)] 2(1) [OF that [unfolded c] refl ok(2)] ..
  qed
  then show ?case by (simp cong: concat_res_cong)
qed

text \<open>The range operator class meets the contract, for every range type.\<close>

fun range_consistent ::
  "('a::zero) TypeCacheEntry \<Rightarrow> nat \<times> 'a query \<Rightarrow> bool \<Rightarrow> 'a RangeType \<Rightarrow> bool res" where
  "range_consistent tc (strategy, query) leaf k =
     (if leaf then range_gist_consistent_leaf tc strategy k query
      else range_gist_consistent_int tc strategy k query)"

sublocale range_type \<subseteq>
  gist: gist_opclass "range_ok tc cb" "gist_key tc cb" "gist_covers tc"
    "\<lambda>(strategy, query). query_ok tc cb strategy query" "range_consistent tc"
proof
  show "gist_key tc cb k" if "range_ok tc cb k" for k
    using ok_gist_key(1) [OF that] .
  show "gist_covers tc k r" if "gist_key tc cb k" "gist_key tc cb m" "gist_key tc cb r"
    "gist_covers tc k m" "gist_covers tc m r" for k m r
    using gist_covers_trans [OF that] .
  show "\<exists>b. range_consistent tc q True k = Inr b"
    if "case q of (strategy, query) \<Rightarrow> query_ok tc cb strategy query" "range_ok tc cb k" for q k
    using that consistent_defined(1) [OF ok_gist_key(1)] by (cases q) simp
  show "\<exists>b. range_consistent tc q False k = Inr b"
    if "case q of (strategy, query) \<Rightarrow> query_ok tc cb strategy query" "gist_key tc cb k" for q k
    using that consistent_defined(2) by (cases q) simp
  show "range_consistent tc q False k = Inr True"
    if "case q of (strategy, query) \<Rightarrow> query_ok tc cb strategy query" "gist_key tc cb k"
      "range_ok tc cb r" "gist_covers tc k r" "range_consistent tc q True r = Inr True" for q k r
    using that consistent_int_sound [of k r] by (cases q) simp
qed

context range_type
begin

lemmas gist_search_exact = gist.search_exact
lemmas gist_leaves_ok = gist.leaves_ok

end

section \<open>Indexes on a range type\<close>

text \<open>An index on a range type, with what its support functions find in the type cache.\<close>

locale range_index = range_type tc cb
  for tc :: "('a::zero) TypeCacheEntry" and cb :: "'a RangeBound \<Rightarrow> bool" +
  fixes lk :: "'a lookup" and fx :: "'a fnx"
  assumes found: "typcache_found lk fx tc"

interpretation int4_index: range_index int4range_typcache int4_cb int4_lookup None
  by (intro range_index.intro range_index_axioms.intro int4.range_type_axioms int4_lookup_found)

context range_index
begin

text \<open>The test of a leaf key is the operator the catalog names for the strategy.\<close>

lemma leaf_is_operator:
  assumes "query_ok tc cb strategy query" and "rangetypid r = type_id tc"
  shows "operator_call lk fx r (strategy, query) = range_gist_consistent_leaf tc strategy r query"
proof -
  note ds = operator_call_def range_amop_def on_range_def range_gist_consistent_leaf_def strat_defs
  have w: "rbind (with_typcache lk fx (type_id tc) f) (\<lambda>(b, fx'). Inr b) = f tc" for f :: "'a TypeCacheEntry \<Rightarrow> bool res"
    using found by (cases "f tc") simp_all
  note sql = range_before_def range_overleft_def range_overlaps_def range_overright_def range_after_def
    range_adjacent_def range_contains_def range_contained_by_def range_eq_def range_contains_elem_def
  show ?thesis
  proof (cases query)
    case (QRange q)
    with assms show ?thesis
      unfolding query_ok.simps QRange range_strategies_def
      by (elim conjE insertE emptyE) (simp_all add: ds sql w)
  qed (use assms in \<open>simp add: ds sql w\<close>)
qed

end

section \<open>The penalty of an insertion\<close>

lemma extension_penalty_nonneg: "\<exists>p. extension_penalty tc v w = Inr p \<and> f_le (Fin 0) p"
  by (auto simp: extension_penalty_def call_subtype_diff_def Let_def DEFAULT_SUBTYPE_DIFF_PENALTY_def
      split: option.splits)

lemma f_le_special: "f_le (Fin a) PInf" "\<not> f_le (Fin a) MInf" "\<not> f_le (Fin a) NaN"
  by (simp_all add: f_le_def)

lemma f_add_nonneg: "f_le (Fin 0) a \<Longrightarrow> f_le (Fin 0) b \<Longrightarrow> f_le (Fin 0) (f_add a b)"
  by (cases a; cases b) (simp_all add: f_le_special)

context range_type
begin

text \<open>
  The penalty is a number that is not negative, and a normal range costs nothing below a
  normal key that covers it.
\<close>

lemma penalty_nonneg:
  assumes "typcache_found lk fx tc" and o: "gist_key tc cb (gkey orig)" and n: "gist_key tc cb (gkey new)"
  shows "\<exists>p. range_gist_penalty lk fx orig new = Inr (p, Some tc) \<and> f_le (Fin 0) p"
proof -
  obtain ol ou oe where do: "range_deserialize tc (gkey orig) = (ol, ou, oe)" by (metis prod_cases3)
  obtain nl nu ne where dn: "range_deserialize tc (gkey new) = (nl, nu, ne)" by (metis prod_cases3)
  note ext = extension_penalty_nonneg [of tc]
  have "\<exists>p. penalty_lower_inf tc ol ou oe nu = Inr p \<and> f_le (Fin 0) p"
    and "\<exists>p. penalty_upper_inf tc ol ou oe nl = Inr p \<and> f_le (Fin 0) p"
    using ext by (auto simp: penalty_lower_inf_def penalty_upper_inf_def f_le_special)
  moreover have "\<exists>p. penalty_normal tc ol ou oe nl nu = Inr p \<and> f_le (Fin 0) p"
  proof -
    obtain p q where "extension_penalty tc (rb_val ol) (rb_val nl) = Inr p" "f_le (Fin 0) p"
      "extension_penalty tc (rb_val nu) (rb_val ou) = Inr q" "f_le (Fin 0) q"
      using ext by metis
    then show ?thesis by (auto simp: penalty_normal_def f_le_special intro!: f_add_nonneg)
  qed
  moreover have "f_le (Fin 0) (penalty_empty (gkey orig) ol ou oe)"
    "f_le (Fin 0) (penalty_unbounded (gkey orig) ol ou)"
    by (simp_all add: penalty_empty_def penalty_unbounded_def CONTAIN_EMPTY_PENALTY_def
        INFINITE_BOUND_PENALTY_def Let_def)
  ultimately show ?thesis
    using assms(1) gist_key_typid [OF o] gist_key_typid [OF n]
    by (cases ne; cases "rb_infinite nl"; cases "rb_infinite nu")
      (auto simp: range_gist_penalty_def do dn Let_def)
qed

lemma penalty_covered:
  assumes "typcache_found lk fx tc" and o: "gist_key tc cb (gkey orig)" and n: "gist_key tc cb (gkey new)"
    and do: "range_deserialize tc (gkey orig) = (ol, ou, False)" "\<not> rb_infinite ol" "\<not> rb_infinite ou"
    and dn: "range_deserialize tc (gkey new) = (nl, nu, False)" "\<not> rb_infinite nl" "\<not> rb_infinite nu"
    and "gist_covers tc (gkey orig) (gkey new)"
  shows "range_gist_penalty lk fx orig new = Inr (Fin 0, Some tc)"
proof -
  have "cle (range_cmp_bounds tc) ol nl" "cle (range_cmp_bounds tc) nu ou"
    using assms(10) gist_covers_iff [OF o n do(1) dn(1)] by simp_all
  then show ?thesis
    using assms(1) gist_key_typid [OF o] gist_key_typid [OF n]
    by (simp add: range_gist_penalty_def do dn penalty_normal_def bnd.cmp_signs)
qed

end

section \<open>Properties\<close>

text \<open>
  C35. \<open>range_gist_union\<close> returns on the keys of a page, and its result is the least key
  that covers them: a key covers the union exactly when it covers every key.
\<close>

theorem range_gist_union_least:
  assumes "range_type tc cb" and "typcache_found lk fx tc" and "ents \<noteq> []"
    and "list_all (\<lambda>ent. gist_key tc cb (gkey ent)) ents"
  shows "\<exists>u. range_gist_union lk fx ents = Inr (u, Some tc) \<and> gist_key tc cb u \<and>
    (\<forall>k. gist_key tc cb k \<longrightarrow>
       (gist_covers tc k u \<longleftrightarrow> list_all (\<lambda>ent. gist_covers tc k (gkey ent)) ents))"
proof -
  obtain ent rest where e: "ents = ent # rest" using assms(3) by (cases ents) auto
  have k: "gist_key tc cb (gkey ent)" "\<forall>ent \<in> set rest. gist_key tc cb (gkey ent)"
    using assms(4) by (auto simp: e list_all_iff)
  from range_type.union_loop_least [OF assms(1) k] obtain u
    where u: "union_loop tc (gkey ent) rest = Inr u" "gist_key tc cb u"
      "\<And>k. gist_key tc cb k \<Longrightarrow> gist_covers tc k u \<longleftrightarrow>
        gist_covers tc k (gkey ent) \<and> (\<forall>ent \<in> set rest. gist_covers tc k (gkey ent))"
    by metis
  have "range_gist_union lk fx ents = Inr (u, Some tc)"
    using assms(2) u(1) range_type.gist_key_typid [OF assms(1) k(1)]
    by (simp add: range_gist_union_def e)
  with u(2,3) show ?thesis by (auto simp: e list_all_iff)
qed

theorem range_gist_union_least_witness:
  "\<exists>u. range_gist_union int4_lookup None
      [\<lparr>gkey = int4_rng 1 10, gleaf = True\<rparr>, \<lparr>gkey = empty_repr int4range_typcache, gleaf = True\<rparr>] =
      Inr (u, Some int4range_typcache) \<and> gist_key int4range_typcache int4_cb u \<and>
      gist_covers int4range_typcache u (int4_rng 1 10)"
proof -
  let ?ents = "[\<lparr>gkey = int4_rng 1 10, gleaf = True\<rparr>,
    \<lparr>gkey = empty_repr int4range_typcache, gleaf = True\<rparr>]"
  have "list_all (\<lambda>ent. gist_key int4range_typcache int4_cb (gkey ent)) ?ents" by code_simp
  from range_gist_union_least [OF int4.range_type_axioms int4_lookup_found _ this] obtain u
    where u: "range_gist_union int4_lookup None ?ents = Inr (u, Some int4range_typcache)"
      "gist_key int4range_typcache int4_cb u"
      "\<forall>k. gist_key int4range_typcache int4_cb k \<longrightarrow> (gist_covers int4range_typcache k u \<longleftrightarrow>
        list_all (\<lambda>ent. gist_covers int4range_typcache k (gkey ent)) ?ents)" by blast
  then have "gist_covers int4range_typcache u (int4_rng 1 10)"
    using int4.gist_covers_refl [OF u(2)] by simp
  with u show ?thesis by blast
qed

text \<open>
  C34. A search of an index whose inner keys cover the keys below them returns, for every
  operator of the operator class, exactly the leaf keys on which the operator's own SQL
  function (\<open>range_before\<close>, \<open>range_contains\<close>, ...) returns true: no inner page that holds a
  match is skipped, neither the tests nor the operator raise an error, and the consistency
  function never asks for a recheck.
\<close>

theorem range_gist_search_exact:
  assumes "range_type tc cb" and "typcache_found lk fx tc"
    and "query_ok tc cb strategy query"
    and "gist_tree_ok (range_ok tc cb) (gist_key tc cb) (gist_covers tc) t"
  shows "gist_search (\<lambda>leaf k. rbind (range_gist_consistent lk fx \<lparr>gkey = k, gleaf = leaf\<rparr> query strategy)
      (\<lambda>((b, recheck), fx'). Inr b)) t =
    Inr (filter (\<lambda>r. operator_call lk fx r (strategy, query) = Inr True) (gist_leaves t)) \<and>
    list_all (\<lambda>r. \<exists>b. operator_call lk fx r (strategy, query) = Inr b) (gist_leaves t) \<and>
    (\<forall>entry b recheck fx'. range_gist_consistent lk fx entry query strategy = Inr ((b, recheck), fx') \<longrightarrow> \<not> recheck)"
proof -
  let ?con = "\<lambda>leaf k. rbind (range_gist_consistent lk fx \<lparr>gkey = k, gleaf = leaf\<rparr> query strategy)
    (\<lambda>((b, recheck), fx'). Inr b)"
  have index: "range_index tc cb lk fx"
    using assms(1,2) by (intro range_index.intro range_index_axioms.intro)
  have ok: "range_ok tc cb r" if "r \<in> set (gist_leaves t)" for r
    using range_type.gist_leaves_ok [OF assms(1,4) that] .
  have op: "operator_call lk fx r (strategy, query) = range_gist_consistent_leaf tc strategy r query"
    if "r \<in> set (gist_leaves t)" for r
    using range_index.leaf_is_operator [OF index assms(3) range_type.ok_typid [OF assms(1) ok [OF that]]] .
  have "?con leaf k = range_consistent tc (strategy, query) leaf k" if "gist_key tc cb k" for leaf k
    using assms(2) range_type.gist_key_typid [OF assms(1) that]
    by (cases "range_consistent tc (strategy, query) leaf k") (simp_all add: range_gist_consistent_def)
  then have "gist_search ?con t = gist_search (range_consistent tc (strategy, query)) t"
    by (rule gist_search_cong [OF _ range_type.ok_gist_key(1) [OF assms(1)] assms(4)])
  also have "\<dots> = Inr (filter (\<lambda>r. range_consistent tc (strategy, query) True r = Inr True)
      (gist_leaves t))"
    using range_type.gist_search_exact [OF assms(1), of "(strategy, query)" t] assms(3,4) by simp
  finally have "gist_search ?con t =
    Inr (filter (\<lambda>r. operator_call lk fx r (strategy, query) = Inr True) (gist_leaves t))"
    by (simp add: op cong: filter_cong)
  moreover have "\<exists>b. operator_call lk fx r (strategy, query) = Inr b" if "r \<in> set (gist_leaves t)" for r
    using range_type.consistent_defined(1) [OF assms(1) range_type.ok_gist_key(1) [OF assms(1) ok [OF that]] assms(3)]
    by (simp add: op [OF that])
  moreover have "\<not> recheck" if "range_gist_consistent lk fx entry query strategy = Inr ((b, recheck), fx')"
    for entry b recheck fx'
    using that by (auto simp: range_gist_consistent_def with_typcache_def rbind_Inr_iff Let_def)
  ultimately show ?thesis unfolding list_all_iff by blast
qed

text \<open>An index of two leaf pages; the query asks for the ranges that contain \<open>[12, 20)\<close>.\<close>

definition sample_index :: "Datum RangeType gist_tree" where
  "sample_index = GNode
     [(range_set_contain_empty (int4_rng 1 10), GLeaf [int4_rng 1 10, empty_repr int4range_typcache]),
      (int4_rng 5 30, GLeaf [int4_rng 5 20, int4_rng 15 25, int4_rng 10 30])]"

theorem range_gist_search_exact_witness:
  "gist_search (\<lambda>leaf k. rbind (range_gist_consistent int4_lookup None \<lparr>gkey = k, gleaf = leaf\<rparr>
        (QRange (int4_rng 12 20)) RANGESTRAT_CONTAINS) (\<lambda>((b, recheck), fx'). Inr b)) sample_index =
    Inr [int4_rng 5 20, int4_rng 10 30]"
proof -
  have "query_ok int4range_typcache int4_cb RANGESTRAT_CONTAINS (QRange (int4_rng 12 20))"
    by code_simp
  moreover have "gist_tree_ok (range_ok int4range_typcache int4_cb) (gist_key int4range_typcache int4_cb)
      (gist_covers int4range_typcache) sample_index"
    by code_simp
  moreover have "filter (\<lambda>r. operator_call int4_lookup None r (RANGESTRAT_CONTAINS, QRange (int4_rng 12 20)) =
      Inr True) (gist_leaves sample_index) = [int4_rng 5 20, int4_rng 10 30]"
    by code_simp
  ultimately show ?thesis
    using range_gist_search_exact [OF int4.range_type_axioms int4_lookup_found,
      of RANGESTRAT_CONTAINS "QRange (int4_rng 12 20)" sample_index] by simp
qed

end
