(* ===== verification/Gist_Split.thy ===== *)
theory Gist_Split
  imports Range_Gist Qsort
begin

text \<open>
  Page splits of the GiST operator class of range types (\<open>range_gist_picksplit\<close> and the
  four split methods of \<open>rangetypes_gist.c\<close>). The entries of a page are
  \<open>entryvec->vector[1 .. n - 1]\<close>; the split vector receives the offsets that go to each
  side and the union key of each side. Offsets are natural numbers: a page holds far
  fewer entries than an \<open>OffsetNumber\<close> counts.

  \<open>float4\<close> and \<open>float8\<close> values are those of \<open>Float8\<close>: arithmetic on finite values is
  exact, so the ratio of a split is not rounded to single precision before it is compared
  with \<open>LIMIT_RATIO\<close>. The theorems about splits hold whichever candidate split
  the comparison selects.

  The two search loops of the double sorting split return when a bound compares equal to
  itself; they are partial functions, and that they return is proved.
\<close>

section \<open>Range classes\<close>

definition CLS_NORMAL :: int where [cls_defs]: "CLS_NORMAL = 0"
definition CLS_LOWER_INF :: int where [cls_defs]: "CLS_LOWER_INF = 1"
definition CLS_UPPER_INF :: int where [cls_defs]: "CLS_UPPER_INF = 2"
definition CLS_CONTAIN_EMPTY :: int where [cls_defs]: "CLS_CONTAIN_EMPTY = 4"
definition CLS_EMPTY :: int where [cls_defs]: "CLS_EMPTY = 8"
definition CLS_COUNT :: nat where [cls_defs]: "CLS_COUNT = 9"

definition get_gist_range_class :: "'a RangeType \<Rightarrow> int" where
  "get_gist_range_class r =
     (let flags = range_get_flags r in
      if flags AND RANGE_EMPTY \<noteq> 0 then CLS_EMPTY
      else
        let classNumber = 0;
            classNumber = (if flags AND RANGE_LB_INF \<noteq> 0 then classNumber OR CLS_LOWER_INF
                           else classNumber);
            classNumber = (if flags AND RANGE_UB_INF \<noteq> 0 then classNumber OR CLS_UPPER_INF
                           else classNumber)
        in if flags AND RANGE_CONTAIN_EMPTY \<noteq> 0 then classNumber OR CLS_CONTAIN_EMPTY
           else classNumber)"

section \<open>Placing entries\<close>

datatype SplitLR = SPLIT_LEFT | SPLIT_RIGHT

text \<open>The fields of \<open>GIST_SPLITVEC\<close>; a key is \<open>None\<close> where the C pointer is NULL.\<close>

record 'a GIST_SPLITVEC =
  spl_left :: "nat list"
  spl_ldatum :: "'a RangeType option"
  spl_right :: "nat list"
  spl_rdatum :: "'a RangeType option"

definition no_split :: "'a GIST_SPLITVEC" where
  "no_split = \<lparr>spl_left = [], spl_ldatum = None, spl_right = [], spl_rdatum = None\<rparr>"

definition place ::
  "('a::zero) TypeCacheEntry \<Rightarrow> nat list \<Rightarrow> 'a RangeType option \<Rightarrow> 'a RangeType
     \<Rightarrow> 'a RangeType option res" where
  "place typcache spl side_range r =
     (if length spl > 0 then
        (case side_range of None \<Rightarrow> Inl Undefined_behavior
         | Some side \<Rightarrow> rbind (range_super_union typcache side r) (\<lambda>u. Inr (Some u)))
      else Inr (Some r))"

definition PLACE_LEFT ::
  "('a::zero) TypeCacheEntry \<Rightarrow> 'a RangeType \<Rightarrow> nat \<Rightarrow> 'a GIST_SPLITVEC \<Rightarrow> 'a GIST_SPLITVEC res"
  where
  "PLACE_LEFT typcache r off v =
     rbind (place typcache (spl_left v) (spl_ldatum v) r) (\<lambda>left_range.
       Inr (v\<lparr>spl_ldatum := left_range, spl_left := spl_left v @ [off]\<rparr>))"

definition PLACE_RIGHT ::
  "('a::zero) TypeCacheEntry \<Rightarrow> 'a RangeType \<Rightarrow> nat \<Rightarrow> 'a GIST_SPLITVEC \<Rightarrow> 'a GIST_SPLITVEC res"
  where
  "PLACE_RIGHT typcache r off v =
     rbind (place typcache (spl_right v) (spl_rdatum v) r) (\<lambda>right_range.
       Inr (v\<lparr>spl_rdatum := right_range, spl_right := spl_right v @ [off]\<rparr>))"

text \<open>A loop that places the entries at the given offsets on the given sides.\<close>

fun place_loop ::
  "('a::zero) TypeCacheEntry \<Rightarrow> 'a GISTENTRY list \<Rightarrow> (nat \<times> SplitLR) list \<Rightarrow> 'a GIST_SPLITVEC
     \<Rightarrow> 'a GIST_SPLITVEC res" where
  "place_loop typcache entryvec [] v = Inr v"
| "place_loop typcache entryvec ((i, side) # plan) v =
     rbind (case side of
              SPLIT_LEFT \<Rightarrow> PLACE_LEFT typcache (gkey (entryvec ! i)) i v
            | SPLIT_RIGHT \<Rightarrow> PLACE_RIGHT typcache (gkey (entryvec ! i)) i v)
       (place_loop typcache entryvec plan)"

section \<open>The simple split methods\<close>

definition range_gist_fallback_split ::
  "('a::zero) TypeCacheEntry \<Rightarrow> 'a GISTENTRY list \<Rightarrow> 'a GIST_SPLITVEC res" where
  "range_gist_fallback_split typcache entryvec =
     (let maxoff = length entryvec - 1;
          split_idx = (maxoff - 1) div 2 + 1
      in place_loop typcache entryvec
           (map (\<lambda>i. (i, if i < split_idx then SPLIT_LEFT else SPLIT_RIGHT)) [1..<maxoff + 1])
           no_split)"

definition range_gist_class_split ::
  "('a::zero) TypeCacheEntry \<Rightarrow> 'a GISTENTRY list \<Rightarrow> SplitLR list \<Rightarrow> 'a GIST_SPLITVEC res" where
  "range_gist_class_split typcache entryvec classes_groups =
     (let maxoff = length entryvec - 1
      in place_loop typcache entryvec
           (map (\<lambda>i. (i, classes_groups ! nat (get_gist_range_class (gkey (entryvec ! i)))))
              [1..<maxoff + 1])
           no_split)"

record 'a SingleBoundSortItem =
  sb_index :: nat
  sb_bound :: "'a RangeBound"

definition single_bound_cmp ::
  "'a TypeCacheEntry \<Rightarrow> 'a SingleBoundSortItem \<Rightarrow> 'a SingleBoundSortItem \<Rightarrow> int" where
  "single_bound_cmp typcache i1 i2 = range_cmp_bounds typcache (sb_bound i1) (sb_bound i2)"

definition range_gist_single_sorting_split ::
  "('a::zero) TypeCacheEntry \<Rightarrow> 'a GISTENTRY list \<Rightarrow> bool \<Rightarrow> 'a GIST_SPLITVEC res" where
  "range_gist_single_sorting_split typcache entryvec use_upper_bound =
     (let maxoff = length entryvec - 1;
          sortItems = map (\<lambda>i. case range_deserialize typcache (gkey (entryvec ! i)) of
              (lower, upper, emp) \<Rightarrow>
                \<lparr>sb_index = i, sb_bound = (if use_upper_bound then upper else lower)\<rparr>)
            [1..<maxoff + 1];
          sortItems = qsort_arg (single_bound_cmp typcache) sortItems;
          split_idx = maxoff div 2
      in place_loop typcache entryvec
           (map (\<lambda>i. (sb_index (sortItems ! i), if i < split_idx then SPLIT_LEFT else SPLIT_RIGHT))
              [0..<maxoff])
           no_split)"

section \<open>The double sorting split\<close>

definition LIMIT_RATIO :: real where "LIMIT_RATIO = 0.3"

record 'a NonEmptyRange =
  ne_lower :: "'a RangeBound"
  ne_upper :: "'a RangeBound"

record CommonEntry =
  ce_index :: nat
  ce_delta :: float8

text \<open>The type cache entry of the context is an argument of its own.\<close>

record 'a ConsiderSplitContext =
  entries_count :: int
  ctx_first :: bool
  ctx_left_upper :: "'a RangeBound option"
  ctx_right_lower :: "'a RangeBound option"
  ctx_ratio :: float8
  ctx_overlap :: float8
  common_left :: int
  common_right :: int

definition interval_cmp_lower ::
  "'a TypeCacheEntry \<Rightarrow> 'a NonEmptyRange \<Rightarrow> 'a NonEmptyRange \<Rightarrow> int" where
  "interval_cmp_lower typcache i1 i2 = range_cmp_bounds typcache (ne_lower i1) (ne_lower i2)"

definition interval_cmp_upper ::
  "'a TypeCacheEntry \<Rightarrow> 'a NonEmptyRange \<Rightarrow> 'a NonEmptyRange \<Rightarrow> int" where
  "interval_cmp_upper typcache i1 i2 = range_cmp_bounds typcache (ne_upper i1) (ne_upper i2)"

definition common_entry_cmp :: "CommonEntry \<Rightarrow> CommonEntry \<Rightarrow> int" where
  "common_entry_cmp i1 i2 =
     (if f_lt (ce_delta i1) (ce_delta i2) then -1
      else if f_lt (ce_delta i2) (ce_delta i1) then 1 else 0)"

definition balanced_left_count :: "int \<Rightarrow> int \<Rightarrow> int \<Rightarrow> int" where
  "balanced_left_count entries min_left_count max_left_count =
     (if min_left_count \<ge> (entries + 1) div 2 then min_left_count
      else if max_left_count \<le> entries div 2 then max_left_count
      else entries div 2)"

definition range_gist_consider_split ::
  "'a TypeCacheEntry \<Rightarrow> 'a ConsiderSplitContext \<Rightarrow> 'a RangeBound \<Rightarrow> int \<Rightarrow> 'a RangeBound \<Rightarrow> int
     \<Rightarrow> 'a ConsiderSplitContext res" where
  "range_gist_consider_split typcache context' right_lower min_left_count left_upper max_left_count =
     (let left_count = balanced_left_count (entries_count context') min_left_count max_left_count;
          right_count = entries_count context' - left_count;
          ratio = f_div (Fin (of_int (min left_count right_count)))
                    (Fin (of_int (entries_count context')))
      in if f_lt (Fin LIMIT_RATIO) ratio then
           rbind (if rng_subdiff typcache \<noteq> None
                  then call_subtype_diff typcache (rb_val left_upper) (rb_val right_lower)
                  else Inr (Fin (of_int (max_left_count - min_left_count)))) (\<lambda>overlap.
             let selectthis =
                   (ctx_first context' \<or> f_lt overlap (ctx_overlap context') \<or>
                    f_eq overlap (ctx_overlap context') \<and> f_lt (ctx_ratio context') ratio)
             in Inr (if selectthis then
                       context'\<lparr>ctx_first := False, ctx_ratio := ratio, ctx_overlap := overlap,
                         ctx_right_lower := Some right_lower, ctx_left_upper := Some left_upper,
                         common_left := max_left_count - left_count,
                         common_right := left_count - min_left_count\<rparr>
                     else context'))
         else Inr context')"

text \<open>The inner loops of the two searches.\<close>

function next_right_lower ::
  "'a TypeCacheEntry \<Rightarrow> 'a NonEmptyRange list \<Rightarrow> 'a RangeBound \<Rightarrow> nat \<Rightarrow> 'a RangeBound
     \<Rightarrow> nat \<times> 'a RangeBound" where
  "next_right_lower typcache by_lower right_lower i1 left_upper =
     (if i1 < length by_lower \<and>
         range_cmp_bounds typcache right_lower (ne_lower (by_lower ! i1)) = 0
      then next_right_lower typcache by_lower right_lower (i1 + 1)
             (if range_cmp_bounds typcache (ne_upper (by_lower ! i1)) left_upper > 0
              then ne_upper (by_lower ! i1) else left_upper)
      else (i1, left_upper))"
  by pat_completeness auto
termination
  by (relation "measure (\<lambda>(tc, bl, rl, i1, lu). length bl - i1)") auto

function count_left ::
  "'a TypeCacheEntry \<Rightarrow> 'a NonEmptyRange list \<Rightarrow> 'a RangeBound \<Rightarrow> nat \<Rightarrow> nat" where
  "count_left typcache by_upper left_upper i2 =
     (if i2 < length by_upper \<and>
         range_cmp_bounds typcache (ne_upper (by_upper ! i2)) left_upper \<le> 0
      then count_left typcache by_upper left_upper (i2 + 1) else i2)"
  by pat_completeness auto
termination
  by (relation "measure (\<lambda>(tc, bu, lu, i2). length bu - i2)") auto

function next_left_upper ::
  "'a TypeCacheEntry \<Rightarrow> 'a NonEmptyRange list \<Rightarrow> 'a RangeBound \<Rightarrow> int \<Rightarrow> 'a RangeBound
     \<Rightarrow> int \<times> 'a RangeBound" where
  "next_left_upper typcache by_upper left_upper i2 right_lower =
     (if i2 \<ge> 0 \<and> range_cmp_bounds typcache left_upper (ne_upper (by_upper ! nat i2)) = 0
      then next_left_upper typcache by_upper left_upper (i2 - 1)
             (if range_cmp_bounds typcache (ne_lower (by_upper ! nat i2)) right_lower < 0
              then ne_lower (by_upper ! nat i2) else right_lower)
      else (i2, right_lower))"
  by pat_completeness auto
termination
  by (relation "measure (\<lambda>(tc, bu, lu, i2, rl). nat (i2 + 1))") auto

function count_right ::
  "'a TypeCacheEntry \<Rightarrow> 'a NonEmptyRange list \<Rightarrow> 'a RangeBound \<Rightarrow> int \<Rightarrow> int" where
  "count_right typcache by_lower right_lower i1 =
     (if i1 \<ge> 0 \<and> range_cmp_bounds typcache (ne_lower (by_lower ! nat i1)) right_lower \<ge> 0
      then count_right typcache by_lower right_lower (i1 - 1) else i1)"
  by pat_completeness auto
termination
  by (relation "measure (\<lambda>(tc, bl, rl, i1). nat (i1 + 1))") auto

declare next_right_lower.simps [simp del] count_left.simps [simp del]
  next_left_upper.simps [simp del] count_right.simps [simp del]

partial_function (option) right_lower_loop ::
  "'a TypeCacheEntry \<Rightarrow> 'a NonEmptyRange list \<Rightarrow> 'a NonEmptyRange list \<Rightarrow> 'a ConsiderSplitContext
     \<Rightarrow> nat \<Rightarrow> nat \<Rightarrow> 'a RangeBound \<Rightarrow> 'a RangeBound \<Rightarrow> 'a ConsiderSplitContext res option" where
  [code]: "right_lower_loop typcache by_lower by_upper context' i1 i2 right_lower left_upper =
     (case next_right_lower typcache by_lower right_lower i1 left_upper of (i1, left_upper) \<Rightarrow>
        if i1 \<ge> length by_lower then Some (Inr context')
        else
          let right_lower = ne_lower (by_lower ! i1);
              i2 = count_left typcache by_upper left_upper i2
          in case range_gist_consider_split typcache context' right_lower (int i1) left_upper (int i2) of
               Inl e \<Rightarrow> Some (Inl e)
             | Inr context' \<Rightarrow>
                 right_lower_loop typcache by_lower by_upper context' i1 i2 right_lower left_upper)"

partial_function (option) left_upper_loop ::
  "'a TypeCacheEntry \<Rightarrow> 'a NonEmptyRange list \<Rightarrow> 'a NonEmptyRange list \<Rightarrow> 'a ConsiderSplitContext
     \<Rightarrow> int \<Rightarrow> int \<Rightarrow> 'a RangeBound \<Rightarrow> 'a RangeBound \<Rightarrow> 'a ConsiderSplitContext res option" where
  [code]: "left_upper_loop typcache by_lower by_upper context' i1 i2 right_lower left_upper =
     (case next_left_upper typcache by_upper left_upper i2 right_lower of (i2, right_lower) \<Rightarrow>
        if i2 < 0 then Some (Inr context')
        else
          let left_upper = ne_upper (by_upper ! nat i2);
              i1 = count_right typcache by_lower right_lower i1
          in case range_gist_consider_split typcache context' right_lower (i1 + 1) left_upper (i2 + 1) of
               Inl e \<Rightarrow> Some (Inl e)
             | Inr context' \<Rightarrow>
                 left_upper_loop typcache by_lower by_upper context' i1 i2 right_lower left_upper)"

text \<open>The bounds of the groups: both searches, from the sorted arrays of bounds.\<close>

definition select_split ::
  "('a::zero) TypeCacheEntry \<Rightarrow> 'a NonEmptyRange list \<Rightarrow> 'a ConsiderSplitContext res option" where
  "select_split typcache bounds =
     (let nentries = length bounds;
          context' = \<lparr>entries_count = int nentries, ctx_first = True, ctx_left_upper = None,
            ctx_right_lower = None, ctx_ratio = Fin 0, ctx_overlap = Fin 0, common_left = 0,
            common_right = 0\<rparr>;
          by_lower = qsort_arg (interval_cmp_lower typcache) bounds;
          by_upper = qsort_arg (interval_cmp_upper typcache) bounds
      in case right_lower_loop typcache by_lower by_upper context' 0 0
                (ne_lower (by_lower ! 0)) (ne_lower (by_upper ! 0)) of
           None \<Rightarrow> None
         | Some (Inl e) \<Rightarrow> Some (Inl e)
         | Some (Inr context') \<Rightarrow>
             left_upper_loop typcache by_lower by_upper context'
               (int nentries - 1) (int nentries - 1)
               (ne_upper (by_lower ! (nentries - 1))) (ne_upper (by_upper ! (nentries - 1))))"

text \<open>
  Distribution of the entries: those that fit one group only are placed at once, the
  others are collected with their delta.
\<close>

fun distribute ::
  "('a::zero) TypeCacheEntry \<Rightarrow> 'a GISTENTRY list \<Rightarrow> 'a RangeBound \<Rightarrow> 'a RangeBound \<Rightarrow> nat list
     \<Rightarrow> 'a GIST_SPLITVEC \<Rightarrow> CommonEntry list \<Rightarrow> ('a GIST_SPLITVEC \<times> CommonEntry list) res" where
  "distribute typcache entryvec left_upper right_lower [] v common_entries = Inr (v, common_entries)"
| "distribute typcache entryvec left_upper right_lower (i # is) v common_entries =
     (let r = gkey (entryvec ! i) in
      case range_deserialize typcache r of (lower, upper, emp) \<Rightarrow>
        if range_cmp_bounds typcache upper left_upper \<le> 0 then
          if range_cmp_bounds typcache lower right_lower \<ge> 0 then
            rbind (if rng_subdiff typcache \<noteq> None then
                     rbind (call_subtype_diff typcache (rb_val lower) (rb_val right_lower)) (\<lambda>dl.
                     rbind (call_subtype_diff typcache (rb_val left_upper) (rb_val upper)) (\<lambda>du.
                     Inr (f_sub dl du)))
                   else Inr (Fin 0)) (\<lambda>delta.
              distribute typcache entryvec left_upper right_lower is v
                (common_entries @ [\<lparr>ce_index = i, ce_delta = delta\<rparr>]))
          else rbind (PLACE_LEFT typcache r i v) (\<lambda>v.
                 distribute typcache entryvec left_upper right_lower is v common_entries)
        else rbind (PLACE_RIGHT typcache r i v) (\<lambda>v.
               distribute typcache entryvec left_upper right_lower is v common_entries))"

definition place_common ::
  "('a::zero) TypeCacheEntry \<Rightarrow> 'a GISTENTRY list \<Rightarrow> int \<Rightarrow> 'a GIST_SPLITVEC \<times> CommonEntry list
     \<Rightarrow> 'a GIST_SPLITVEC res" where
  "place_common typcache entryvec n_left = (\<lambda>(v, common_entries).
     let common_entries = qsort_arg common_entry_cmp common_entries
     in place_loop typcache entryvec
          (map (\<lambda>i. (ce_index (common_entries ! i),
                       if int i < n_left then SPLIT_LEFT else SPLIT_RIGHT))
             [0..<length common_entries]) v)"

definition entry_bounds ::
  "('a::zero) TypeCacheEntry \<Rightarrow> 'a GISTENTRY list \<Rightarrow> 'a NonEmptyRange list" where
  "entry_bounds typcache entryvec =
     map (\<lambda>i. case range_deserialize typcache (gkey (entryvec ! i)) of
         (lower, upper, emp) \<Rightarrow> \<lparr>ne_lower = lower, ne_upper = upper\<rparr>)
       [1..<length entryvec - 1 + 1]"

definition range_gist_double_sorting_split ::
  "('a::zero) TypeCacheEntry \<Rightarrow> 'a GISTENTRY list \<Rightarrow> 'a GIST_SPLITVEC res option" where
  "range_gist_double_sorting_split typcache entryvec =
     (let maxoff = length entryvec - 1
      in case select_split typcache (entry_bounds typcache entryvec) of
           None \<Rightarrow> None
         | Some (Inl e) \<Rightarrow> Some (Inl e)
         | Some (Inr context') \<Rightarrow> Some (
             if ctx_first context' then range_gist_fallback_split typcache entryvec
             else case (ctx_left_upper context', ctx_right_lower context') of
                 (Some left_upper, Some right_lower) \<Rightarrow>
                   rbind (distribute typcache entryvec left_upper right_lower [1..<maxoff + 1]
                            no_split [])
                     (place_common typcache entryvec (common_left context'))
               | _ \<Rightarrow> Inl Undefined_behavior))"

section \<open>Choosing the method\<close>

text \<open>The number of entries of each class, and the number of classes and the biggest one.\<close>

definition class_counts :: "'a GISTENTRY list \<Rightarrow> nat list" where
  "class_counts entryvec =
     foldl (\<lambda>count_in_classes i.
         let c = nat (get_gist_range_class (gkey (entryvec ! i)))
         in count_in_classes[c := count_in_classes ! c + 1])
       (replicate CLS_COUNT 0) [1..<length entryvec]"

definition biggest_class :: "nat list \<Rightarrow> nat \<times> int \<times> nat" where
  "biggest_class count_in_classes =
     foldl (\<lambda>(non_empty_classes_count, biggest_class, biggest_class_count) j.
         if count_in_classes ! j > 0 then
           if count_in_classes ! j > biggest_class_count
           then (non_empty_classes_count + 1, int j, count_in_classes ! j)
           else (non_empty_classes_count + 1, biggest_class, biggest_class_count)
         else (non_empty_classes_count, biggest_class, biggest_class_count))
       (0, -1, 0) [0..<CLS_COUNT]"

definition set_right :: "int list \<Rightarrow> SplitLR list \<Rightarrow> SplitLR list" where
  "set_right cs groups = foldl (\<lambda>groups c. groups[nat c := SPLIT_RIGHT]) groups cs"

definition choose_groups :: "nat list \<Rightarrow> int \<Rightarrow> int \<Rightarrow> SplitLR list" where
  "choose_groups count_in_classes total_count biggest =
     (let cnt = (\<lambda>c. int (count_in_classes ! nat c));
          classes_groups = replicate CLS_COUNT SPLIT_LEFT
      in if cnt CLS_NORMAL > 0 then set_right [CLS_NORMAL] classes_groups
         else
           let nonInfCount = cnt CLS_NORMAL + cnt CLS_CONTAIN_EMPTY + cnt CLS_EMPTY;
               infCount = total_count - nonInfCount;
               nonEmptyCount = cnt CLS_NORMAL + cnt CLS_LOWER_INF + cnt CLS_UPPER_INF
                 + cnt (CLS_LOWER_INF OR CLS_UPPER_INF);
               emptyCount = total_count - nonEmptyCount
           in if infCount > 0 \<and> nonInfCount > 0 \<and>
                 \<bar>infCount - nonInfCount\<bar> \<le> \<bar>emptyCount - nonEmptyCount\<bar>
              then set_right [CLS_NORMAL, CLS_CONTAIN_EMPTY, CLS_EMPTY] classes_groups
              else if emptyCount > 0 \<and> nonEmptyCount > 0
              then set_right [CLS_NORMAL, CLS_LOWER_INF, CLS_UPPER_INF,
                     CLS_LOWER_INF OR CLS_UPPER_INF] classes_groups
              else set_right [biggest] classes_groups)"

definition picksplit_body ::
  "('a::zero) TypeCacheEntry \<Rightarrow> 'a GISTENTRY list \<Rightarrow> 'a GIST_SPLITVEC res option" where
  "picksplit_body typcache entryvec =
     (let maxoff = length entryvec - 1;
          count_in_classes = class_counts entryvec;
          total_count = int maxoff
      in case biggest_class count_in_classes of (non_empty_classes_count, biggest, biggest_count) \<Rightarrow>
        if non_empty_classes_count = 1 then
          if biggest AND NOT CLS_CONTAIN_EMPTY = CLS_NORMAL
          then range_gist_double_sorting_split typcache entryvec
          else if biggest AND NOT CLS_CONTAIN_EMPTY = CLS_LOWER_INF
          then Some (range_gist_single_sorting_split typcache entryvec True)
          else if biggest AND NOT CLS_CONTAIN_EMPTY = CLS_UPPER_INF
          then Some (range_gist_single_sorting_split typcache entryvec False)
          else Some (range_gist_fallback_split typcache entryvec)
        else Some (range_gist_class_split typcache entryvec
                     (choose_groups count_in_classes total_count biggest)))"

definition range_gist_picksplit ::
  "('a::zero) lookup \<Rightarrow> 'a fnx \<Rightarrow> 'a GISTENTRY list \<Rightarrow> ('a GIST_SPLITVEC \<times> 'a fnx) res option" where
  "range_gist_picksplit lk fx entryvec =
     (if length entryvec < 2 then Some (Inl Undefined_behavior)
      else case range_get_typcache lk fx (rangetypid (gkey (entryvec ! 1))) of
          Inl e \<Rightarrow> Some (Inl e)
        | Inr (typcache, fx') \<Rightarrow>
            map_option (\<lambda>r. rbind r (\<lambda>v. Inr (v, fx'))) (picksplit_body typcache entryvec))"

section \<open>What placing entries does\<close>

text \<open>
  The invariant of a split vector: a side has a key exactly when it has entries, and the
  key is the least one that covers them.
\<close>

definition side_inv ::
  "('a::zero) TypeCacheEntry \<Rightarrow> ('a RangeBound \<Rightarrow> bool) \<Rightarrow> 'a GISTENTRY list \<Rightarrow> nat list
     \<Rightarrow> 'a RangeType option \<Rightarrow> bool" where
  "side_inv tc cb vec offs d \<longleftrightarrow>
     (case d of None \<Rightarrow> offs = []
      | Some u \<Rightarrow> offs \<noteq> [] \<and> gist_key tc cb u \<and>
          (\<forall>k. gist_key tc cb k \<longrightarrow>
             (gist_covers tc k u \<longleftrightarrow> (\<forall>i \<in> set offs. gist_covers tc k (gkey (vec ! i))))))"

definition split_inv ::
  "('a::zero) TypeCacheEntry \<Rightarrow> ('a RangeBound \<Rightarrow> bool) \<Rightarrow> 'a GISTENTRY list \<Rightarrow> 'a GIST_SPLITVEC
     \<Rightarrow> bool" where
  "split_inv tc cb vec v \<longleftrightarrow>
     side_inv tc cb vec (spl_left v) (spl_ldatum v) \<and>
     side_inv tc cb vec (spl_right v) (spl_rdatum v)"

definition side_offs :: "SplitLR \<Rightarrow> (nat \<times> SplitLR) list \<Rightarrow> nat list" where
  "side_offs side plan = map fst (filter (\<lambda>(i, s). s = side) plan)"

lemma side_offs_simps [simp]:
  "side_offs side [] = []"
  "side_offs side ((i, s) # plan) = (if s = side then i # side_offs side plan else side_offs side plan)"
  by (simp_all add: side_offs_def)

lemma in_side_offs: "i \<in> set (side_offs side plan) \<longleftrightarrow> (i, side) \<in> set plan"
  by (force simp: side_offs_def)

lemma split_inv_no_split [simp]: "split_inv tc cb vec no_split"
  by (simp add: split_inv_def no_split_def side_inv_def)

lemma mset_side_offs:
  "mset (side_offs SPLIT_LEFT plan) + mset (side_offs SPLIT_RIGHT plan) = mset (map fst plan)"
proof (induction plan)
  case (Cons p plan)
  obtain i s where "p = (i, s)" by fastforce
  with Cons show ?case by (cases s) auto
qed simp

context range_type
begin

lemma place_side:
  assumes "side_inv tc cb vec offs d" and "gist_key tc cb (gkey (vec ! i))"
  obtains u where "place tc offs d (gkey (vec ! i)) = Inr (Some u)"
    and "side_inv tc cb vec (offs @ [i]) (Some u)"
proof (cases d)
  case None
  with assms show ?thesis
    by (intro that [of "gkey (vec ! i)"]) (simp_all add: place_def side_inv_def)
next
  case (Some s)
  with assms obtain u where "range_super_union tc s (gkey (vec ! i)) = Inr u" "gist_key tc cb u"
    "\<And>k. gist_key tc cb k \<Longrightarrow>
      gist_covers tc k u \<longleftrightarrow> gist_covers tc k s \<and> gist_covers tc k (gkey (vec ! i))"
    using super_union_least [of s "gkey (vec ! i)"] unfolding side_inv_def by auto
  with assms Some show ?thesis
    by (intro that [of u]) (auto simp: place_def side_inv_def)
qed

lemma place_left:
  assumes "split_inv tc cb vec v" and "gist_key tc cb (gkey (vec ! i))"
  obtains w where "PLACE_LEFT tc (gkey (vec ! i)) i v = Inr w" and "split_inv tc cb vec w"
    and "spl_left w = spl_left v @ [i]" and "spl_right w = spl_right v"
proof -
  obtain u where "place tc (spl_left v) (spl_ldatum v) (gkey (vec ! i)) = Inr (Some u)"
    "side_inv tc cb vec (spl_left v @ [i]) (Some u)"
    using place_side assms by (metis split_inv_def)
  with assms(1) show ?thesis
    by (intro that [of "v\<lparr>spl_ldatum := Some u, spl_left := spl_left v @ [i]\<rparr>"])
      (simp_all add: PLACE_LEFT_def split_inv_def)
qed

lemma place_right:
  assumes "split_inv tc cb vec v" and "gist_key tc cb (gkey (vec ! i))"
  obtains w where "PLACE_RIGHT tc (gkey (vec ! i)) i v = Inr w" and "split_inv tc cb vec w"
    and "spl_right w = spl_right v @ [i]" and "spl_left w = spl_left v"
proof -
  obtain u where "place tc (spl_right v) (spl_rdatum v) (gkey (vec ! i)) = Inr (Some u)"
    "side_inv tc cb vec (spl_right v @ [i]) (Some u)"
    using place_side assms by (metis split_inv_def)
  with assms(1) show ?thesis
    by (intro that [of "v\<lparr>spl_rdatum := Some u, spl_right := spl_right v @ [i]\<rparr>"])
      (simp_all add: PLACE_RIGHT_def split_inv_def)
qed

lemma place_loop_correct:
  assumes "split_inv tc cb vec v" and "\<forall>(i, s) \<in> set plan. gist_key tc cb (gkey (vec ! i))"
  obtains w where "place_loop tc vec plan v = Inr w" and "split_inv tc cb vec w"
    and "spl_left w = spl_left v @ side_offs SPLIT_LEFT plan"
    and "spl_right w = spl_right v @ side_offs SPLIT_RIGHT plan"
  using assms
proof (induction plan arbitrary: v thesis)
  case (Cons p plan)
  obtain i s where p: "p = (i, s)" by fastforce
  from Cons.prems p have k: "gist_key tc cb (gkey (vec ! i))" by auto
  show ?case
  proof (cases s)
    case SPLIT_LEFT
    obtain w where w: "PLACE_LEFT tc (gkey (vec ! i)) i v = Inr w" "split_inv tc cb vec w"
      "spl_left w = spl_left v @ [i]" "spl_right w = spl_right v"
      using place_left [OF Cons.prems(2) k] by blast
    show ?thesis
      by (rule Cons.IH [OF _ w(2)]) (use Cons.prems p SPLIT_LEFT w in auto)
  next
    case SPLIT_RIGHT
    obtain w where w: "PLACE_RIGHT tc (gkey (vec ! i)) i v = Inr w" "split_inv tc cb vec w"
      "spl_right w = spl_right v @ [i]" "spl_left w = spl_left v"
      using place_right [OF Cons.prems(2) k] by blast
    show ?thesis
      by (rule Cons.IH [OF _ w(2)]) (use Cons.prems p SPLIT_RIGHT w in auto)
  qed
qed simp

end

section \<open>Every method splits the page\<close>

definition good_split ::
  "('a::zero) TypeCacheEntry \<Rightarrow> ('a RangeBound \<Rightarrow> bool) \<Rightarrow> 'a GISTENTRY list \<Rightarrow> 'a GIST_SPLITVEC
     \<Rightarrow> bool" where
  "good_split tc cb vec v \<longleftrightarrow> split_inv tc cb vec v \<and>
     mset (spl_left v) + mset (spl_right v) = mset [1..<length vec]"

definition keys_ok ::
  "('a::zero) TypeCacheEntry \<Rightarrow> ('a RangeBound \<Rightarrow> bool) \<Rightarrow> 'a GISTENTRY list \<Rightarrow> bool" where
  "keys_ok tc cb vec \<longleftrightarrow> length vec \<ge> 2 \<and> list_all (\<lambda>ent. gist_key tc cb (gkey ent)) (tl vec)"

lemma keys_okD:
  assumes "keys_ok tc cb vec" and "i \<in> set [1..<length vec]"
  shows "gist_key tc cb (gkey (vec ! i))"
proof -
  from assms(2) have "1 \<le> i" "i < length vec" by auto
  then obtain j where "i = Suc j" "Suc j < length vec"
    by (metis Suc_le_D One_nat_def)
  then have "vec ! i \<in> set (tl vec)"
    using nth_mem [of j "tl vec"] by (simp add: nth_tl less_diff_conv)
  then show ?thesis using assms(1) by (simp add: keys_ok_def list_all_iff)
qed

lemma keys_ok_upt:
  assumes "keys_ok tc cb vec"
  shows "[1..<length vec - 1 + 1] = [1..<length vec]"
proof -
  have "length vec - 1 + 1 = length vec" using assms by (auto simp: keys_ok_def)
  then show ?thesis by (simp only:)
qed

lemma map_nth_upt: "map (\<lambda>i. f (xs ! i)) [0..<length xs] = map f xs"
  by (rule nth_equalityI) simp_all

context range_type
begin

lemma plan_split:
  assumes "keys_ok tc cb vec" and plan: "mset (map fst plan) = mset [1..<length vec]"
  obtains v where "place_loop tc vec plan no_split = Inr v" and "good_split tc cb vec v"
    and "spl_left v = side_offs SPLIT_LEFT plan" and "spl_right v = side_offs SPLIT_RIGHT plan"
proof -
  have "set (map fst plan) = set [1..<length vec]"
    using plan by (rule mset_eq_setD)
  then have off: "fst p \<in> set [1..<length vec]" if "p \<in> set plan" for p
    using that by (metis image_eqI set_map)
  have "\<forall>(i, s) \<in> set plan. gist_key tc cb (gkey (vec ! i))"
    by (intro ballI) (simp only: split_beta keys_okD [OF assms(1) off])
  then obtain v where v: "place_loop tc vec plan no_split = Inr v" "split_inv tc cb vec v"
      "spl_left v = side_offs SPLIT_LEFT plan" "spl_right v = side_offs SPLIT_RIGHT plan"
    using place_loop_correct [OF split_inv_no_split, of plan vec] by (auto simp: no_split_def)
  have "mset (spl_left v) + mset (spl_right v) = mset [1..<length vec]"
    unfolding v(3,4) mset_side_offs plan ..
  with v show ?thesis
    by (intro that [of v]) (simp_all only: good_split_def)
qed

lemma fallback_split_correct:
  assumes "keys_ok tc cb vec"
  obtains v where "range_gist_fallback_split tc vec = Inr v" and "good_split tc cb vec v"
    and "length vec > 3 \<Longrightarrow> spl_left v \<noteq> [] \<and> spl_right v \<noteq> []"
proof -
  let ?split = "(length vec - 1 - 1) div 2 + 1"
  let ?plan = "map (\<lambda>i. (i, if i < ?split then SPLIT_LEFT else SPLIT_RIGHT)) [1..<length vec]"
  have "mset (map fst ?plan) = mset [1..<length vec]"
    by (simp add: comp_def)
  from plan_split [OF assms this] obtain v
    where v: "place_loop tc vec ?plan no_split = Inr v" "good_split tc cb vec v"
      "spl_left v = side_offs SPLIT_LEFT ?plan" "spl_right v = side_offs SPLIT_RIGHT ?plan"
    by blast
  have "1 \<in> set (spl_left v) \<and> length vec - 1 \<in> set (spl_right v)" if big: "length vec > 3"
  proof -
    have "1 < ?split" "\<not> length vec - 1 < ?split" using big by linarith+
    then show ?thesis
      using big unfolding v(3,4) in_side_offs by (simp add: image_iff)
  qed
  then have "length vec > 3 \<Longrightarrow> spl_left v \<noteq> [] \<and> spl_right v \<noteq> []" by auto
  moreover have "range_gist_fallback_split tc vec = Inr v"
    unfolding range_gist_fallback_split_def Let_def keys_ok_upt [OF assms] by (rule v(1))
  ultimately show ?thesis using that v(2) by blast
qed

lemma single_sorting_split_correct:
  assumes "keys_ok tc cb vec"
  obtains v where "range_gist_single_sorting_split tc vec up = Inr v" and "good_split tc cb vec v"
    and "length vec > 2 \<Longrightarrow> spl_left v \<noteq> [] \<and> spl_right v \<noteq> []"
proof -
  define item where "item i = (case range_deserialize tc (gkey (vec ! i)) of
      (lower, upper, emp) \<Rightarrow> \<lparr>sb_index = i, sb_bound = (if up then upper else lower)\<rparr>)" for i
  have idx: "sb_index (item i) = i" for i
    by (simp add: item_def split_beta)
  define items where "items = qsort_arg (single_bound_cmp tc) (map item [1..<length vec])"
  have len: "length items = length vec - 1"
    using mset_qsort_arg [THEN mset_eq_length] by (metis items_def length_map length_upt)
  let ?split = "(length vec - 1) div 2"
  let ?plan = "map (\<lambda>i. (sb_index (items ! i), if i < ?split then SPLIT_LEFT else SPLIT_RIGHT))
    [0..<length vec - 1]"
  have "map fst ?plan = map sb_index items"
    using map_nth_upt [of sb_index items] len by (simp add: comp_def)
  also have "mset \<dots> = image_mset sb_index (mset (map item [1..<length vec]))"
    by (simp only: mset_map items_def mset_qsort_arg)
  also have "\<dots> = mset (map (\<lambda>i. sb_index (item i)) [1..<length vec])"
    by (simp only: mset_map [symmetric] map_map comp_def)
  finally have "mset (map fst ?plan) = mset [1..<length vec]"
    by (simp only: idx list.map_ident)
  then obtain v where v: "place_loop tc vec ?plan no_split = Inr v" "good_split tc cb vec v"
    "spl_left v = side_offs SPLIT_LEFT ?plan" "spl_right v = side_offs SPLIT_RIGHT ?plan"
    using plan_split [OF assms] by blast
  have "sb_index (items ! 0) \<in> set (spl_left v) \<and>
      sb_index (items ! (length vec - 2)) \<in> set (spl_right v)" if big: "length vec > 2"
  proof -
    have "0 < ?split" "\<not> length vec - 2 < ?split" "length vec - 2 < length vec - 1"
      using big by linarith+
    then show ?thesis
      using big unfolding v(3,4) in_side_offs set_map set_upt
      by (intro conjI image_eqI [of _ _ 0] image_eqI [of _ _ "length vec - 2"]) simp_all
  qed
  then have "length vec > 2 \<Longrightarrow> spl_left v \<noteq> [] \<and> spl_right v \<noteq> []" by auto
  moreover have "range_gist_single_sorting_split tc vec up = Inr v"
    unfolding range_gist_single_sorting_split_def Let_def keys_ok_upt [OF assms]
      item_def [symmetric] items_def [symmetric] by (rule v(1))
  ultimately show ?thesis using that v(2) by blast
qed

lemma class_split_correct:
  assumes "keys_ok tc cb vec"
  obtains v where "range_gist_class_split tc vec groups = Inr v" and "good_split tc cb vec v"
    and "set (spl_left v) = {i \<in> {1..<length vec}.
      groups ! nat (get_gist_range_class (gkey (vec ! i))) = SPLIT_LEFT}"
    and "set (spl_right v) = {i \<in> {1..<length vec}.
      groups ! nat (get_gist_range_class (gkey (vec ! i))) = SPLIT_RIGHT}"
proof -
  let ?plan = "map (\<lambda>i. (i, groups ! nat (get_gist_range_class (gkey (vec ! i))))) [1..<length vec]"
  have "mset (map fst ?plan) = mset [1..<length vec]"
    by (simp add: comp_def)
  from plan_split [OF assms this] obtain v
    where v: "place_loop tc vec ?plan no_split = Inr v" "good_split tc cb vec v"
      "spl_left v = side_offs SPLIT_LEFT ?plan" "spl_right v = side_offs SPLIT_RIGHT ?plan"
    by blast
  have "range_gist_class_split tc vec groups = Inr v"
    unfolding range_gist_class_split_def Let_def keys_ok_upt [OF assms] by (rule v(1))
  then show ?thesis
    by (rule that [OF _ v(2)]) (auto simp: v(3,4) in_side_offs image_iff)
qed

end

section \<open>The bounds of the groups\<close>

text \<open>A pair of group bounds is a split when every range fits one of the groups.\<close>

definition fits ::
  "'a TypeCacheEntry \<Rightarrow> 'a NonEmptyRange list \<Rightarrow> 'a RangeBound \<Rightarrow> 'a RangeBound \<Rightarrow> bool" where
  "fits tc bounds left_upper right_lower \<longleftrightarrow>
     list_all (\<lambda>b. cle (range_cmp_bounds tc) (ne_upper b) left_upper \<or>
       cle (range_cmp_bounds tc) right_lower (ne_lower b)) bounds"

definition ctx_ok :: "'a TypeCacheEntry \<Rightarrow> 'a NonEmptyRange list \<Rightarrow> 'a ConsiderSplitContext \<Rightarrow> bool"
  where
  "ctx_ok tc bounds ctx \<longleftrightarrow> ctx_first ctx \<or>
     (case (ctx_left_upper ctx, ctx_right_lower ctx) of
        (Some left_upper, Some right_lower) \<Rightarrow> fits tc bounds left_upper right_lower
      | _ \<Rightarrow> False)"

lemma consider_split_cases:
  obtains "range_gist_consider_split tc ctx rl m lu n = Inr ctx"
  | ctx' where "range_gist_consider_split tc ctx rl m lu n = Inr ctx'"
    and "ctx_left_upper ctx' = Some lu" and "ctx_right_lower ctx' = Some rl"
    and "common_left ctx' = n - balanced_left_count (entries_count ctx) m n"
proof -
  obtain ov where ov: "(if rng_subdiff tc \<noteq> None
      then call_subtype_diff tc (rb_val lu) (rb_val rl) else Inr (Fin (of_int (n - m)))) = Inr ov"
    by (cases "rng_subdiff tc") (simp_all add: call_subtype_diff_def Let_def)
  define lc where "lc = balanced_left_count (entries_count ctx) m n"
  define rt where "rt = f_div (Fin (of_int (min lc (entries_count ctx - lc))))
    (Fin (of_int (entries_count ctx)))"
  define S where "S = (ctx_first ctx \<or> f_lt ov (ctx_overlap ctx) \<or>
    f_eq ov (ctx_overlap ctx) \<and> f_lt (ctx_ratio ctx) rt)"
  define C where "C = ctx\<lparr>ctx_first := False, ctx_ratio := rt, ctx_overlap := ov,
    ctx_right_lower := Some rl, ctx_left_upper := Some lu, common_left := n - lc,
    common_right := lc - m\<rparr>"
  have "range_gist_consider_split tc ctx rl m lu n =
    (if f_lt (Fin LIMIT_RATIO) rt then Inr (if S then C else ctx) else Inr ctx)"
    unfolding range_gist_consider_split_def Let_def ov rbind_simps
      lc_def [symmetric] rt_def [symmetric] S_def [symmetric] C_def [symmetric] ..
  then show ?thesis
    using that(1) that(2) [of C]
    by (cases "f_lt (Fin LIMIT_RATIO) rt \<and> S") (auto simp: C_def lc_def)
qed

lemma consider_split_ok:
  assumes "ctx_ok tc bounds ctx" and "fits tc bounds lu rl"
  obtains ctx' where "range_gist_consider_split tc ctx rl m lu n = Inr ctx'"
    and "ctx_ok tc bounds ctx'"
  by (rule consider_split_cases [of tc ctx rl m lu n])
    (use assms that in \<open>simp_all add: ctx_ok_def\<close>)

context range_type
begin

lemma next_right_lower_spec:
  assumes "next_right_lower tc bl rl i1 lu = (i1', lu')"
  shows "i1 \<le> i1' \<and> cle (range_cmp_bounds tc) lu lu' \<and>
    (\<forall>j. i1 \<le> j \<longrightarrow> j < i1' \<longrightarrow> cle (range_cmp_bounds tc) (ne_upper (bl ! j)) lu') \<and>
    (i1 < length bl \<longrightarrow> range_cmp_bounds tc rl (ne_lower (bl ! i1)) = 0 \<longrightarrow> i1 < i1')"
  using assms
proof (induction "length bl - i1" arbitrary: i1 lu rule: less_induct)
  case less
  show ?case
  proof (cases "i1 < length bl \<and> range_cmp_bounds tc rl (ne_lower (bl ! i1)) = 0")
    case True
    define m where "m = (if range_cmp_bounds tc (ne_upper (bl ! i1)) lu > 0
      then ne_upper (bl ! i1) else lu)"
    have m: "cle (range_cmp_bounds tc) lu m" "cle (range_cmp_bounds tc) (ne_upper (bl ! i1)) m"
      using bnd.cle_total [of lu "ne_upper (bl ! i1)"] by (auto simp: m_def bnd.cmp_signs)
    have "next_right_lower tc bl rl (Suc i1) m = (i1', lu')"
      using less.prems True by (subst (asm) next_right_lower.simps) (simp add: m_def)
    with less.hyps [of "Suc i1" m] True
    have IH: "Suc i1 \<le> i1'" "cle (range_cmp_bounds tc) m lu'"
      "\<And>j. Suc i1 \<le> j \<Longrightarrow> j < i1' \<Longrightarrow> cle (range_cmp_bounds tc) (ne_upper (bl ! j)) lu'"
      by auto
    have "cle (range_cmp_bounds tc) (ne_upper (bl ! j)) lu'" if "i1 \<le> j" "j < i1'" for j
      using that IH(2) IH(3) [of j] m bnd.cle_trans [of "ne_upper (bl ! i1)" m lu']
      by (cases "j = i1") auto
    then show ?thesis using IH(1,2) m bnd.cle_trans [of lu m lu'] by auto
  next
    case False
    then show ?thesis
      using less.prems by (subst (asm) next_right_lower.simps) auto
  qed
qed

lemma next_left_upper_spec:
  assumes "next_left_upper tc bu lu i2 rl = (i2', rl')"
  shows "i2' \<le> i2 \<and> cle (range_cmp_bounds tc) rl' rl \<and>
    (\<forall>j. i2' < j \<longrightarrow> j \<le> i2 \<longrightarrow> cle (range_cmp_bounds tc) rl' (ne_lower (bu ! nat j))) \<and>
    (i2 \<ge> 0 \<longrightarrow> range_cmp_bounds tc lu (ne_upper (bu ! nat i2)) = 0 \<longrightarrow> i2' < i2)"
  using assms
proof (induction "nat (i2 + 1)" arbitrary: i2 rl rule: less_induct)
  case less
  show ?case
  proof (cases "i2 \<ge> 0 \<and> range_cmp_bounds tc lu (ne_upper (bu ! nat i2)) = 0")
    case True
    define m where "m = (if range_cmp_bounds tc (ne_lower (bu ! nat i2)) rl < 0
      then ne_lower (bu ! nat i2) else rl)"
    have m: "cle (range_cmp_bounds tc) m rl" "cle (range_cmp_bounds tc) m (ne_lower (bu ! nat i2))"
      using bnd.cle_total [of rl "ne_lower (bu ! nat i2)"] by (auto simp: m_def bnd.cmp_signs)
    have "next_left_upper tc bu lu (i2 - 1) m = (i2', rl')"
      using less.prems True by (subst (asm) next_left_upper.simps) (simp add: m_def)
    with less.hyps [of "i2 - 1" m] True
    have IH: "i2' \<le> i2 - 1" "cle (range_cmp_bounds tc) rl' m"
      "\<And>j. i2' < j \<Longrightarrow> j \<le> i2 - 1 \<Longrightarrow> cle (range_cmp_bounds tc) rl' (ne_lower (bu ! nat j))"
      by auto
    have "cle (range_cmp_bounds tc) rl' (ne_lower (bu ! nat j))" if "i2' < j" "j \<le> i2" for j
      using that IH(2) IH(3) [of j] m bnd.cle_trans [of rl' m "ne_lower (bu ! nat i2)"]
      by (cases "j = i2") auto
    then show ?thesis using IH(1,2) m bnd.cle_trans [of rl' m rl] by auto
  next
    case False
    then show ?thesis
      using less.prems by (subst (asm) next_left_upper.simps) auto
  qed
qed

text \<open>Both searches return, and what they select is a split.\<close>

lemma right_lower_loop_ok:
  assumes "sorted_wrt (\<lambda>a b. cle (range_cmp_bounds tc) (ne_lower a) (ne_lower b)) bl"
    and "set bl = set bounds"
    and "ctx_ok tc bounds ctx" and "i1 < length bl" and "rl = ne_lower (bl ! i1)"
    and "\<forall>j < i1. cle (range_cmp_bounds tc) (ne_upper (bl ! j)) lu"
  obtains ctx' where "right_lower_loop tc bl bu ctx i1 i2 rl lu = Some (Inr ctx')"
    and "ctx_ok tc bounds ctx'"
  using assms(3-)
proof (induction "length bl - i1" arbitrary: ctx i1 i2 rl lu thesis rule: less_induct)
  case less
  obtain i1' lu' where n: "next_right_lower tc bl rl i1 lu = (i1', lu')" by fastforce
  note N = next_right_lower_spec [OF n]
  have up: "cle (range_cmp_bounds tc) (ne_upper (bl ! j)) lu'" if "j < i1'" for j
    using that N less.prems(5) bnd.cle_trans [of "ne_upper (bl ! j)" lu lu']
    by (cases "j < i1") (auto simp: not_less)
  show ?case
  proof (cases "i1' < length bl")
    case False
    then show ?thesis
      using less.prems(1,2) by (subst (asm) right_lower_loop.simps) (simp add: n)
  next
    case True
    let ?rl = "ne_lower (bl ! i1')"
    have "fits tc bounds lu' ?rl"
    proof -
      have "cle (range_cmp_bounds tc) (ne_upper (bl ! j)) lu' \<or>
          cle (range_cmp_bounds tc) ?rl (ne_lower (bl ! j))" if "j < length bl" for j
        using up [of j] that assms(1) bnd.cle_refl
        by (cases "j < i1'"; cases "j = i1'") (auto simp: sorted_wrt_iff_nth_less)
      then show ?thesis
        unfolding fits_def list_all_iff assms(2) [symmetric] by (metis in_set_conv_nth)
    qed
    from consider_split_ok [OF less.prems(2) this]
    obtain c where c: "range_gist_consider_split tc ctx ?rl (int i1') lu'
        (int (count_left tc bu lu' i2)) = Inr c" "ctx_ok tc bounds c" by blast
    have "i1 < i1'" using N less.prems(3,4) by simp
    show ?thesis
      by (rule less.hyps [of i1' c "count_left tc bu lu' i2" ?rl lu'])
        (use \<open>i1 < i1'\<close> True c up less.prems(1) in
          \<open>auto simp: right_lower_loop.simps [of tc bl bu ctx] n Let_def\<close>)
  qed
qed

lemma left_upper_loop_ok:
  assumes "sorted_wrt (\<lambda>a b. cle (range_cmp_bounds tc) (ne_upper a) (ne_upper b)) bu"
    and "set bu = set bounds"
    and "ctx_ok tc bounds ctx" and "0 \<le> i2" and "i2 < int (length bu)"
    and "lu = ne_upper (bu ! nat i2)"
    and "\<forall>j < length bu. i2 < int j \<longrightarrow> cle (range_cmp_bounds tc) rl (ne_lower (bu ! j))"
  obtains ctx' where "left_upper_loop tc bl bu ctx i1 i2 rl lu = Some (Inr ctx')"
    and "ctx_ok tc bounds ctx'"
  using assms(3-)
proof (induction "nat i2" arbitrary: ctx i1 i2 rl lu thesis rule: less_induct)
  case less
  obtain i2' rl' where n: "next_left_upper tc bu lu i2 rl = (i2', rl')" by fastforce
  note N = next_left_upper_spec [OF n]
  have low: "cle (range_cmp_bounds tc) rl' (ne_lower (bu ! j))" if "i2' < int j" "j < length bu" for j
    using that N less.prems(6) bnd.cle_trans [of rl' rl "ne_lower (bu ! j)"]
    by (cases "i2 < int j") (auto simp: not_less dest: spec [of _ "int j"])
  have dec: "i2' < i2" using N less.prems(3,5) by simp
  show ?case
  proof (cases "0 \<le> i2'")
    case False
    then show ?thesis
      using less.prems(1,2) by (subst (asm) left_upper_loop.simps) (simp add: n)
  next
    case True
    let ?lu = "ne_upper (bu ! nat i2')"
    have len: "nat i2' < length bu" using True dec less.prems(4) by linarith
    have "fits tc bounds ?lu rl'"
    proof -
      have "cle (range_cmp_bounds tc) (ne_upper (bu ! j)) ?lu \<or>
          cle (range_cmp_bounds tc) rl' (ne_lower (bu ! j))" if j: "j < length bu" for j
      proof (cases "i2' < int j")
        case False
        then have "j < nat i2' \<or> j = nat i2'" by linarith
        then show ?thesis using assms(1) len by (auto simp: sorted_wrt_iff_nth_less)
      qed (use low j in blast)
      then show ?thesis
        unfolding fits_def list_all_iff assms(2) [symmetric] by (metis in_set_conv_nth)
    qed
    from consider_split_ok [OF less.prems(2) this]
    obtain c where c: "range_gist_consider_split tc ctx rl' (count_right tc bl rl' i1 + 1) ?lu (i2' + 1)
        = Inr c" "ctx_ok tc bounds c" by blast
    show ?thesis
      by (rule less.hyps [of i2' c "count_right tc bl rl' i1" rl' ?lu])
        (use dec True len c low less.prems(1,3,4) in
          \<open>auto simp: left_upper_loop.simps [of tc bl bu ctx] n Let_def\<close>)
  qed
qed

lemma interval_sorted:
  "sorted_wrt (\<lambda>a b. cle (range_cmp_bounds tc) (ne_lower a) (ne_lower b))
     (qsort_arg (interval_cmp_lower tc) bounds)"
  "sorted_wrt (\<lambda>a b. cle (range_cmp_bounds tc) (ne_upper a) (ne_upper b))
     (qsort_arg (interval_cmp_upper tc) bounds)"
proof -
  have eq: "interval_cmp_lower tc = (\<lambda>a b. range_cmp_bounds tc (ne_lower a) (ne_lower b))"
    "interval_cmp_upper tc = (\<lambda>a b. range_cmp_bounds tc (ne_upper a) (ne_upper b))"
    by (simp_all add: interval_cmp_lower_def interval_cmp_upper_def fun_eq_iff)
  have le: "(\<lambda>a b. cle (range_cmp_bounds tc) (f a) (f b)) =
      cle (\<lambda>a b. range_cmp_bounds tc (f a) (f b))" for f :: "'a NonEmptyRange \<Rightarrow> 'a RangeBound"
    by (simp add: fun_eq_iff cle_def)
  note sorted = cmp_preorder.sorted_qsort_arg [OF cmp_preorder_key [OF bnd.cmp_preorder_axioms]]
  show "sorted_wrt (\<lambda>a b. cle (range_cmp_bounds tc) (ne_lower a) (ne_lower b))
     (qsort_arg (interval_cmp_lower tc) bounds)"
    unfolding eq le by (rule sorted)
  show "sorted_wrt (\<lambda>a b. cle (range_cmp_bounds tc) (ne_upper a) (ne_upper b))
     (qsort_arg (interval_cmp_upper tc) bounds)"
    unfolding eq le by (rule sorted)
qed

lemma select_split_ok:
  assumes "bounds \<noteq> []"
  obtains ctx where "select_split tc bounds = Some (Inr ctx)" and "ctx_ok tc bounds ctx"
proof -
  define bl bu where "bl = qsort_arg (interval_cmp_lower tc) bounds"
    and "bu = qsort_arg (interval_cmp_upper tc) bounds"
  have m: "mset bl = mset bounds" "mset bu = mset bounds"
    by (simp_all add: bl_def bu_def mset_qsort_arg)
  note set = mset_eq_setD [OF m(1)] mset_eq_setD [OF m(2)]
    and len = mset_eq_length [OF m(1)] mset_eq_length [OF m(2)]
  have pos: "0 < length bounds" using assms by simp
  define ctx0 :: "'a ConsiderSplitContext" where
    "ctx0 = \<lparr>entries_count = int (length bounds), ctx_first = True, ctx_left_upper = None,
       ctx_right_lower = None, ctx_ratio = Fin 0, ctx_overlap = Fin 0, common_left = 0,
       common_right = 0\<rparr>"
  have "ctx_ok tc bounds ctx0" by (simp add: ctx_ok_def ctx0_def)
  then obtain c1 where c1: "right_lower_loop tc bl bu ctx0 0 0 (ne_lower (bl ! 0)) (ne_lower (bu ! 0))
      = Some (Inr c1)" "ctx_ok tc bounds c1"
    using right_lower_loop_ok [OF interval_sorted(1) [of bounds, folded bl_def] set(1)] pos len
    by (metis not_less_zero)
  have last: "nat (int (length bounds) - 1) = length bounds - 1" by simp
  obtain c2 where c2: "left_upper_loop tc bl bu c1 (int (length bounds) - 1) (int (length bounds) - 1)
      (ne_upper (bl ! (length bounds - 1))) (ne_upper (bu ! (length bounds - 1))) = Some (Inr c2)"
      "ctx_ok tc bounds c2"
    by (rule left_upper_loop_ok [OF interval_sorted(2) [of bounds, folded bu_def] set(2) c1(2),
        of "int (length bounds) - 1" _ "ne_upper (bl ! (length bounds - 1))" bl "int (length bounds) - 1"])
      (use pos len last in auto)
  have "select_split tc bounds = Some (Inr c2)"
    unfolding select_split_def Let_def bl_def [symmetric] bu_def [symmetric] ctx0_def [symmetric]
    by (simp only: c1(1) c2(1) option.case sum.case)
  with c2(2) that show ?thesis by blast
qed

end

section \<open>The double sorting split\<close>

text \<open>
  Every entry of the left group ends at or before the upper bound chosen for that group,
  every entry of the right group starts at or after the lower bound chosen for it. The
  second half is what the assertion in the distribution loop states.
\<close>

definition groups_fit ::
  "('a::zero) TypeCacheEntry \<Rightarrow> 'a GISTENTRY list \<Rightarrow> 'a RangeBound \<Rightarrow> 'a RangeBound
     \<Rightarrow> 'a GIST_SPLITVEC \<Rightarrow> bool" where
  "groups_fit tc vec left_upper right_lower v \<longleftrightarrow>
     list_all (\<lambda>i. case range_deserialize tc (gkey (vec ! i)) of (lower, upper, emp) \<Rightarrow>
       cle (range_cmp_bounds tc) upper left_upper) (spl_left v) \<and>
     list_all (\<lambda>i. case range_deserialize tc (gkey (vec ! i)) of (lower, upper, emp) \<Rightarrow>
       cle (range_cmp_bounds tc) right_lower lower) (spl_right v)"

definition common_fit ::
  "('a::zero) TypeCacheEntry \<Rightarrow> 'a GISTENTRY list \<Rightarrow> 'a RangeBound \<Rightarrow> 'a RangeBound
     \<Rightarrow> nat list \<Rightarrow> bool" where
  "common_fit tc vec left_upper right_lower offs \<longleftrightarrow>
     list_all (\<lambda>i. case range_deserialize tc (gkey (vec ! i)) of (lower, upper, emp) \<Rightarrow>
       cle (range_cmp_bounds tc) upper left_upper \<and> cle (range_cmp_bounds tc) right_lower lower) offs"

definition entry_fits ::
  "('a::zero) TypeCacheEntry \<Rightarrow> 'a GISTENTRY list \<Rightarrow> 'a RangeBound \<Rightarrow> 'a RangeBound \<Rightarrow> nat \<Rightarrow> bool"
  where
  "entry_fits tc vec left_upper right_lower i \<longleftrightarrow>
     (case range_deserialize tc (gkey (vec ! i)) of (lower, upper, emp) \<Rightarrow>
       cle (range_cmp_bounds tc) upper left_upper \<or> cle (range_cmp_bounds tc) right_lower lower)"

context range_type
begin

lemma distribute_correct:
  assumes "split_inv tc cb vec v" and "groups_fit tc vec lu rl v"
    and "common_fit tc vec lu rl (map ce_index ces)"
    and "\<forall>i \<in> set is. gist_key tc cb (gkey (vec ! i)) \<and> entry_fits tc vec lu rl i"
  shows "\<exists>w ces'. distribute tc vec lu rl is v ces = Inr (w, ces') \<and>
    split_inv tc cb vec w \<and> groups_fit tc vec lu rl w \<and>
    common_fit tc vec lu rl (map ce_index ces') \<and>
    mset (spl_left w) + mset (spl_right w) + mset (map ce_index ces') =
      mset (spl_left v) + mset (spl_right v) + mset (map ce_index ces) + mset is"
  using assms
proof (induction "is" arbitrary: v ces)
  case (Cons i "is")
  obtain l u e where d: "range_deserialize tc (gkey (vec ! i)) = (l, u, e)" by (metis prod_cases3)
  have k: "gist_key tc cb (gkey (vec ! i))" and f: "entry_fits tc vec lu rl i"
    and rest: "\<forall>i \<in> set is. gist_key tc cb (gkey (vec ! i)) \<and> entry_fits tc vec lu rl i"
    using Cons.prems(4) by auto
  consider (common) "cle (range_cmp_bounds tc) u lu" "cle (range_cmp_bounds tc) rl l"
    | (left) "cle (range_cmp_bounds tc) u lu" "\<not> cle (range_cmp_bounds tc) rl l"
    | (right) "\<not> cle (range_cmp_bounds tc) u lu" "cle (range_cmp_bounds tc) rl l"
    using f by (auto simp: entry_fits_def d)
  then show ?case
  proof cases
    case common
    obtain dl where "(if rng_subdiff tc \<noteq> None then
         rbind (call_subtype_diff tc (rb_val l) (rb_val rl)) (\<lambda>dl.
         rbind (call_subtype_diff tc (rb_val lu) (rb_val u)) (\<lambda>du. Inr (f_sub dl du)))
       else Inr (Fin 0)) = Inr dl"
      by (cases "rng_subdiff tc") (simp_all add: call_subtype_diff_def Let_def)
    then have step: "distribute tc vec lu rl (i # is) v ces =
        distribute tc vec lu rl is v (ces @ [\<lparr>ce_index = i, ce_delta = dl\<rparr>])"
      using common by (simp add: d bnd.cmp_signs)
    have "common_fit tc vec lu rl (map ce_index (ces @ [\<lparr>ce_index = i, ce_delta = dl\<rparr>]))"
      using Cons.prems(3) common by (simp add: common_fit_def d)
    from Cons.IH [OF Cons.prems(1,2) this rest] show ?thesis unfolding step by simp
  next
    case left
    obtain w where w: "PLACE_LEFT tc (gkey (vec ! i)) i v = Inr w" "split_inv tc cb vec w"
      "spl_left w = spl_left v @ [i]" "spl_right w = spl_right v"
      using place_left [OF Cons.prems(1) k] by blast
    have step: "distribute tc vec lu rl (i # is) v ces = distribute tc vec lu rl is w ces"
      using left w(1) by (simp add: d bnd.cmp_signs)
    have "groups_fit tc vec lu rl w"
      using Cons.prems(2) left w(3,4) by (simp add: groups_fit_def d)
    from Cons.IH [OF w(2) this Cons.prems(3) rest] show ?thesis
      unfolding step w(3,4) by simp
  next
    case right
    obtain w where w: "PLACE_RIGHT tc (gkey (vec ! i)) i v = Inr w" "split_inv tc cb vec w"
      "spl_right w = spl_right v @ [i]" "spl_left w = spl_left v"
      using place_right [OF Cons.prems(1) k] by blast
    have step: "distribute tc vec lu rl (i # is) v ces = distribute tc vec lu rl is w ces"
      using right w(1) by (simp add: d bnd.cmp_signs)
    have "groups_fit tc vec lu rl w"
      using Cons.prems(2) right w(3,4) by (simp add: groups_fit_def d)
    from Cons.IH [OF w(2) this Cons.prems(3) rest] show ?thesis
      unfolding step w(3,4) by simp
  qed
qed simp

lemma place_common_correct:
  assumes "split_inv tc cb vec v" and "groups_fit tc vec lu rl v"
    and "common_fit tc vec lu rl (map ce_index ces)"
    and k: "\<forall>i \<in> set (map ce_index ces). gist_key tc cb (gkey (vec ! i))"
  obtains w where "place_common tc vec n (v, ces) = Inr w" and "split_inv tc cb vec w"
    and "groups_fit tc vec lu rl w"
    and "mset (spl_left w) + mset (spl_right w) =
      mset (spl_left v) + mset (spl_right v) + mset (map ce_index ces)"
proof -
  define cs where "cs = qsort_arg common_entry_cmp ces"
  define plan where "plan = map (\<lambda>i. (ce_index (cs ! i), if int i < n then SPLIT_LEFT else SPLIT_RIGHT))
    [0..<length cs]"
  have fst: "map fst plan = map ce_index cs"
    using map_nth_upt [of ce_index cs] by (simp add: plan_def comp_def)
  have m: "mset (map ce_index cs) = mset (map ce_index ces)"
    unfolding mset_map cs_def mset_qsort_arg ..
  then have set: "set (map fst plan) = set (map ce_index ces)"
    unfolding fst by (rule mset_eq_setD)
  then have off: "fst p \<in> set (map ce_index ces)" if "p \<in> set plan" for p
    using that by (metis image_eqI set_map)
  have "\<forall>(i, s) \<in> set plan. gist_key tc cb (gkey (vec ! i))"
    unfolding case_prod_unfold using off k by blast
  from place_loop_correct [OF assms(1) this] obtain w
    where w: "place_loop tc vec plan v = Inr w" "split_inv tc cb vec w"
      "spl_left w = spl_left v @ side_offs SPLIT_LEFT plan"
      "spl_right w = spl_right v @ side_offs SPLIT_RIGHT plan" by blast
  have sub: "i \<in> set (map ce_index ces)" if "i \<in> set (side_offs s plan)" for i s
    using that off [of "(i, s)"] unfolding in_side_offs by simp
  have "place_common tc vec n (v, ces) = Inr w"
    using w(1) by (simp add: place_common_def cs_def plan_def)
  moreover have "groups_fit tc vec lu rl w"
    using assms(2,3) sub unfolding groups_fit_def common_fit_def list_all_iff w(3,4) set_append
      case_prod_unfold by blast
  moreover have "mset (spl_left w) + mset (spl_right w) =
      mset (spl_left v) + mset (spl_right v) + mset (map ce_index ces)"
    using mset_side_offs [of plan] unfolding w(3,4) fst m mset_append by (simp only: ac_simps)
  ultimately show ?thesis using that w(2) by blast
qed

lemma double_sorting_split_correct:
  assumes ok: "keys_ok tc cb vec"
  obtains v ctx where "range_gist_double_sorting_split tc vec = Some (Inr v)"
    and "good_split tc cb vec v" and "select_split tc (entry_bounds tc vec) = Some (Inr ctx)"
    and "\<not> ctx_first ctx \<Longrightarrow> \<exists>lu rl. ctx_left_upper ctx = Some lu \<and> ctx_right_lower ctx = Some rl \<and>
      fits tc (entry_bounds tc vec) lu rl \<and> groups_fit tc vec lu rl v"
proof -
  define bounds where "bounds = entry_bounds tc vec"
  have "bounds \<noteq> []"
    using ok by (auto simp: bounds_def entry_bounds_def keys_ok_upt [OF ok, simplified] keys_ok_def)
  then obtain ctx where ctx: "select_split tc bounds = Some (Inr ctx)" "ctx_ok tc bounds ctx"
    using select_split_ok by blast
  have eq: "range_gist_double_sorting_split tc vec = Some (
      if ctx_first ctx then range_gist_fallback_split tc vec
      else case (ctx_left_upper ctx, ctx_right_lower ctx) of
          (Some left_upper, Some right_lower) \<Rightarrow>
            rbind (distribute tc vec left_upper right_lower [1..<length vec] no_split [])
              (place_common tc vec (common_left ctx))
        | _ \<Rightarrow> Inl Undefined_behavior)"
    unfolding range_gist_double_sorting_split_def Let_def keys_ok_upt [OF ok]
      bounds_def [symmetric] ctx(1) option.case sum.case ..
  show ?thesis
  proof (cases "ctx_first ctx")
    case True
    obtain v where "range_gist_fallback_split tc vec = Inr v" "good_split tc cb vec v"
      using fallback_split_correct [OF ok] by blast
    with True ctx(1) show ?thesis
      by (intro that [of v ctx]) (simp_all add: eq bounds_def)
  next
    case False
    then obtain lu rl where b: "ctx_left_upper ctx = Some lu" "ctx_right_lower ctx = Some rl"
      "fits tc bounds lu rl"
      using ctx(2) by (auto simp: ctx_ok_def split: option.splits)
    have "entry_fits tc vec lu rl i" if "i \<in> set [1..<length vec]" for i
      using b(3) that unfolding fits_def bounds_def entry_bounds_def keys_ok_upt [OF ok]
      by (auto simp: list_all_iff entry_fits_def split_beta)
    then have "\<forall>i \<in> set [1..<length vec]. gist_key tc cb (gkey (vec ! i)) \<and> entry_fits tc vec lu rl i"
      using keys_okD [OF ok] by blast
    moreover have "groups_fit tc vec lu rl no_split" "common_fit tc vec lu rl (map ce_index [])"
      by (simp_all add: groups_fit_def common_fit_def no_split_def)
    ultimately obtain v ces where v: "distribute tc vec lu rl [1..<length vec] no_split [] = Inr (v, ces)"
      "split_inv tc cb vec v" "groups_fit tc vec lu rl v" "common_fit tc vec lu rl (map ce_index ces)"
      "mset (spl_left v) + mset (spl_right v) + mset (map ce_index ces) = mset [1..<length vec]"
      using distribute_correct [OF split_inv_no_split, of vec lu rl "[]" "[1..<length vec]"]
      by (auto simp: no_split_def)
    have "set (map ce_index ces) \<subseteq> set [1..<length vec]"
      unfolding set_mset_mset [symmetric] v(5) [symmetric] by (simp del: mset_map)
    then have "\<forall>i \<in> set (map ce_index ces). gist_key tc cb (gkey (vec ! i))"
      using keys_okD [OF ok] by blast
    then obtain w where w: "place_common tc vec (common_left ctx) (v, ces) = Inr w"
      "split_inv tc cb vec w" "groups_fit tc vec lu rl w"
      "mset (spl_left w) + mset (spl_right w) =
        mset (spl_left v) + mset (spl_right v) + mset (map ce_index ces)"
      using place_common_correct [OF v(2-4)] by blast
    have "range_gist_double_sorting_split tc vec = Some (Inr w)"
      using False by (simp only: eq b(1,2) v(1) w(1) rbind_simps option.case prod.case if_False)
    moreover have "good_split tc cb vec w" using w(2,4) v(5) by (simp only: good_split_def)
    ultimately show ?thesis
      by (rule that [OF _ _ ctx(1) [unfolded bounds_def]]) (use b w(3) in \<open>simp add: bounds_def\<close>)
  qed
qed

end

end
