(* ===== verification/Gist_Picksplit.thy ===== *)
theory Gist_Picksplit
  imports Gist_Split
begin

text \<open>
  The choice of a split method and the properties of \<open>range_gist_picksplit\<close>: it returns,
  every entry goes to exactly one side, the key of a side is the least that covers the
  entries of that side, and which methods leave entries on both sides.
\<close>

section \<open>Classes and their counts\<close>

lemma class_bound: "0 \<le> get_gist_range_class r \<and> nat (get_gist_range_class r) < CLS_COUNT"
  by (simp add: get_gist_range_class_def Let_def cls_defs)

abbreviation entry_class :: "'a GISTENTRY list \<Rightarrow> nat \<Rightarrow> nat" where
  "entry_class vec i \<equiv> nat (get_gist_range_class (gkey (vec ! i)))"

lemma length_class_counts [simp]: "length (class_counts vec) = CLS_COUNT"
proof -
  have "length (foldl (\<lambda>cs i. let c = entry_class vec i in cs[c := cs ! c + 1]) cs is) = length cs"
    for cs :: "nat list" and "is"
    by (induction "is" arbitrary: cs) (simp_all add: Let_def)
  then show ?thesis by (simp add: class_counts_def)
qed

lemma class_counts_nth:
  assumes "c < CLS_COUNT"
  shows "class_counts vec ! c = length (filter (\<lambda>i. entry_class vec i = c) [1..<length vec])"
proof -
  have "length cs = CLS_COUNT \<Longrightarrow>
    foldl (\<lambda>cs i. let c = entry_class vec i in cs[c := cs ! c + 1]) cs is ! c =
    cs ! c + length (filter (\<lambda>i. entry_class vec i = c) is)" for cs :: "nat list" and "is"
    using assms by (induction "is" arbitrary: cs) (simp_all add: Let_def nth_list_update)
  then show ?thesis
    using assms by (simp add: class_counts_def)
qed

lemma class_counts_pos:
  "c < CLS_COUNT \<Longrightarrow>
   0 < class_counts vec ! c \<longleftrightarrow> (\<exists>i \<in> {1..<length vec}. entry_class vec i = c)"
  by (simp only: class_counts_nth length_greater_0_conv filter_empty_conv) auto

text \<open>The class counts of distinct classes add up.\<close>

lemma class_counts_sum:
  assumes "distinct cs" and "list_all (\<lambda>c. c < CLS_COUNT) cs"
  shows "sum_list (map ((!) (class_counts vec)) cs) =
    length (filter (\<lambda>i. entry_class vec i \<in> set cs) [1..<length vec])"
  using assms
proof (induction cs)
  case (Cons c cs)
  have "length (filter (\<lambda>i. entry_class vec i \<in> set (c # cs)) is) =
    length (filter (\<lambda>i. entry_class vec i = c) is) +
    length (filter (\<lambda>i. entry_class vec i \<in> set cs) is)" for "is"
    using Cons.prems(1) by (induction "is") auto
  then show ?case using Cons by (simp add: class_counts_nth)
qed simp

lemma biggest_class_spec:
  assumes "biggest_class cnt = (k, b, m)"
  shows "k = card {j. j < CLS_COUNT \<and> 0 < cnt ! j}"
    and "0 < k \<Longrightarrow> 0 \<le> b \<and> nat b < CLS_COUNT \<and> 0 < cnt ! nat b"
proof -
  define f where "f = (\<lambda>(k :: nat, b :: int, m) j. if 0 < cnt ! j then
      if m < cnt ! j then (k + 1, int j, cnt ! j) else (k + 1, b, m) else (k, b, m))"
  define inv where "inv n = (\<lambda>(k, b :: int, m :: nat). k = card {j. j < n \<and> 0 < cnt ! j} \<and>
    (k = 0 \<longrightarrow> m = 0) \<and> (0 < k \<longrightarrow> 0 \<le> b \<and> nat b < n \<and> 0 < cnt ! nat b))" for n :: nat
  have "inv n (foldl f (0, -1, 0) [0..<n])" for n
  proof (induction n)
    case (Suc n)
    obtain k b m where p: "foldl f (0, -1, 0) [0..<n] = (k, b, m)" by (metis prod_cases3)
    have "{j. j < Suc n \<and> 0 < cnt ! j} =
        (if 0 < cnt ! n then insert n {j. j < n \<and> 0 < cnt ! j} else {j. j < n \<and> 0 < cnt ! j})"
      by (auto simp: less_Suc_eq)
    then have card: "card {j. j < Suc n \<and> 0 < cnt ! j} =
        (if 0 < cnt ! n then 1 else 0) + card {j. j < n \<and> 0 < cnt ! j}"
      by simp
    have "foldl f (0, -1, 0) [0..<Suc n] = f (k, b, m) n" by (simp add: p)
    moreover have "inv n (k, b, m)" using Suc by (simp only: p)
    then have "inv (Suc n) (f (k, b, m) n)"
      unfolding inv_def f_def prod.case card
      by (cases "0 < cnt ! n"; cases "m < cnt ! n"; cases "k = 0") auto
    ultimately show ?case by (simp only:)
  qed (simp add: inv_def)
  moreover have "biggest_class cnt = foldl f (0, -1, 0) [0..<CLS_COUNT]"
    by (simp only: biggest_class_def f_def)
  ultimately have "inv CLS_COUNT (k, b, m)" using assms by (simp only:)
  then show "k = card {j. j < CLS_COUNT \<and> 0 < cnt ! j}"
    and "0 < k \<Longrightarrow> 0 \<le> b \<and> nat b < CLS_COUNT \<and> 0 < cnt ! nat b"
    by (simp_all only: inv_def prod.case)
qed

lemma set_right_nth:
  "c < length groups \<Longrightarrow>
   set_right cs groups ! c = (if c \<in> nat ` set cs then SPLIT_RIGHT else groups ! c)"
proof (induction cs arbitrary: groups)
  case (Cons d cs)
  then show ?case by (auto simp: set_right_def nth_list_update)
qed (simp add: set_right_def)

section \<open>A class split leaves entries on both sides\<close>

definition both_sides :: "'a GISTENTRY list \<Rightarrow> SplitLR list \<Rightarrow> bool" where
  "both_sides vec groups \<longleftrightarrow>
     (\<exists>i \<in> {1..<length vec}. groups ! entry_class vec i = SPLIT_LEFT) \<and>
     (\<exists>i \<in> {1..<length vec}. groups ! entry_class vec i = SPLIT_RIGHT)"

lemma both_sidesI:
  assumes "i \<in> {1..<length vec}" and "entry_class vec i \<in> nat ` set cs"
    and "j \<in> {1..<length vec}" and "entry_class vec j \<notin> nat ` set cs"
  shows "both_sides vec (set_right cs (replicate CLS_COUNT SPLIT_LEFT))"
proof -
  have n: "set_right cs (replicate CLS_COUNT SPLIT_LEFT) ! entry_class vec k =
      (if entry_class vec k \<in> nat ` set cs then SPLIT_RIGHT else SPLIT_LEFT)" for k
    using class_bound [of "gkey (vec ! k)"] by (simp add: set_right_nth)
  show ?thesis
    unfolding both_sides_def n using assms by (metis SplitLR.distinct(1))
qed

text \<open>Entries inside and outside a set of classes, from the counts.\<close>

lemma class_in:
  assumes "0 < class_counts vec ! c" and "c < CLS_COUNT"
  obtains i where "i \<in> {1..<length vec}" and "entry_class vec i = c"
  using assms class_counts_pos by blast

lemma class_in_some:
  assumes "distinct cs" and "list_all (\<lambda>c. c < CLS_COUNT) cs"
    and "0 < sum_list (map ((!) (class_counts vec)) cs)"
  obtains i where "i \<in> {1..<length vec}" and "entry_class vec i \<in> set cs"
  using assms(3) that unfolding class_counts_sum [OF assms(1,2)]
  by (auto simp: filter_empty_conv)

lemma class_not_in:
  assumes "distinct cs" and "list_all (\<lambda>c. c < CLS_COUNT) cs"
    and "sum_list (map ((!) (class_counts vec)) cs) < length vec - 1"
  obtains i where "i \<in> {1..<length vec}" and "entry_class vec i \<notin> set cs"
proof -
  have "filter (\<lambda>i. entry_class vec i \<in> set cs) [1..<length vec] \<noteq> [1..<length vec]"
    using assms(3) unfolding class_counts_sum [OF assms(1,2)] by (metis length_upt nat_less_le)
  then show ?thesis using that by (auto simp: filter_id_conv)
qed

lemma two_classes:
  assumes "biggest_class (class_counts vec) = (k, b, m)" and "1 < k"
  obtains i where "i \<in> {1..<length vec}" and "entry_class vec i \<noteq> c"
proof -
  let ?S = "{j. j < CLS_COUNT \<and> 0 < class_counts vec ! j}"
  have "1 < card ?S"
    using biggest_class_spec(1) [OF assms(1)] assms(2) by simp
  then have "\<not> ?S \<subseteq> {c}"
    using card_mono [of "{c}" ?S] by auto
  then obtain j where "j < CLS_COUNT" "0 < class_counts vec ! j" "j \<noteq> c" by blast
  then show ?thesis using that class_in by metis
qed

lemma choose_groups_cases:
  fixes right :: "int list \<Rightarrow> SplitLR list"
  defines "right \<equiv> \<lambda>cs. set_right cs (replicate CLS_COUNT SPLIT_LEFT)"
  obtains "choose_groups cnt (int t) b = right [0]" and "0 < cnt ! 0"
  | "choose_groups cnt (int t) b = right [0, 4, 8]"
    and "0 < cnt ! 0 + cnt ! 4 + cnt ! 8" and "cnt ! 0 + cnt ! 4 + cnt ! 8 < t"
  | "choose_groups cnt (int t) b = right [0, 1, 2, 3]"
    and "0 < cnt ! 0 + cnt ! 1 + cnt ! 2 + cnt ! 3" and "cnt ! 0 + cnt ! 1 + cnt ! 2 + cnt ! 3 < t"
  | "choose_groups cnt (int t) b = right [b]"
proof -
  define s1 s2 where "s1 = cnt ! 0 + cnt ! 4 + cnt ! 8"
    and "s2 = cnt ! 0 + cnt ! 1 + cnt ! 2 + cnt ! 3"
  define P where "P \<longleftrightarrow> 0 < int t - int s1 \<and> 0 < int s1 \<and>
    \<bar>int t - int s1 - int s1\<bar> \<le> \<bar>int t - int s2 - int s2\<bar>"
  have nums: "nat 0 = 0" "nat 1 = 1" "nat 2 = 2" "nat 3 = 3" "nat 4 = 4" "nat 8 = 8"
    "1 OR 2 = (3 :: int)"
    by simp_all
  have eq: "choose_groups cnt (int t) b =
    (if 0 < cnt ! 0 then right [0] else if P then right [0, 4, 8]
     else if 0 < int t - int s2 \<and> 0 < int s2 then right [0, 1, 2, 3] else right [b])"
    by (simp only: choose_groups_def cls_defs nums Let_def P_def s1_def s2_def right_def
        of_nat_add of_nat_0_less_iff)
  have "P \<Longrightarrow> 0 < s1 \<and> s1 < t" and "0 < int t - int s2 \<and> 0 < int s2 \<Longrightarrow> 0 < s2 \<and> s2 < t"
    by (simp_all add: P_def)
  then show ?thesis
    using that eq unfolding s1_def [symmetric] s2_def [symmetric] by metis
qed

lemma choose_groups_both_sides:
  assumes b: "biggest_class (class_counts vec) = (k, b, m)" and k: "1 < k"
  shows "both_sides vec (choose_groups (class_counts vec) (int (length vec - 1)) b)"
proof -
  let ?groups = "choose_groups (class_counts vec) (int (length vec - 1)) b"
  let ?right = "\<lambda>cs. set_right cs (replicate CLS_COUNT SPLIT_LEFT)"
  let ?sum = "\<lambda>cs. sum_list (map ((!) (class_counts vec)) cs)"
  have d: "distinct [0, 4, 8 :: nat]" "distinct [0, 1, 2, 3 :: nat]"
    "list_all (\<lambda>c. c < CLS_COUNT) [0, 4, 8]" "list_all (\<lambda>c. c < CLS_COUNT) [0, 1, 2, 3]"
    by (simp_all add: cls_defs)
  have bb: "0 \<le> b" "nat b < CLS_COUNT" "0 < class_counts vec ! nat b"
    using biggest_class_spec(2) [OF b] k by auto
  have sums: "?sum [0, 4, 8] = class_counts vec ! 0 + class_counts vec ! 4 + class_counts vec ! 8"
    "?sum [0, 1, 2, 3] = class_counts vec ! 0 + class_counts vec ! 1 + class_counts vec ! 2
      + class_counts vec ! 3"
    by simp_all
  consider (normal) "?groups = ?right [0]" "0 < class_counts vec ! 0"
    | (infinite) "?groups = ?right [0, 4, 8]" "0 < ?sum [0, 4, 8]" "?sum [0, 4, 8] < length vec - 1"
    | (empties) "?groups = ?right [0, 1, 2, 3]" "0 < ?sum [0, 1, 2, 3]"
        "?sum [0, 1, 2, 3] < length vec - 1"
    | (biggest) "?groups = ?right [b]"
    unfolding sums by (rule choose_groups_cases)
  then show ?thesis
  proof cases
    case normal
    then obtain i where "i \<in> {1..<length vec}" "entry_class vec i = 0"
      using class_in [of vec 0] by (auto simp: cls_defs)
    moreover obtain j where "j \<in> {1..<length vec}" "entry_class vec j \<noteq> 0"
      using two_classes [OF b k] .
    ultimately show ?thesis
      unfolding normal(1) by (intro both_sidesI [of i _ _ j]) simp_all
  next
    case infinite
    obtain i where "i \<in> {1..<length vec}" "entry_class vec i \<in> set [0, 4, 8]"
      using class_in_some [OF d(1,3) infinite(2)] .
    moreover obtain j where "j \<in> {1..<length vec}" "entry_class vec j \<notin> set [0, 4, 8]"
      using class_not_in [OF d(1,3) infinite(3)] .
    ultimately show ?thesis
      unfolding infinite(1) by (intro both_sidesI [of i _ _ j]) simp_all
  next
    case empties
    obtain i where "i \<in> {1..<length vec}" "entry_class vec i \<in> set [0, 1, 2, 3]"
      using class_in_some [OF d(2,4) empties(2)] .
    moreover obtain j where "j \<in> {1..<length vec}" "entry_class vec j \<notin> set [0, 1, 2, 3]"
      using class_not_in [OF d(2,4) empties(3)] .
    ultimately show ?thesis
      unfolding empties(1) by (intro both_sidesI [of i _ _ j]) simp_all
  next
    case biggest
    obtain i where "i \<in> {1..<length vec}" "entry_class vec i = nat b"
      using class_in [OF bb(3,2)] .
    moreover obtain j where "j \<in> {1..<length vec}" "entry_class vec j \<noteq> nat b"
      using two_classes [OF b k] .
    ultimately show ?thesis
      unfolding biggest by (intro both_sidesI [of i _ _ j]) simp_all
  qed
qed

section \<open>The split of a page\<close>

text \<open>All entries of a page in one of the two classes the double sorting split is used for.\<close>

definition uses_double_sorting :: "'a GISTENTRY list \<Rightarrow> bool" where
  "uses_double_sorting vec \<longleftrightarrow>
     list_all (\<lambda>ent. get_gist_range_class (gkey ent) = CLS_NORMAL) (tl vec) \<or>
     list_all (\<lambda>ent. get_gist_range_class (gkey ent) = CLS_CONTAIN_EMPTY) (tl vec)"

lemma list_all_tl:
  assumes "\<And>i. i \<in> {1..<length vec} \<Longrightarrow> P (vec ! i)"
  shows "list_all P (tl vec)"
  using assms [of "Suc _"] by (auto simp: list_all_length nth_tl)

lemma one_class:
  assumes "biggest_class (class_counts vec) = (1, b, m)" and "i \<in> {1..<length vec}"
  shows "get_gist_range_class (gkey (vec ! i)) = b"
proof -
  let ?S = "{j. j < CLS_COUNT \<and> 0 < class_counts vec ! j}"
  have "card ?S = 1" and b: "0 \<le> b" "nat b \<in> ?S"
    using biggest_class_spec [OF assms(1)] by auto
  moreover have "entry_class vec i \<in> ?S"
    using assms(2) class_bound [of "gkey (vec ! i)"] class_counts_pos [of "entry_class vec i" vec] by auto
  ultimately have "entry_class vec i = nat b"
    by (metis (no_types, lifting) card_1_singletonE singletonD)
  then show ?thesis
    using b(1) class_bound [of "gkey (vec ! i)"] eq_nat_nat_iff by blast
qed

lemma some_class:
  assumes "biggest_class (class_counts vec) = (k, b, m)" and "2 \<le> length vec"
  shows "0 < k"
proof -
  have "entry_class vec 1 \<in> {j. j < CLS_COUNT \<and> 0 < class_counts vec ! j}"
    using assms(2) class_bound [of "gkey (vec ! 1)"] class_counts_pos [of "entry_class vec 1" vec]
    by auto
  then show ?thesis
    unfolding biggest_class_spec(1) [OF assms(1)] by (auto simp: card_gt_0_iff)
qed

lemma class_base_normal:
  assumes "0 \<le> b" and "nat b < CLS_COUNT" and "b AND NOT CLS_CONTAIN_EMPTY = CLS_NORMAL"
  shows "b = CLS_NORMAL \<or> b = CLS_CONTAIN_EMPTY"
proof -
  have "b \<in> {0, 1, 2, 3, 4, 5, 6, 7, 8}" using assms(1,2) by (simp add: cls_defs) arith
  then show ?thesis using assms(3) by (auto simp: cls_defs)
qed

context range_type
begin

lemma picksplit_body_correct:
  assumes ok: "keys_ok tc cb vec"
  obtains v where "picksplit_body tc vec = Some (Inr v)" and "good_split tc cb vec v"
    and "length vec > 3 \<Longrightarrow> \<not> uses_double_sorting vec \<Longrightarrow> spl_left v \<noteq> [] \<and> spl_right v \<noteq> []"
proof -
  obtain k b m where big: "biggest_class (class_counts vec) = (k, b, m)" by (metis prod_cases3)
  have k: "0 < k" using some_class [OF big] ok by (simp add: keys_ok_def)
  note eq = picksplit_body_def [of tc vec, unfolded Let_def big prod.case]
  show ?thesis
  proof (cases "k = 1")
    case False
    obtain v where v: "range_gist_class_split tc vec (choose_groups (class_counts vec) (int (length vec - 1)) b)
        = Inr v" "good_split tc cb vec v"
      "set (spl_left v) = {i \<in> {1..<length vec}.
        choose_groups (class_counts vec) (int (length vec - 1)) b ! entry_class vec i = SPLIT_LEFT}"
      "set (spl_right v) = {i \<in> {1..<length vec}.
        choose_groups (class_counts vec) (int (length vec - 1)) b ! entry_class vec i = SPLIT_RIGHT}"
      using class_split_correct [OF ok] by blast
    have "both_sides vec (choose_groups (class_counts vec) (int (length vec - 1)) b)"
      using choose_groups_both_sides [OF big] k False by simp
    then have "set (spl_left v) \<noteq> {} \<and> set (spl_right v) \<noteq> {}"
      unfolding v(3,4) both_sides_def by blast
    then show ?thesis
      using False v(1,2) by (intro that [of v]) (auto simp: eq)
  next
    case one: True
    consider (double) "b AND NOT CLS_CONTAIN_EMPTY = CLS_NORMAL"
      | (single) up where "picksplit_body tc vec = Some (range_gist_single_sorting_split tc vec up)"
      | (fallback) "picksplit_body tc vec = Some (range_gist_fallback_split tc vec)"
      using one unfolding eq
      by (cases "b AND NOT CLS_CONTAIN_EMPTY = CLS_NORMAL"; cases "b AND NOT CLS_CONTAIN_EMPTY = CLS_LOWER_INF";
        cases "b AND NOT CLS_CONTAIN_EMPTY = CLS_UPPER_INF") auto
    then show ?thesis
    proof cases
      case double
      have "list_all (\<lambda>ent. get_gist_range_class (gkey ent) = b) (tl vec)"
        using one_class [of vec b m] big one by (intro list_all_tl) simp
      moreover have "b = CLS_NORMAL \<or> b = CLS_CONTAIN_EMPTY"
        using class_base_normal [OF _ _ double] biggest_class_spec(2) [OF big k] by blast
      ultimately have used: "uses_double_sorting vec"
        unfolding uses_double_sorting_def by blast
      obtain v where v: "range_gist_double_sorting_split tc vec = Some (Inr v)" "good_split tc cb vec v"
        using double_sorting_split_correct [OF ok] by blast
      have "picksplit_body tc vec = Some (Inr v)"
        unfolding eq using one double v(1) by simp
      then show ?thesis
        by (rule that [OF _ v(2)]) (use used in simp)
    next
      case single
      obtain v where "range_gist_single_sorting_split tc vec up = Inr v" "good_split tc cb vec v"
        "length vec > 2 \<Longrightarrow> spl_left v \<noteq> [] \<and> spl_right v \<noteq> []"
        using single_sorting_split_correct [OF ok] by blast
      then show ?thesis using single by (intro that [of v]) simp_all
    next
      case fallback
      obtain v where "range_gist_fallback_split tc vec = Inr v" "good_split tc cb vec v"
        "length vec > 3 \<Longrightarrow> spl_left v \<noteq> [] \<and> spl_right v \<noteq> []"
        using fallback_split_correct [OF ok] by blast
      then show ?thesis using fallback by (intro that [of v]) simp_all
    qed
  qed
qed

lemma picksplit_eq:
  assumes "typcache_found lk fx tc" and ok: "keys_ok tc cb vec"
  shows "range_gist_picksplit lk fx vec =
    map_option (\<lambda>r. rbind r (\<lambda>v. Inr (v, Some tc))) (picksplit_body tc vec)"
proof -
  have "1 \<in> set [1..<length vec]" using ok by (auto simp: keys_ok_def)
  then have "rangetypid (gkey (vec ! 1)) = type_id tc"
    using keys_okD [OF ok] gist_key_typid by blast
  then show ?thesis
    using assms by (auto simp: range_gist_picksplit_def keys_ok_def)
qed

end

section \<open>Properties\<close>

text \<open>The entries of a page whose entry at offset \<open>i\<close> is the \<open>i\<close>-th range given.\<close>

definition int4_page :: "Datum RangeType list \<Rightarrow> Datum GISTENTRY list" where
  "int4_page rs = map (\<lambda>r. \<lparr>gkey = r, gleaf = True\<rparr>) (empty_repr int4range_typcache # rs)"

text \<open>
  C36. \<open>range_gist_picksplit\<close> returns on every page: each offset goes to exactly one side,
  a side has a key exactly when it has entries, and the key is the least one that covers
  them.
\<close>

theorem range_gist_picksplit_partition:
  assumes "range_type tc cb" and "typcache_found lk fx tc" and "keys_ok tc cb vec"
  shows "\<exists>v. range_gist_picksplit lk fx vec = Some (Inr (v, Some tc)) \<and>
    mset (spl_left v) + mset (spl_right v) = mset [1..<length vec] \<and>
    side_inv tc cb vec (spl_left v) (spl_ldatum v) \<and>
    side_inv tc cb vec (spl_right v) (spl_rdatum v)"
proof -
  obtain v where "picksplit_body tc vec = Some (Inr v)" "good_split tc cb vec v"
    using range_type.picksplit_body_correct [OF assms(1,3)] by blast
  then show ?thesis
    using range_type.picksplit_eq [OF assms] by (auto simp: good_split_def split_inv_def)
qed

theorem range_gist_picksplit_partition_witness:
  "\<exists>v. range_gist_picksplit int4_lookup None
      (int4_page [int4_rng 1 10, empty_repr int4range_typcache, int4_rng 5 20]) =
      Some (Inr (v, Some int4range_typcache)) \<and>
    mset (spl_left v) + mset (spl_right v) = mset [1, 2, 3]"
proof -
  let ?vec = "int4_page [int4_rng 1 10, empty_repr int4range_typcache, int4_rng 5 20]"
  have "keys_ok int4range_typcache int4_cb ?vec" by code_simp
  moreover have "[1..<length ?vec] = [1, 2, 3]" by code_simp
  ultimately show ?thesis
    using range_gist_picksplit_partition [OF int4.range_type_axioms int4_lookup_found, of ?vec] by auto
qed

text \<open>
  C37. A page of three or more entries that are not all normal ranges, or all normal ranges
  over empty ones, is split into two sides that both have entries: the class split, the
  single sorting split and the fallback split make progress.
\<close>

theorem range_gist_picksplit_progress:
  assumes "range_type tc cb" and "typcache_found lk fx tc" and "keys_ok tc cb vec"
    and "3 < length vec" and "\<not> uses_double_sorting vec"
  shows "\<exists>v. range_gist_picksplit lk fx vec = Some (Inr (v, Some tc)) \<and>
    spl_left v \<noteq> [] \<and> spl_right v \<noteq> []"
proof -
  obtain v where "picksplit_body tc vec = Some (Inr v)" "spl_left v \<noteq> [] \<and> spl_right v \<noteq> []"
    using range_type.picksplit_body_correct [OF assms(1,3)] assms(4,5) by blast
  then show ?thesis
    using range_type.picksplit_eq [OF assms(1-3)] by auto
qed

theorem range_gist_picksplit_progress_witness:
  "\<exists>v. range_gist_picksplit int4_lookup None
      (int4_page [int4_rng 1 10, empty_repr int4range_typcache, int4_rng 5 20]) =
      Some (Inr (v, Some int4range_typcache)) \<and> spl_left v \<noteq> [] \<and> spl_right v \<noteq> []"
proof -
  let ?vec = "int4_page [int4_rng 1 10, empty_repr int4range_typcache, int4_rng 5 20]"
  have "keys_ok int4range_typcache int4_cb ?vec" by code_simp
  moreover have "3 < length ?vec" "\<not> uses_double_sorting ?vec" by code_simp+
  ultimately show ?thesis
    using range_gist_picksplit_progress [OF int4.range_type_axioms int4_lookup_found, of ?vec] by blast
qed

text \<open>
  The double sorting split makes no such promise. It counts how many of the entries that
  fit both groups are to go left as \<open>max_left_count - left_count\<close>, the number that is
  to go right; on three ranges with one upper bound all entries go left.
\<close>

lemma double_sorting_one_sided:
  "case range_gist_double_sorting_split int4range_typcache
      (int4_page [int4_rng 0 100, int4_rng 1 100, int4_rng 2 100]) of
     Some (Inr v) \<Rightarrow> spl_left v = [1, 2, 3] \<and> spl_right v = [] \<and> spl_rdatum v = None
   | _ \<Rightarrow> False"
  by code_simp

text \<open>
  C38. The double sorting split returns, and when its searches select group bounds, every
  entry on the left ends at or before the upper bound of the left group and every entry on
  the right starts at or after the lower bound of the right group, which the code asserts.
\<close>

theorem double_sorting_groups:
  assumes "range_type tc cb" and "keys_ok tc cb vec"
  shows "\<exists>v ctx. range_gist_double_sorting_split tc vec = Some (Inr v) \<and>
    select_split tc (entry_bounds tc vec) = Some (Inr ctx) \<and>
    (ctx_first ctx \<or>
     (\<exists>lu rl. ctx_left_upper ctx = Some lu \<and> ctx_right_lower ctx = Some rl \<and>
        groups_fit tc vec lu rl v))"
  using range_type.double_sorting_split_correct [OF assms] by metis

theorem double_sorting_groups_witness:
  "\<exists>v lu rl. range_gist_double_sorting_split int4range_typcache
      (int4_page [int4_rng 1 10, int4_rng 5 20, int4_rng 10 30]) = Some (Inr v) \<and>
    groups_fit int4range_typcache (int4_page [int4_rng 1 10, int4_rng 5 20, int4_rng 10 30]) lu rl v"
proof -
  let ?vec = "int4_page [int4_rng 1 10, int4_rng 5 20, int4_rng 10 30]"
  have "keys_ok int4range_typcache int4_cb ?vec" by code_simp
  moreover have "case select_split int4range_typcache (entry_bounds int4range_typcache ?vec) of
      Some (Inr ctx) \<Rightarrow> \<not> ctx_first ctx | _ \<Rightarrow> False"
    by code_simp
  ultimately show ?thesis
    using double_sorting_groups [OF int4.range_type_axioms, of ?vec] by auto
qed

end
