(* ===== verification/Range_Spgist.thy ===== *)
theory Range_Spgist
  imports Range_Gist Qsort
begin

text \<open>
  The SP-GiST operator class of range types (\<open>rangetypes_spgist.c\<close>): a quad tree over
  the plane of lower and upper bounds. An inner tuple has a centroid, a range, and four
  nodes, one per quadrant; at the root a fifth node holds the empty ranges. An inner tuple
  without a centroid has a node for the empty and one for the other ranges. An all-the-same
  tuple has nodes that may each hold any range.

  A search of such a tree returns exactly the ranges a sequential scan returns: the
  contract of an SP-GiST operator class is a locale, and the search is proved correct
  inside it.
\<close>

section \<open>Configuration, inner tuples and scan keys\<close>

definition ANYRANGEOID :: Oid where "ANYRANGEOID = 3831"
definition VOIDOID :: Oid where "VOIDOID = 2278"

record spgConfigOut =
  prefixType :: Oid
  labelType :: Oid
  canReturnData :: bool
  longValuesOK :: bool

definition spg_range_quad_config :: "spgConfigOut" where
  "spg_range_quad_config =
     \<lparr>prefixType = ANYRANGEOID, labelType = VOIDOID, canReturnData = True, longValuesOK = False\<rparr>"

text \<open>
  The data of an inner tuple: whether it is marked all-the-same, and its prefix. A scan
  key is a strategy and its argument.
\<close>

record 'a spg_inner =
  allTheSame :: bool
  prefixDatum :: "'a RangeType option"

type_synonym 'a scankey = "nat \<times> 'a query"

section \<open>Quadrants\<close>

definition getQuadrant ::
  "('a::zero) TypeCacheEntry \<Rightarrow> 'a RangeType \<Rightarrow> 'a RangeType \<Rightarrow> nat" where
  "getQuadrant typcache centroid tst =
     (case range_deserialize typcache centroid of (centroidLower, centroidUpper, centroidEmpty) \<Rightarrow>
      case range_deserialize typcache tst of (lower, upper, emp) \<Rightarrow>
        if emp then 5
        else if range_cmp_bounds typcache lower centroidLower \<ge> 0 then
          (if range_cmp_bounds typcache upper centroidUpper \<ge> 0 then 1 else 2)
        else
          (if range_cmp_bounds typcache upper centroidUpper \<ge> 0 then 4 else 3))"

text \<open>
  The result of \<open>choose\<close> is always a match: the node, which the core sets itself for an
  all-the-same tuple, the increment of the level and the datum to store.
\<close>

record 'a spgMatchNode =
  nodeN :: "nat option"
  levelAdd :: nat
  restDatum :: "'a RangeType"

definition spg_range_quad_choose ::
  "('a::zero) lookup \<Rightarrow> 'a fnx \<Rightarrow> 'a spg_inner \<Rightarrow> 'a RangeType \<Rightarrow> ('a spgMatchNode \<times> 'a fnx) res" where
  "spg_range_quad_choose lk fx tuple inRange =
     (if allTheSame tuple then Inr (\<lparr>nodeN = None, levelAdd = 0, restDatum = inRange\<rparr>, fx)
      else with_typcache lk fx (rangetypid inRange) (\<lambda>typcache.
        case prefixDatum tuple of
          None \<Rightarrow>
            Inr \<lparr>nodeN = Some (if RangeIsEmpty inRange then 0 else 1), levelAdd = 1,
                 restDatum = inRange\<rparr>
        | Some centroid \<Rightarrow>
            let quadrant = getQuadrant typcache centroid inRange in
            Inr \<lparr>nodeN = Some (quadrant - 1), levelAdd = 1, restDatum = inRange\<rparr>))"

section \<open>Splitting a leaf\<close>

definition bound_cmp :: "'a TypeCacheEntry \<Rightarrow> 'a RangeBound \<Rightarrow> 'a RangeBound \<Rightarrow> int" where
  "bound_cmp typcache ba bb = range_cmp_bounds typcache ba bb"

record 'a spgPickSplitOut =
  out_prefix :: "'a RangeType option"
  out_nNodes :: nat
  mapTuplesToNodes :: "nat list"
  leafTupleDatums :: "'a RangeType list"

text \<open>The bounds of the non-empty ranges, in the order of the datums.\<close>

definition nonempty_bounds ::
  "('a::zero) TypeCacheEntry \<Rightarrow> 'a RangeType list \<Rightarrow> ('a RangeBound \<times> 'a RangeBound) list" where
  "nonempty_bounds typcache datums =
     concat (map (\<lambda>r. case range_deserialize typcache r of (lower, upper, emp) \<Rightarrow>
       if emp then [] else [(lower, upper)]) datums)"

definition quad_picksplit ::
  "('a::zero) TypeCacheEntry \<Rightarrow> 'a RangeType list \<Rightarrow> nat \<Rightarrow> 'a spgPickSplitOut res" where
  "quad_picksplit typcache datums level =
     (let bounds = nonempty_bounds typcache datums;
          nonEmptyCount = length bounds
      in if nonEmptyCount = 0 then
           Inr \<lparr>out_prefix = None, out_nNodes = 2, mapTuplesToNodes = map (\<lambda>_. 0) datums,
                leafTupleDatums = datums\<rparr>
         else
           let lowerBounds = qsort_arg (bound_cmp typcache) (map fst bounds);
               upperBounds = qsort_arg (bound_cmp typcache) (map snd bounds)
           in rbind (range_serialize typcache (lowerBounds ! (nonEmptyCount div 2))
                       (upperBounds ! (nonEmptyCount div 2)) False) (\<lambda>centroid.
                Inr \<lparr>out_prefix = Some centroid,
                     out_nNodes = (if level = 0 then 5 else 4),
                     mapTuplesToNodes = map (\<lambda>r. getQuadrant typcache centroid r - 1) datums,
                     leafTupleDatums = datums\<rparr>))"

definition spg_range_quad_picksplit ::
  "('a::zero) lookup \<Rightarrow> 'a fnx \<Rightarrow> 'a RangeType list \<Rightarrow> nat \<Rightarrow> ('a spgPickSplitOut \<times> 'a fnx) res" where
  "spg_range_quad_picksplit lk fx datums level =
     (case datums of [] \<Rightarrow> Inl Undefined_behavior
      | datum # _ \<Rightarrow>
          with_typcache lk fx (rangetypid datum) (\<lambda>typcache. quad_picksplit typcache datums level))"

section \<open>Searching for adjacent bounds\<close>

definition adjacent_cmp_bounds ::
  "'a TypeCacheEntry \<Rightarrow> 'a RangeBound \<Rightarrow> 'a RangeBound \<Rightarrow> int res" where
  "adjacent_cmp_bounds typcache arg centroid =
     (let cmp = range_cmp_bounds typcache arg centroid in
      if rb_lower centroid then
        rbind (if cmp < 0 then rbind (bounds_adjacent typcache arg centroid) (\<lambda>adj. Inr (\<not> adj))
               else Inr False) (\<lambda>left. Inr (if left then -1 else 1))
      else Inr (if cmp \<le> 0 then -1 else 1))"

definition adjacent_inner_consistent ::
  "'a TypeCacheEntry \<Rightarrow> 'a RangeBound \<Rightarrow> 'a RangeBound \<Rightarrow> 'a RangeBound option \<Rightarrow> int res" where
  "adjacent_inner_consistent typcache arg centroid prev =
     rbind (case prev of
              None \<Rightarrow> Inr False
            | Some p \<Rightarrow>
                rbind (adjacent_cmp_bounds typcache arg p) (\<lambda>prevcmp.
                  let cmp = range_cmp_bounds typcache centroid p in
                  Inr (prevcmp < 0 \<and> cmp \<ge> 0 \<or> prevcmp > 0 \<and> cmp < 0))) (\<lambda>disagree.
       if disagree then Inr 0 else adjacent_cmp_bounds typcache arg centroid)"

section \<open>Inner tuples in a search\<close>

text \<open>A set of nodes is the C bit mask: \<open>mask [a, b]\<close> is \<open>(1 << a) | (1 << b)\<close>.\<close>

fun mask :: "nat list \<Rightarrow> int" where
  "mask [] = 0"
| "mask (n # ns) = push_bit n 1 OR mask ns"

text \<open>A tuple without a centroid: one scan key, and the loop over the scan keys.\<close>

definition noprefix_key :: "'a scankey \<Rightarrow> int \<Rightarrow> int res" where
  "noprefix_key key which =
     (case key of (strategy, argument) \<Rightarrow>
      rbind (if strategy \<noteq> RANGESTRAT_CONTAINS_ELEM
             then rbind (DatumGetRangeTypeP argument) (\<lambda>r. Inr (RangeIsEmpty r))
             else Inr False) (\<lambda>emp.
      if strategy \<in> {RANGESTRAT_BEFORE, RANGESTRAT_OVERLEFT, RANGESTRAT_OVERLAPS,
           RANGESTRAT_OVERRIGHT, RANGESTRAT_AFTER, RANGESTRAT_ADJACENT}
      then Inr (if emp then 0 else which AND mask [2])
      else if strategy = RANGESTRAT_CONTAINS then Inr (if \<not> emp then which AND mask [2] else which)
      else if strategy = RANGESTRAT_CONTAINED_BY then Inr (if emp then which AND mask [1] else which)
      else if strategy = RANGESTRAT_CONTAINS_ELEM then Inr (which AND mask [2])
      else if strategy = RANGESTRAT_EQ
      then Inr (if emp then which AND mask [1] else which AND mask [2])
      else Inl (Unrecognized_strategy strategy)))"

fun noprefix_loop :: "'a scankey list \<Rightarrow> int \<Rightarrow> int res" where
  "noprefix_loop [] which = Inr which"
| "noprefix_loop (key # keys) which =
     rbind (noprefix_key key which) (\<lambda>which.
       if which = 0 then Inr which else noprefix_loop keys which)"

text \<open>
  A tuple with a centroid: the restrictions a strategy puts on the bounds, and the nodes
  it rules out directly.
\<close>

record 'a bounding_box =
  minLower :: "'a RangeBound option"
  maxLower :: "'a RangeBound option"
  minUpper :: "'a RangeBound option"
  maxUpper :: "'a RangeBound option"
  box_inclusive :: bool
  strictEmpty :: bool

definition no_box :: "'a bounding_box" where
  "no_box = \<lparr>minLower = None, maxLower = None, minUpper = None, maxUpper = None,
     box_inclusive = True, strictEmpty = True\<rparr>"

definition elem_bounds :: "'a \<Rightarrow> 'a RangeBound \<times> 'a RangeBound" where
  "elem_bounds v =
     (\<lparr>rb_val = v, rb_infinite = False, rb_inclusive = True, rb_lower = True\<rparr>,
      \<lparr>rb_val = v, rb_infinite = False, rb_inclusive = True, rb_lower = False\<rparr>)"

definition adjacent_nodes ::
  "('a::zero) TypeCacheEntry \<Rightarrow> 'a RangeType \<Rightarrow> 'a RangeType option \<Rightarrow> 'a RangeBound \<Rightarrow> 'a RangeBound
     \<Rightarrow> int res" where
  "adjacent_nodes typcache centroid traversalValue lower upper =
     (case range_deserialize typcache centroid of (centroidLower, centroidUpper, centroidEmpty) \<Rightarrow>
      let prev = map_option (range_deserialize typcache) traversalValue in
      rbind (adjacent_inner_consistent typcache lower centroidUpper
               (map_option (\<lambda>(prevLower, prevUpper, prevEmpty). prevUpper) prev)) (\<lambda>cmp.
      let which1 = (if cmp > 0 then mask [1, 4] else if cmp < 0 then mask [2, 3] else 0) in
      rbind (adjacent_inner_consistent typcache upper centroidLower
               (map_option (\<lambda>(prevLower, prevUpper, prevEmpty). prevLower) prev)) (\<lambda>cmp.
      let which2 = (if cmp > 0 then mask [1, 2] else if cmp < 0 then mask [3, 4] else 0) in
      Inr (which1 OR which2))))"

text \<open>
  The \<open>switch\<close> over the strategies: the box, the nodes that are left and whether the
  centroid is to be passed down.
\<close>

definition prefix_switch ::
  "('a::zero) TypeCacheEntry \<Rightarrow> 'a RangeType \<Rightarrow> 'a RangeType option \<Rightarrow> nat \<Rightarrow> 'a RangeType option
     \<Rightarrow> 'a RangeBound \<Rightarrow> 'a RangeBound \<Rightarrow> bool \<Rightarrow> int \<Rightarrow> ('a bounding_box \<times> int \<times> bool) res" where
  "prefix_switch typcache centroid traversalValue strategy r lower upper emp which =
     (if strategy = RANGESTRAT_BEFORE then
        Inr (no_box\<lparr>maxUpper := Some lower, box_inclusive := False\<rparr>, which, False)
      else if strategy = RANGESTRAT_OVERLEFT then Inr (no_box\<lparr>maxUpper := Some upper\<rparr>, which, False)
      else if strategy = RANGESTRAT_OVERLAPS then
        Inr (no_box\<lparr>maxLower := Some upper, minUpper := Some lower\<rparr>, which, False)
      else if strategy = RANGESTRAT_OVERRIGHT then Inr (no_box\<lparr>minLower := Some lower\<rparr>, which, False)
      else if strategy = RANGESTRAT_AFTER then
        Inr (no_box\<lparr>minLower := Some upper, box_inclusive := False\<rparr>, which, False)
      else if strategy = RANGESTRAT_ADJACENT then
        (if emp then Inr (no_box, which, False)
         else rbind (adjacent_nodes typcache centroid traversalValue lower upper) (\<lambda>which12.
           Inr (no_box, which AND which12, True)))
      else if strategy = RANGESTRAT_CONTAINS then
        (if \<not> emp then
           Inr (no_box\<lparr>strictEmpty := False, maxLower := Some lower, minUpper := Some upper\<rparr>,
             which AND mask [1, 2, 3, 4], False)
         else Inr (no_box\<lparr>strictEmpty := False\<rparr>, which, False))
      else if strategy = RANGESTRAT_CONTAINED_BY then
        (if emp then Inr (no_box\<lparr>strictEmpty := False\<rparr>, which AND mask [5], False)
         else Inr (no_box\<lparr>strictEmpty := False, minLower := Some lower, maxUpper := Some upper\<rparr>,
           which, False))
      else if strategy = RANGESTRAT_EQ then
        (case r of None \<Rightarrow> Inl Undefined_behavior
         | Some r \<Rightarrow> Inr (no_box\<lparr>strictEmpty := False\<rparr>,
             which AND push_bit (getQuadrant typcache centroid r) 1, False))
      else Inl (Unrecognized_strategy strategy))"

text \<open>The quadrants that meet the box.\<close>

definition box_nodes ::
  "'a TypeCacheEntry \<Rightarrow> 'a RangeBound \<Rightarrow> 'a RangeBound \<Rightarrow> 'a bounding_box \<Rightarrow> int \<Rightarrow> int" where
  "box_nodes typcache centroidLower centroidUpper box which =
     (let which = (case minLower box of None \<Rightarrow> which
            | Some b \<Rightarrow> if range_cmp_bounds typcache centroidLower b \<le> 0
                        then which AND mask [1, 2, 5] else which);
          which = (case maxLower box of None \<Rightarrow> which
            | Some b \<Rightarrow> let cmp = range_cmp_bounds typcache centroidLower b in
                        if cmp > 0 \<or> \<not> box_inclusive box \<and> cmp = 0
                        then which AND mask [3, 4, 5] else which);
          which = (case minUpper box of None \<Rightarrow> which
            | Some b \<Rightarrow> if range_cmp_bounds typcache centroidUpper b \<le> 0
                        then which AND mask [1, 4, 5] else which)
      in case maxUpper box of None \<Rightarrow> which
         | Some b \<Rightarrow> let cmp = range_cmp_bounds typcache centroidUpper b in
                     if cmp > 0 \<or> \<not> box_inclusive box \<and> cmp = 0
                     then which AND mask [2, 3, 5] else which)"

text \<open>
  The bounds of a scan key's argument: an element stands for the range that contains it
  only, and its strategy is that of containment.
\<close>

definition key_bounds ::
  "('a::zero) TypeCacheEntry \<Rightarrow> 'a scankey
     \<Rightarrow> (nat \<times> 'a RangeType option \<times> 'a RangeBound \<times> 'a RangeBound \<times> bool) res" where
  "key_bounds typcache key =
     (case key of (strategy, argument) \<Rightarrow>
      if strategy = RANGESTRAT_CONTAINS_ELEM then
        rbind (DatumGetElem argument) (\<lambda>v.
          case elem_bounds v of (lower, upper) \<Rightarrow>
            Inr (RANGESTRAT_CONTAINS, None, lower, upper, False))
      else
        rbind (DatumGetRangeTypeP argument) (\<lambda>r.
          case range_deserialize typcache r of (lower, upper, emp) \<Rightarrow>
            Inr (strategy, Some r, lower, upper, emp)))"

text \<open>
  One scan key. The result is the nodes that are left, whether the centroid is to be
  passed down, and whether the loop over the scan keys ends here.
\<close>

definition prefix_key ::
  "('a::zero) TypeCacheEntry \<Rightarrow> 'a RangeType \<Rightarrow> 'a RangeType option \<Rightarrow> 'a scankey \<Rightarrow> int \<Rightarrow> bool
     \<Rightarrow> (int \<times> bool \<times> bool) res" where
  "prefix_key typcache centroid traversalValue key which needPrevious =
     (case range_deserialize typcache centroid of (centroidLower, centroidUpper, centroidEmpty) \<Rightarrow>
      rbind (key_bounds typcache key) (\<lambda>(strategy, r, lower, upper, emp).
      rbind (prefix_switch typcache centroid traversalValue strategy r lower upper emp which)
        (\<lambda>(box, which, need).
      if strictEmpty box \<and> emp then Inr (0, needPrevious \<or> need, True)
      else
        let which = (if strictEmpty box then which AND mask [1, 2, 3, 4] else which);
            which = box_nodes typcache centroidLower centroidUpper box which
        in Inr (which, needPrevious \<or> need, which = 0))))"

fun prefix_loop ::
  "('a::zero) TypeCacheEntry \<Rightarrow> 'a RangeType \<Rightarrow> 'a RangeType option \<Rightarrow> 'a scankey list \<Rightarrow> int \<Rightarrow> bool
     \<Rightarrow> (int \<times> bool) res" where
  "prefix_loop typcache centroid traversalValue [] which needPrevious = Inr (which, needPrevious)"
| "prefix_loop typcache centroid traversalValue (key # keys) which needPrevious =
     rbind (prefix_key typcache centroid traversalValue key which needPrevious)
       (\<lambda>(which, needPrevious, stop).
         if stop then Inr (which, needPrevious)
         else prefix_loop typcache centroid traversalValue keys which needPrevious)"

text \<open>
  The nodes to visit, each with the value passed down to it. Without a prefix the code
  never sets \<open>needPrevious\<close>.
\<close>

definition visit_nodes ::
  "'a RangeType option \<Rightarrow> nat \<Rightarrow> int \<Rightarrow> bool \<Rightarrow> (nat \<times> 'a RangeType option) list" where
  "visit_nodes prefix nNodes which needPrevious =
     map (\<lambda>i. (i - 1, if needPrevious then prefix else None))
       (filter (\<lambda>i. which AND push_bit i 1 \<noteq> 0) [1..<nNodes + 1])"

definition spg_range_quad_inner_consistent ::
  "('a::zero) lookup \<Rightarrow> 'a fnx \<Rightarrow> 'a scankey list \<Rightarrow> 'a RangeType option \<Rightarrow> 'a spg_inner \<Rightarrow> nat
     \<Rightarrow> ((nat \<times> 'a RangeType option) list \<times> 'a fnx) res" where
  "spg_range_quad_inner_consistent lk fx scankeys traversalValue tuple nNodes =
     (if allTheSame tuple then Inr (map (\<lambda>i. (i, None)) [0..<nNodes], fx)
      else case prefixDatum tuple of
          None \<Rightarrow>
            rbind (noprefix_loop scankeys (mask [1, 2])) (\<lambda>which.
              Inr (visit_nodes None nNodes which False, fx))
        | Some centroid \<Rightarrow>
            with_typcache lk fx (rangetypid centroid) (\<lambda>typcache.
              rbind (prefix_loop typcache centroid traversalValue scankeys (mask [1, 2, 3, 4, 5]) False)
                (\<lambda>(which, needPrevious).
                  Inr (visit_nodes (Some centroid) nNodes which needPrevious))))"

section \<open>Leaf tuples in a search\<close>

definition leaf_key ::
  "('a::zero) TypeCacheEntry \<Rightarrow> 'a RangeType \<Rightarrow> 'a scankey \<Rightarrow> bool res" where
  "leaf_key typcache leafRange key =
     (case key of (strategy, keyDatum) \<Rightarrow>
      let on_range = (\<lambda>test. rbind (DatumGetRangeTypeP keyDatum) (test typcache leafRange)) in
      if strategy = RANGESTRAT_BEFORE then on_range range_before_internal
      else if strategy = RANGESTRAT_OVERLEFT then on_range range_overleft_internal
      else if strategy = RANGESTRAT_OVERLAPS then on_range range_overlaps_internal
      else if strategy = RANGESTRAT_OVERRIGHT then on_range range_overright_internal
      else if strategy = RANGESTRAT_AFTER then on_range range_after_internal
      else if strategy = RANGESTRAT_ADJACENT then on_range range_adjacent_internal
      else if strategy = RANGESTRAT_CONTAINS then on_range range_contains_internal
      else if strategy = RANGESTRAT_CONTAINED_BY then on_range range_contained_by_internal
      else if strategy = RANGESTRAT_CONTAINS_ELEM then
        rbind (DatumGetElem keyDatum) (\<lambda>v. Inr (range_contains_elem_internal typcache leafRange v))
      else if strategy = RANGESTRAT_EQ then on_range range_eq_internal
      else Inl (Unrecognized_strategy strategy))"

fun leaf_loop ::
  "('a::zero) TypeCacheEntry \<Rightarrow> 'a RangeType \<Rightarrow> 'a scankey list \<Rightarrow> bool res" where
  "leaf_loop typcache leafRange [] = Inr True"
| "leaf_loop typcache leafRange (key # keys) =
     rbind (leaf_key typcache leafRange key) (\<lambda>r.
       if \<not> r then Inr False else leaf_loop typcache leafRange keys)"

text \<open>The result is the answer, the \<open>recheck\<close> flag and the leaf value.\<close>

definition spg_range_quad_leaf_consistent ::
  "('a::zero) lookup \<Rightarrow> 'a fnx \<Rightarrow> 'a scankey list \<Rightarrow> 'a RangeType
     \<Rightarrow> ((bool \<times> bool \<times> 'a RangeType) \<times> 'a fnx) res" where
  "spg_range_quad_leaf_consistent lk fx scankeys leafRange =
     with_typcache lk fx (rangetypid leafRange) (\<lambda>typcache.
       rbind (leaf_loop typcache leafRange scankeys) (\<lambda>r. Inr (r, False, leafRange)))"

section \<open>Searching an SP-GiST tree\<close>

text \<open>
  A tree as the access method keeps it: leaf tuples, and inner tuples with a node for
  every child. A search asks an inner tuple which nodes to visit and what to pass down to
  each.
\<close>

datatype ('n, 'k) spg_tree = SLeaf "'k list" | SNode 'n "('n, 'k) spg_tree list"

fun spg_leaves :: "('n, 'k) spg_tree \<Rightarrow> 'k list" where
  "spg_leaves (SLeaf ks) = ks"
| "spg_leaves (SNode n ts) = concat (map spg_leaves ts)"

function spg_search ::
  "('t option \<Rightarrow> 'n \<Rightarrow> nat \<Rightarrow> (nat \<times> 't option) list res) \<Rightarrow> ('k \<Rightarrow> bool res) \<Rightarrow> 't option
     \<Rightarrow> ('n, 'k) spg_tree \<Rightarrow> 'k list res" where
  "spg_search inner leaf tv (SLeaf ks) = filter_res leaf ks"
| "spg_search inner leaf tv (SNode n ts) =
     rbind (inner tv n (length ts)) (\<lambda>outs.
       concat_res (\<lambda>(i, t). case map_of outs i of
           None \<Rightarrow> Inr []
         | Some tv' \<Rightarrow> spg_search inner leaf tv' t) (zip [0..<length ts] ts))"
  by pat_completeness auto
termination
proof (relation "measure (\<lambda>(inner, leaf, tv, t). size t)", goal_cases)
  case (2 inner leaf tv n ts outs x i t y)
  then have "t \<in> set ts" by (auto dest: set_zip_rightD)
  then show ?case by (induction ts) auto
qed simp

text \<open>
  The invariant of a tree: every key below node \<open>i\<close> of an inner tuple belongs there, and
  so does the label of an inner tuple directly below it.
\<close>

fun root_nested :: "('n \<Rightarrow> bool) \<Rightarrow> ('n, 'k) spg_tree \<Rightarrow> bool" where
  "root_nested P (SLeaf ks) \<longleftrightarrow> True"
| "root_nested P (SNode n ts) \<longleftrightarrow> P n"

fun spg_tree_ok ::
  "('k \<Rightarrow> bool) \<Rightarrow> ('n \<Rightarrow> nat \<Rightarrow> bool) \<Rightarrow> ('n \<Rightarrow> nat \<Rightarrow> 'k \<Rightarrow> bool) \<Rightarrow> ('n \<Rightarrow> nat \<Rightarrow> 'n \<Rightarrow> bool)
     \<Rightarrow> ('n, 'k) spg_tree \<Rightarrow> bool" where
  "spg_tree_ok key_ok node_ok belongs nested (SLeaf ks) \<longleftrightarrow> list_all key_ok ks"
| "spg_tree_ok key_ok node_ok belongs nested (SNode n ts) \<longleftrightarrow>
     node_ok n (length ts) \<and>
     list_all (spg_tree_ok key_ok node_ok belongs nested) ts \<and>
     list_all (\<lambda>(i, t). list_all (belongs n i) (spg_leaves t) \<and> root_nested (nested n i) t)
       (zip [0..<length ts] ts)"

text \<open>
  What the access method asks of an operator class. \<open>passes n v\<close>: an inner tuple \<open>n\<close> may
  pass the value \<open>v\<close> down. A tuple that is asked returns an answer, and when a key below
  its node \<open>i\<close> satisfies the query, the answer has node \<open>i\<close>, provided the value that was
  passed down comes from the tuple above.
\<close>

locale spg_opclass =
  fixes key_ok :: "'k \<Rightarrow> bool"
    and node_ok :: "'n \<Rightarrow> nat \<Rightarrow> bool"
    and belongs :: "'n \<Rightarrow> nat \<Rightarrow> 'k \<Rightarrow> bool"
    and nested :: "'n \<Rightarrow> nat \<Rightarrow> 'n \<Rightarrow> bool"
    and passes :: "'n \<Rightarrow> 't \<Rightarrow> bool"
    and query_valid :: "'q \<Rightarrow> bool"
    and inner :: "'q \<Rightarrow> 't option \<Rightarrow> 'n \<Rightarrow> nat \<Rightarrow> (nat \<times> 't option) list res"
    and leaf :: "'q \<Rightarrow> 'k \<Rightarrow> bool res"
  assumes leaf_defined: "query_valid q \<Longrightarrow> key_ok k \<Longrightarrow> \<exists>b. leaf q k = Inr b"
    and inner_defined: "query_valid q \<Longrightarrow> node_ok n len \<Longrightarrow>
      (\<And>v. tv = Some v \<Longrightarrow> \<exists>m l. node_ok m l \<and> passes m v) \<Longrightarrow>
      \<exists>outs. inner q tv n len = Inr outs \<and>
        (\<forall>(i, tv') \<in> set outs. \<forall>v. tv' = Some v \<longrightarrow> passes n v)"
    and sound: "query_valid q \<Longrightarrow> node_ok n len \<Longrightarrow> key_ok k \<Longrightarrow> i < len \<Longrightarrow> belongs n i k \<Longrightarrow>
      (\<And>v. tv = Some v \<Longrightarrow> \<exists>m l j. node_ok m l \<and> passes m v \<and> belongs m j k \<and> nested m j n) \<Longrightarrow>
      leaf q k = Inr True \<Longrightarrow> inner q tv n len = Inr outs \<Longrightarrow> i \<in> fst ` set outs"
begin

abbreviation stree_ok :: "('n, 'k) spg_tree \<Rightarrow> bool" where
  "stree_ok \<equiv> spg_tree_ok key_ok node_ok belongs nested"

text \<open>What a value that is passed down says of the tree below.\<close>

definition passed :: "'t option \<Rightarrow> ('n, 'k) spg_tree \<Rightarrow> bool" where
  "passed tv t \<longleftrightarrow> (\<forall>v. tv = Some v \<longrightarrow> (\<exists>m l j. node_ok m l \<and> passes m v \<and>
     list_all (belongs m j) (spg_leaves t) \<and> root_nested (nested m j) t))"

lemma sleaves_ok: "stree_ok t \<Longrightarrow> k \<in> set (spg_leaves t) \<Longrightarrow> key_ok k"
  by (induction t rule: spg_leaves.induct) (auto simp: list_all_iff)

lemma sfilter_res:
  "query_valid q \<Longrightarrow> list_all key_ok ks \<Longrightarrow>
   filter_res (leaf q) ks = Inr (filter (\<lambda>k. leaf q k = Inr True) ks)"
proof (induction ks)
  case (Cons k ks)
  then show ?case using leaf_defined [of q k] by auto
qed simp

text \<open>A search of a well-formed tree returns what a scan of its leaf keys returns.\<close>

lemma ssearch_exact:
  assumes query: "query_valid q"
  shows "stree_ok t \<Longrightarrow> passed tv t \<Longrightarrow>
    spg_search (inner q) (leaf q) tv t = Inr (filter (\<lambda>k. leaf q k = Inr True) (spg_leaves t))"
proof (induction t arbitrary: tv)
  case (SLeaf ks)
  then show ?case by (simp add: sfilter_res [OF query])
next
  case (SNode n ts)
  let ?match = "filter (\<lambda>k. leaf q k = Inr True)"
  have ok: "node_ok n (length ts)" "\<And>t. t \<in> set ts \<Longrightarrow> stree_ok t"
    and child: "\<And>i t. (i, t) \<in> set (zip [0..<length ts] ts) \<Longrightarrow>
      list_all (belongs n i) (spg_leaves t) \<and> root_nested (nested n i) t"
    using SNode.prems(1) by (auto simp: list_all_iff)
  obtain outs where outs: "inner q tv n (length ts) = Inr outs"
    and pass: "\<forall>(i, tv') \<in> set outs. \<forall>v. tv' = Some v \<longrightarrow> passes n v"
    using inner_defined [OF query ok(1), of tv] SNode.prems(2) by (auto simp: passed_def)
  have visit: "(case map_of outs i of None \<Rightarrow> Inr []
      | Some tv' \<Rightarrow> spg_search (inner q) (leaf q) tv' t) = Inr (?match (spg_leaves t))"
    if it: "(i, t) \<in> set (zip [0..<length ts] ts)" for i t
  proof (cases "map_of outs i")
    case None
    have t: "t \<in> set ts" and i: "i < length ts"
      using set_zip_rightD [OF it] set_zip_leftD [OF it] by auto
    have "leaf q k \<noteq> Inr True" if k: "k \<in> set (spg_leaves t)" for k
    proof
      assume "leaf q k = Inr True"
      moreover have "belongs n i k" using child [OF it] k by (simp add: list_all_iff)
      moreover have "\<exists>m l j. node_ok m l \<and> passes m v \<and> belongs m j k \<and> nested m j n"
        if "tv = Some v" for v
        using SNode.prems(2) that k t by (fastforce simp: passed_def list_all_iff)
      ultimately have "i \<in> fst ` set outs"
        using sound [OF query ok(1) sleaves_ok [OF ok(2) [OF t] k] i] outs by blast
      with None show False by (simp add: map_of_eq_None_iff)
    qed
    with None show ?thesis by (auto simp: empty_filter_conv)
  next
    case (Some tv')
    have t: "t \<in> set ts" using set_zip_rightD [OF it] .
    have "\<forall>v. tv' = Some v \<longrightarrow> passes n v"
      using pass map_of_SomeD [OF Some] by blast
    then have "passed tv' t"
      using child [OF it] ok(1) by (auto simp: passed_def)
    with Some SNode.IH [OF t ok(2) [OF t]] show ?thesis by simp
  qed
  have "concat_res (\<lambda>(i, t). case map_of outs i of None \<Rightarrow> Inr []
      | Some tv' \<Rightarrow> spg_search (inner q) (leaf q) tv' t) zs =
    Inr (?match (concat (map (\<lambda>(i, t). spg_leaves t) zs)))"
    if "set zs \<subseteq> set (zip [0..<length ts] ts)" for zs
    using that by (induction zs) (auto simp: visit)
  moreover have "map (\<lambda>(i, t). spg_leaves t) (zip [0..<length ts] ts) = map spg_leaves ts"
    by (rule nth_equalityI) simp_all
  ultimately show ?case by (simp add: outs)
qed

end

section \<open>Quadrants and node masks\<close>

text \<open>A centroid: a stored non-empty range in canonical form.\<close>

definition centroid_ok ::
  "('a::zero) TypeCacheEntry \<Rightarrow> ('a RangeBound \<Rightarrow> bool) \<Rightarrow> 'a RangeType \<Rightarrow> bool" where
  "centroid_ok tc cb c \<longleftrightarrow> range_ok tc cb c \<and> \<not> RangeIsEmpty c"

text \<open>The scan keys of a search: each an operator of the class with a query of its type.\<close>

abbreviation scankeys_ok ::
  "('a::zero) TypeCacheEntry \<Rightarrow> ('a RangeBound \<Rightarrow> bool) \<Rightarrow> 'a scankey list \<Rightarrow> bool" where
  "scankeys_ok tc cb keys \<equiv> list_all (\<lambda>(strategy, query). query_ok tc cb strategy query) keys"

lemma bit_mask [simp]: "bit (mask ns) n \<longleftrightarrow> n \<in> set ns"
  by (induction ns) (auto simp: bit_simps)

lemma bit_push_one [simp]: "bit (push_bit m (1 :: int)) n \<longleftrightarrow> n = m"
  by (auto simp: bit_simps)

lemma and_push_bit_iff: "which AND push_bit n 1 \<noteq> 0 \<longleftrightarrow> bit (which :: int) n"
  by (simp add: and_exp_eq_0_iff_not_bit push_bit_eq_mult)

lemma bit_not_zero: "bit (which :: int) n \<Longrightarrow> which \<noteq> 0"
  by auto

declare mask.simps [simp del]

lemma visit_nodes_fst:
  "fst ` set (visit_nodes prefix nNodes which need) = {i. i < nNodes \<and> bit which (i + 1)}"
    (is "?L = ?R")
proof -
  have "?L = (\<lambda>i. i - 1) ` {i \<in> {1..nNodes}. bit which i}"
    unfolding visit_nodes_def and_push_bit_iff set_map image_image fst_conv by auto
  also have "\<dots> = ?R"
  proof (intro equalityI subsetI)
    fix i assume "i \<in> ?R"
    then show "i \<in> (\<lambda>i. i - 1) ` {i \<in> {1..nNodes}. bit which i}"
      by (intro image_eqI [of _ _ "i + 1"]) simp_all
  next
    fix i assume "i \<in> (\<lambda>i. i - 1) ` {i \<in> {1..nNodes}. bit which i}"
    then obtain j where "i = j - 1" "1 \<le> j" "j \<le> nNodes" "bit which j" by auto
    then show "i \<in> ?R" by simp
  qed
  finally show ?thesis .
qed

lemma visit_nodes_snd:
  "(i, tv) \<in> set (visit_nodes prefix nNodes which need) \<Longrightarrow> tv = Some v \<Longrightarrow> need \<and> prefix = Some v"
  by (auto simp: visit_nodes_def split: if_splits)

context range_type
begin

lemma quadrant_nonempty:
  assumes "range_deserialize tc c = (cl, cu, ce)" and "range_deserialize tc r = (l, u, False)"
  shows "getQuadrant tc c r =
    (if cle (range_cmp_bounds tc) cl l then if cle (range_cmp_bounds tc) cu u then 1 else 2
     else if cle (range_cmp_bounds tc) cu u then 4 else 3)"
  using assms by (simp add: getQuadrant_def bnd.cmp_signs)

lemma quadrant_empty: "getQuadrant tc c r = 5 \<longleftrightarrow> RangeIsEmpty r"
proof -
  obtain cl cu ce where c: "range_deserialize tc c = (cl, cu, ce)" by (metis prod_cases3)
  obtain l u e where r: "range_deserialize tc r = (l, u, e)" by (metis prod_cases3)
  show ?thesis
    using deserialize_fields(3) [OF r] by (auto simp: getQuadrant_def c r)
qed

lemma quadrant_range: "1 \<le> getQuadrant tc c r \<and> getQuadrant tc c r \<le> 5"
  by (simp add: getQuadrant_def split: prod.splits)

text \<open>The bounds of a range satisfy the restrictions of a box.\<close>

definition box_holds :: "'a bounding_box \<Rightarrow> 'a RangeBound \<Rightarrow> 'a RangeBound \<Rightarrow> bool" where
  "box_holds box l u \<longleftrightarrow>
     (\<forall>b. minLower box = Some b \<longrightarrow> cle (range_cmp_bounds tc) b l) \<and>
     (\<forall>b. minUpper box = Some b \<longrightarrow> cle (range_cmp_bounds tc) b u) \<and>
     (\<forall>b. maxLower box = Some b \<longrightarrow> cle (range_cmp_bounds tc) l b \<and>
       (\<not> box_inclusive box \<longrightarrow> \<not> cle (range_cmp_bounds tc) b l)) \<and>
     (\<forall>b. maxUpper box = Some b \<longrightarrow> cle (range_cmp_bounds tc) u b \<and>
       (\<not> box_inclusive box \<longrightarrow> \<not> cle (range_cmp_bounds tc) b u))"

text \<open>A quadrant that meets the box is kept; the node of the empty ranges always is.\<close>

lemma box_nodes_keep:
  assumes "bit which q" and "range_deserialize tc c = (cl, cu, ce)"
    and "range_deserialize tc r = (l, u, False)" and "q = getQuadrant tc c r"
    and box: "box_holds box l u"
  shows "bit (box_nodes tc cl cu box which) q"
proof -
  let ?le = "cle (range_cmp_bounds tc)"
  note Q = quadrant_nonempty [OF assms(2,3)]
  have minL: "minLower box = Some b \<Longrightarrow> ?le cl b \<Longrightarrow> q \<in> {1, 2, 5}" for b
    using box [unfolded box_holds_def] bnd.cle_trans [of cl b l] by (simp add: assms(4) Q)
  have minU: "minUpper box = Some b \<Longrightarrow> ?le cu b \<Longrightarrow> q \<in> {1, 4, 5}" for b
    using box [unfolded box_holds_def] bnd.cle_trans [of cu b u] by (simp add: assms(4) Q)
  have maxL: "maxLower box = Some b \<Longrightarrow> \<not> ?le cl b \<or> \<not> box_inclusive box \<and> ?le b cl \<Longrightarrow>
      q \<in> {3, 4, 5}" for b
    using box [unfolded box_holds_def] bnd.cle_trans [of cl l b] bnd.cle_trans [of b cl l] by (auto simp: assms(4) Q)
  have maxU: "maxUpper box = Some b \<Longrightarrow> \<not> ?le cu b \<or> \<not> box_inclusive box \<and> ?le b cu \<Longrightarrow>
      q \<in> {2, 3, 5}" for b
    using box [unfolded box_holds_def] bnd.cle_trans [of cu u b] bnd.cle_trans [of b cu u] by (auto simp: assms(4) Q)
  define w1 where "w1 = (case minLower box of None \<Rightarrow> which
    | Some b \<Rightarrow> if range_cmp_bounds tc cl b \<le> 0 then which AND mask [1, 2, 5] else which)"
  define w2 where "w2 = (case maxLower box of None \<Rightarrow> w1
    | Some b \<Rightarrow> if range_cmp_bounds tc cl b > 0 \<or> \<not> box_inclusive box \<and> range_cmp_bounds tc cl b = 0
        then w1 AND mask [3, 4, 5] else w1)"
  define w3 where "w3 = (case minUpper box of None \<Rightarrow> w2
    | Some b \<Rightarrow> if range_cmp_bounds tc cu b \<le> 0 then w2 AND mask [1, 4, 5] else w2)"
  have "bit w1 q"
    using assms(1) minL by (simp add: w1_def bnd.cmp_signs bit_and_iff split: option.split)
  then have "bit w2 q"
    using maxL by (simp add: w2_def bnd.cmp_signs bit_and_iff split: option.split)
  then have "bit w3 q"
    using minU by (simp add: w3_def bnd.cmp_signs bit_and_iff split: option.split)
  then show ?thesis
    using maxU unfolding box_nodes_def Let_def w1_def [symmetric] w2_def [symmetric] w3_def [symmetric]
    by (simp add: bnd.cmp_signs bit_and_iff split: option.split)
qed

lemma box_nodes_empty: "bit (box_nodes tc cl cu box which) 5 \<longleftrightarrow> bit which 5"
  by (auto simp: box_nodes_def Let_def bit_and_iff split: option.split)

text \<open>The direction of the bounds adjacent to an argument, seen from a centroid.\<close>

lemma box_nodes_none: "box_nodes tc cl cu (no_box\<lparr>strictEmpty := b\<rparr>) which = which"
  by (simp add: box_nodes_def no_box_def)

lemma adjacent_cmp_defined:
  assumes "rb_lower arg \<noteq> rb_lower c" and "cb arg" and "cb c"
  shows "\<exists>s. adjacent_cmp_bounds tc arg c = Inr s"
  using assms bounds_adjacent_eq [of arg c] by (simp add: adjacent_cmp_bounds_def Let_def)

lemma meet_le_iff:
  assumes "range_cmp_bound_values tc a b = 0" and "rb_inclusive a \<noteq> rb_inclusive b"
    and "\<not> rb_lower a" and "rb_lower b"
  shows "\<not> cle (range_cmp_bounds tc) b a"
proof -
  have fin: "\<not> rb_infinite a" "\<not> rb_infinite b"
    using values_finite [of a b] assms by simp_all
  then have "cle (rng_cmp_proc tc) (rb_val a) (rb_val b)"
    using assms(1) by (simp add: range_cmp_bound_values_def cle_def)
  then show ?thesis
    using fin assms(2-4) by (auto simp: cmp_bounds_le_iff bnd_cls_def bnd_off_def)
qed

text \<open>Two bounds of one kind that meet the same bound are equal in the order.\<close>

lemma meet_unique_upper:
  assumes "range_cmp_bound_values tc a b = 0" and "rb_inclusive a \<noteq> rb_inclusive b"
    and "range_cmp_bound_values tc a' b = 0" and "rb_inclusive a' \<noteq> rb_inclusive b"
    and "\<not> rb_lower a" and "\<not> rb_lower a'" and "rb_lower b"
  shows "cle (range_cmp_bounds tc) a a'"
proof -
  have fin: "\<not> rb_infinite a" "\<not> rb_infinite b" "\<not> rb_infinite a'"
    using values_finite [of a b] values_finite [of a' b] assms by simp_all
  then have "cle (rng_cmp_proc tc) (rb_val a) (rb_val b)" "cle (rng_cmp_proc tc) (rb_val b) (rb_val a')"
    using assms(1,3) by (simp_all add: range_cmp_bound_values_def zero_iff)
  then have "cle (rng_cmp_proc tc) (rb_val a) (rb_val a')" by (rule cle_trans)
  with fin assms(2,4-7) show ?thesis by (auto simp: cmp_bounds_le_iff bnd_cls_def bnd_off_def)
qed

lemma meet_unique_lower:
  assumes "range_cmp_bound_values tc a b = 0" and "rb_inclusive a \<noteq> rb_inclusive b"
    and "range_cmp_bound_values tc a b' = 0" and "rb_inclusive a \<noteq> rb_inclusive b'"
    and "\<not> rb_lower a" and "rb_lower b" and "rb_lower b'"
  shows "cle (range_cmp_bounds tc) b b'"
proof -
  have fin: "\<not> rb_infinite a" "\<not> rb_infinite b" "\<not> rb_infinite b'"
    using values_finite [of a b] values_finite [of a b'] assms by simp_all
  then have "cle (rng_cmp_proc tc) (rb_val b) (rb_val a)" "cle (rng_cmp_proc tc) (rb_val a) (rb_val b')"
    using assms(1,3) by (simp_all add: range_cmp_bound_values_def zero_iff)
  then have "cle (rng_cmp_proc tc) (rb_val b) (rb_val b')" by (rule cle_trans)
  with fin assms(2,4-7) show ?thesis by (auto simp: cmp_bounds_le_iff bnd_cls_def bnd_off_def)
qed

lemma adjacent_cmp_upper:
  assumes m: "range_cmp_bound_values tc u arg = 0" "rb_inclusive u \<noteq> rb_inclusive arg"
    and b: "\<not> rb_lower u" "rb_lower arg" "\<not> rb_lower c"
  shows "adjacent_cmp_bounds tc arg c = Inr (if cle (range_cmp_bounds tc) c u then 1 else -1)"
proof -
  let ?le = "cle (range_cmp_bounds tc)"
  have "?le arg c \<longleftrightarrow> \<not> ?le c u"
  proof
    assume "?le arg c"
    then show "\<not> ?le c u"
      using meet_le_iff [OF m b(1,2)] bnd.cle_trans [of arg c u] by blast
  next
    assume c: "\<not> ?le c u"
    show "?le arg c"
    proof (rule ccontr)
      assume "\<not> ?le arg c"
      moreover have "?le u c" using c bnd.cle_total by blast
      ultimately have "range_cmp_bound_values tc c arg = 0 \<and> rb_inclusive c \<noteq> rb_inclusive arg"
        using meet_squeeze(1) [OF m b(1,2,3)] by blast
      then show False using meet_unique_upper [of c arg u] m b c by blast
    qed
  qed
  then show ?thesis
    using b(3) by (simp add: adjacent_cmp_bounds_def Let_def bnd.cmp_signs)
qed

lemma adjacent_cmp_lower:
  assumes m: "range_cmp_bound_values tc arg l = 0" "rb_inclusive arg \<noteq> rb_inclusive l"
    and b: "\<not> rb_lower arg" "rb_lower l" "rb_lower c" and cb: "cb arg" "cb c"
  shows "adjacent_cmp_bounds tc arg c = Inr (if cle (range_cmp_bounds tc) c l then 1 else -1)"
proof -
  let ?le = "cle (range_cmp_bounds tc)"
  let ?adj = "range_cmp_bound_values tc arg c = 0 \<and> rb_inclusive arg \<noteq> rb_inclusive c"
  have "\<not> ?le c arg \<and> \<not> ?adj \<longleftrightarrow> \<not> ?le c l"
  proof
    assume c: "\<not> ?le c arg \<and> \<not> ?adj"
    then show "\<not> ?le c l" using meet_squeeze(2) [OF m b(1,2,3)] by blast
  next
    assume c: "\<not> ?le c l"
    have "\<not> ?le c arg"
      using c meet_less [OF m b(1,2)] bnd.cle_trans [of c arg l] by blast
    moreover have "\<not> ?adj"
      using c meet_unique_lower [of arg c l] m b by blast
    ultimately show "\<not> ?le c arg \<and> \<not> ?adj" by blast
  qed
  then show ?thesis
    using b(3) bounds_adjacent_eq [OF b(1,3) cb]
    by (auto simp: adjacent_cmp_bounds_def Let_def bnd.cmp_signs)
qed

text \<open>
  The value passed down is a centroid above: it has the same quadrant for the centroid
  below and for the range that is looked for.
\<close>

lemma inner_consistent_defined:
  assumes "rb_lower arg \<noteq> rb_lower c" and "cb arg" and "cb c"
    and "\<And>p. prev = Some p \<Longrightarrow> rb_lower arg \<noteq> rb_lower p \<and> cb p"
  shows "\<exists>s. adjacent_inner_consistent tc arg c prev = Inr s"
proof (cases prev)
  case None
  then show ?thesis
    using adjacent_cmp_defined [OF assms(1-3)] by (auto simp: adjacent_inner_consistent_def)
next
  case (Some p)
  then obtain s s' where "adjacent_cmp_bounds tc arg p = Inr s" "adjacent_cmp_bounds tc arg c = Inr s'"
    using adjacent_cmp_defined [OF assms(1-3)] adjacent_cmp_defined [of arg p] assms(2,4) by blast
  then show ?thesis
    by (simp add: adjacent_inner_consistent_def Some Let_def)
qed

lemma inner_consistent_upper:
  assumes "range_cmp_bound_values tc u arg = 0" and "rb_inclusive u \<noteq> rb_inclusive arg"
    and "\<not> rb_lower u" and "rb_lower arg" and "\<not> rb_lower c"
    and "\<And>p. prev = Some p \<Longrightarrow> \<not> rb_lower p \<and>
      (cle (range_cmp_bounds tc) p c \<longleftrightarrow> cle (range_cmp_bounds tc) p u)"
  shows "adjacent_inner_consistent tc arg c prev = Inr (if cle (range_cmp_bounds tc) c u then 1 else -1)"
proof (cases prev)
  case None
  then show ?thesis
    by (simp add: adjacent_inner_consistent_def adjacent_cmp_upper [OF assms(1-5)])
next
  case (Some p)
  with assms(6) have p: "\<not> rb_lower p"
    "cle (range_cmp_bounds tc) p c \<longleftrightarrow> cle (range_cmp_bounds tc) p u" by auto
  show ?thesis
    using p(2) by (simp add: adjacent_inner_consistent_def Some Let_def bnd.cmp_signs
        adjacent_cmp_upper [OF assms(1-5)] adjacent_cmp_upper [OF assms(1-4) p(1)])
qed

lemma inner_consistent_lower:
  assumes "range_cmp_bound_values tc arg l = 0" and "rb_inclusive arg \<noteq> rb_inclusive l"
    and "\<not> rb_lower arg" and "rb_lower l" and "rb_lower c" and "cb arg" and "cb c"
    and "\<And>p. prev = Some p \<Longrightarrow> rb_lower p \<and> cb p \<and>
      (cle (range_cmp_bounds tc) p c \<longleftrightarrow> cle (range_cmp_bounds tc) p l)"
  shows "adjacent_inner_consistent tc arg c prev = Inr (if cle (range_cmp_bounds tc) c l then 1 else -1)"
proof (cases prev)
  case None
  then show ?thesis
    by (simp add: adjacent_inner_consistent_def adjacent_cmp_lower [OF assms(1-7)])
next
  case (Some p)
  with assms(8) have p: "rb_lower p" "cb p"
    "cle (range_cmp_bounds tc) p c \<longleftrightarrow> cle (range_cmp_bounds tc) p l" by auto
  show ?thesis
    using p(3) by (simp add: adjacent_inner_consistent_def Some Let_def bnd.cmp_signs
        adjacent_cmp_lower [OF assms(1-7)] adjacent_cmp_lower [OF assms(1-4) p(1) assms(6) p(2)])
qed

lemma centroid_okD:
  assumes "centroid_ok tc cb c"
  obtains cl cu where "range_deserialize tc c = (cl, cu, False)" and "rb_lower cl" and "\<not> rb_lower cu"
    and "cb cl" and "cb cu"
proof -
  obtain cl cu ce where d: "range_deserialize tc c = (cl, cu, ce)" by (metis prod_cases3)
  then show ?thesis
    using that assms deserialize_fields(3) [OF d] range_okD [of c cl cu ce]
    by (auto simp: centroid_ok_def)
qed

lemma adjacent_nodes_defined:
  assumes c: "centroid_ok tc cb c" and tv: "\<And>p. tv = Some p \<Longrightarrow> centroid_ok tc cb p"
    and "rb_lower l" and "\<not> rb_lower u" and "cb l" and "cb u"
  shows "\<exists>w. adjacent_nodes tc c tv l u = Inr w"
proof -
  obtain cl cu where C: "range_deserialize tc c = (cl, cu, False)" "rb_lower cl" "\<not> rb_lower cu"
    "cb cl" "cb cu"
    using centroid_okD [OF c] by blast
  let ?prev = "map_option (range_deserialize tc) tv"
  let ?pu = "map_option (\<lambda>(pl, pu, pe). pu) ?prev" and ?pl = "map_option (\<lambda>(pl, pu, pe). pl) ?prev"
  have P: "(\<forall>b. ?pu = Some b \<longrightarrow> \<not> rb_lower b \<and> cb b) \<and> (\<forall>b. ?pl = Some b \<longrightarrow> rb_lower b \<and> cb b)"
  proof (cases tv)
    case (Some p)
    obtain pl pu where "range_deserialize tc p = (pl, pu, False)" "rb_lower pl" "\<not> rb_lower pu"
      "cb pl" "cb pu"
      using centroid_okD [OF tv [OF Some]] by blast
    then show ?thesis by (simp add: Some)
  qed simp
  have "\<exists>s. adjacent_inner_consistent tc l cu ?pu = Inr s"
    using assms(3,5) C(3,5) P by (intro inner_consistent_defined) auto
  moreover have "\<exists>s. adjacent_inner_consistent tc u cl ?pl = Inr s"
    using assms(4,6) C(2,4) P by (intro inner_consistent_defined) auto
  ultimately show ?thesis
    unfolding adjacent_nodes_def C(1) Let_def prod.case by auto
qed

lemma adjacent_nodes_sound:
  assumes c: "centroid_ok tc cb c" and r: "range_ok tc cb r" and q: "range_ok tc cb q"
    and dr: "range_deserialize tc r = (lr, ur, False)" and dq: "range_deserialize tc q = (lq, uq, False)"
    and adj: "range_adjacent_internal tc r q = Inr True"
    and tv: "\<And>p. tv = Some p \<Longrightarrow> centroid_ok tc cb p \<and> getQuadrant tc p r = getQuadrant tc p c"
    and w: "adjacent_nodes tc c tv lq uq = Inr w"
  shows "bit w (getQuadrant tc c r)"
proof -
  let ?le = "cle (range_cmp_bounds tc)"
  obtain cl cu where C: "range_deserialize tc c = (cl, cu, False)" "rb_lower cl" "\<not> rb_lower cu"
    "cb cl" "cb cu"
    using centroid_okD [OF c] by blast
  note R = range_okD(2-5) [OF r dr] and Q = range_okD(2-5) [OF q dq]
  let ?prev = "map_option (range_deserialize tc) tv"
  let ?pu = "map_option (\<lambda>(pl, pu, pe). pu) ?prev" and ?pl = "map_option (\<lambda>(pl, pu, pe). pl) ?prev"
  have P: "(\<forall>b. ?pu = Some b \<longrightarrow> \<not> rb_lower b \<and> (?le b cu \<longleftrightarrow> ?le b ur)) \<and>
    (\<forall>b. ?pl = Some b \<longrightarrow> rb_lower b \<and> cb b \<and> (?le b cl \<longleftrightarrow> ?le b lr))"
  proof (cases tv)
    case (Some p)
    obtain pl pu where p: "range_deserialize tc p = (pl, pu, False)" "rb_lower pl" "\<not> rb_lower pu"
      "cb pl" "cb pu"
      using centroid_okD tv [OF Some] by blast
    have "(?le pl cl \<longleftrightarrow> ?le pl lr) \<and> (?le pu cu \<longleftrightarrow> ?le pu ur)"
      using tv [OF Some] quadrant_nonempty [OF p(1) dr] quadrant_nonempty [OF p(1) C(1)]
      by (cases "?le pl cl"; cases "?le pl lr"; cases "?le pu cu"; cases "?le pu ur") simp_all
    with p show ?thesis by (simp add: Some)
  qed simp
  note w = w [unfolded adjacent_nodes_def C(1) Let_def prod.case]
  obtain s1 where s1: "adjacent_inner_consistent tc lq cu ?pu = Inr s1"
    using w by (cases "adjacent_inner_consistent tc lq cu ?pu") simp_all
  obtain s2 where s2: "adjacent_inner_consistent tc uq cl ?pl = Inr s2"
    using w unfolding s1 rbind_simps by (cases "adjacent_inner_consistent tc uq cl ?pl") simp_all
  have w': "w = (if s1 > 0 then mask [1, 4] else if s1 < 0 then mask [2, 3] else 0) OR
      (if s2 > 0 then mask [1, 2] else if s2 < 0 then mask [3, 4] else 0)"
    using w unfolding s1 s2 rbind_simps by simp
  from adj have "range_cmp_bound_values tc ur lq = 0 \<and> rb_inclusive ur \<noteq> rb_inclusive lq \<or>
      range_cmp_bound_values tc uq lr = 0 \<and> rb_inclusive uq \<noteq> rb_inclusive lr"
    using adjacent_eq [OF r q dr dq] by simp
  then show ?thesis
  proof (elim disjE conjE)
    assume m: "range_cmp_bound_values tc ur lq = 0" "rb_inclusive ur \<noteq> rb_inclusive lq"
    have "s1 = (if ?le cu ur then 1 else -1)"
      using inner_consistent_upper [OF m R(2) Q(1) C(3), of ?pu] P s1 by simp
    then show ?thesis
      by (simp add: w' quadrant_nonempty [OF C(1) dr] bit_or_iff)
  next
    assume m: "range_cmp_bound_values tc uq lr = 0" "rb_inclusive uq \<noteq> rb_inclusive lr"
    have "s2 = (if ?le cl lr then 1 else -1)"
      using inner_consistent_lower [OF m Q(2) R(1) C(2) Q(4) C(4), of ?pl] P s2 by simp
    then show ?thesis
      by (simp add: w' quadrant_nonempty [OF C(1) dr] bit_or_iff)
  qed
qed

text \<open>A scan key that a range satisfies keeps the range's quadrant.\<close>

lemma leaf_key_eq: "leaf_key tc r (strategy, query) = range_gist_consistent_leaf tc strategy r query"
  by (simp add: leaf_key_def range_gist_consistent_leaf_def)

lemma prefix_key_finish:
  assumes "key_bounds tc key = Inr (st, ro, l, u, emp)"
    and "prefix_switch tc c tv st ro l u emp which = Inr (box, w, n)"
    and "range_deserialize tc c = (cl, cu, ce)" and "\<not> (strictEmpty box \<and> emp)"
    and "bit (box_nodes tc cl cu box (if strictEmpty box then w AND mask [1, 2, 3, 4] else w)) Q"
  shows "\<exists>w' n'. prefix_key tc c tv key which need = Inr (w', n', False) \<and> bit w' Q"
  using assms bit_not_zero [OF assms(5)] by (simp add: prefix_key_def Let_def)

lemma key_bounds_range:
  "strategy \<in> range_strategies \<Longrightarrow> range_deserialize tc q = (l, u, e) \<Longrightarrow>
   key_bounds tc (strategy, QRange q) = Inr (strategy, Some q, l, u, e)"
  by (auto simp: key_bounds_def range_strategies_def strat_defs)

lemma no_box_sel [simp]:
  "minLower no_box = None" "maxLower no_box = None" "minUpper no_box = None" "maxUpper no_box = None"
  "box_inclusive no_box" "strictEmpty no_box"
  by (simp_all add: no_box_def)

lemma prefix_switch_nonempty:
  assumes c: "centroid_ok tc cb c" and r: "range_ok tc cb r" and q: "range_ok tc cb q"
    and dr: "range_deserialize tc r = (lr, ur, False)" and dq: "range_deserialize tc q = (lq, uq, False)"
    and tv: "\<And>p. tv = Some p \<Longrightarrow> centroid_ok tc cb p \<and> getQuadrant tc p r = getQuadrant tc p c"
    and st: "strategy \<in> range_strategies" and leaf: "leaf_key tc r (strategy, QRange q) = Inr True"
    and bit: "bit which (getQuadrant tc c r)"
  shows "\<exists>box w n. prefix_switch tc c tv strategy (Some q) lq uq False which = Inr (box, w, n) \<and>
    bit w (getQuadrant tc c r) \<and> box_holds box lr ur"
proof -
  let ?le = "cle (range_cmp_bounds tc)"
  obtain cl cu where C: "range_deserialize tc c = (cl, cu, False)" using centroid_okD [OF c] by blast
  note R = range_okD [OF r dr] and Q = range_okD [OF q dq]
  have t: "rangetypid r = rangetypid q" "rangetypid q = rangetypid r"
    using ok_typid [OF r] ok_typid [OF q] by simp_all
  note ops = internal_ops_nonempty(1-6) [OF t(1) dr dq] internal_ops_nonempty(2) [OF t(2) dq dr]
    overlaps_nonempty [OF t(1) dr dq R(6) Q(6)]
  have four: "getQuadrant tc c r \<in> {1, 2, 3, 4}"
    by (simp add: quadrant_nonempty [OF C dr])
  have tot: "?le a b" if "\<not> ?le b a" for a b using that bnd.cle_total by blast
  from st show ?thesis
    unfolding range_strategies_def
  proof (elim insertE emptyE)
    assume s: "strategy = RANGESTRAT_ADJACENT"
    obtain w where w: "adjacent_nodes tc c tv lq uq = Inr w"
      using adjacent_nodes_defined [OF c, of tv lq uq] tv Q(2-5) by auto
    have "range_adjacent_internal tc r q = Inr True"
      using leaf s by (simp add: leaf_key_def strat_defs)
    from adjacent_nodes_sound [OF c r q dr dq this tv w] bit show ?thesis
      by (auto simp: s prefix_switch_def strat_defs w bit_and_iff box_holds_def)
  next
    assume s: "strategy = RANGESTRAT_EQ"
    then have e: "?le lr lq" "?le lq lr" "?le ur uq" "?le uq ur"
      using leaf by (simp_all add: leaf_key_def strat_defs ops bnd.cmp_signs)
    have "?le cl lq \<longleftrightarrow> ?le cl lr" "?le cu uq \<longleftrightarrow> ?le cu ur"
      using e bnd.cle_trans by blast+
    then have "getQuadrant tc c q = getQuadrant tc c r"
      by (simp add: quadrant_nonempty [OF C dr] quadrant_nonempty [OF C dq])
    with bit show ?thesis
      by (auto simp: s prefix_switch_def strat_defs bit_and_iff box_holds_def bit_exp_iff)
  qed (use leaf bit four tot in \<open>auto simp: leaf_key_def strat_defs ops bnd.cmp_signs prefix_switch_def
      box_holds_def bit_and_iff range_contained_by_internal_def\<close>)
qed

lemma prefix_key_nonempty:
  assumes c: "centroid_ok tc cb c" and r: "range_ok tc cb r" and q: "range_ok tc cb q"
    and dr: "range_deserialize tc r = (lr, ur, False)" and dq: "range_deserialize tc q = (lq, uq, False)"
    and tv: "\<And>p. tv = Some p \<Longrightarrow> centroid_ok tc cb p \<and> getQuadrant tc p r = getQuadrant tc p c"
    and st: "strategy \<in> range_strategies" and leaf: "leaf_key tc r (strategy, QRange q) = Inr True"
    and bit: "bit which (getQuadrant tc c r)"
  shows "\<exists>w n. prefix_key tc c tv (strategy, QRange q) which need = Inr (w, n, False) \<and>
    bit w (getQuadrant tc c r)"
proof -
  obtain cl cu where C: "range_deserialize tc c = (cl, cu, False)" using centroid_okD [OF c] by blast
  obtain box w n where s: "prefix_switch tc c tv strategy (Some q) lq uq False which = Inr (box, w, n)"
    "bit w (getQuadrant tc c r)" "box_holds box lr ur"
    using prefix_switch_nonempty [OF c r q dr dq tv st leaf bit] by blast
  have "getQuadrant tc c r \<in> {1, 2, 3, 4}"
    by (simp add: quadrant_nonempty [OF C dr])
  then have "bit (if strictEmpty box then w AND mask [1, 2, 3, 4] else w) (getQuadrant tc c r)"
    using s(2) by (auto simp: bit_and_iff)
  from box_nodes_keep [OF this C dr refl s(3)] show ?thesis
    by (intro prefix_key_finish [OF key_bounds_range [OF st dq] s(1) C]) simp_all
qed

lemma prefix_key_empty:
  assumes c: "centroid_ok tc cb c" and r: "range_ok tc cb r" and q: "range_ok tc cb q"
    and e: "RangeIsEmpty r \<or> RangeIsEmpty q"
    and st: "strategy \<in> range_strategies" and leaf: "leaf_key tc r (strategy, QRange q) = Inr True"
    and bit: "bit which (getQuadrant tc c r)"
  shows "\<exists>w n. prefix_key tc c tv (strategy, QRange q) which need = Inr (w, n, False) \<and>
    bit w (getQuadrant tc c r)"
proof -
  obtain cl cu where C: "range_deserialize tc c = (cl, cu, False)" using centroid_okD [OF c] by blast
  obtain lr ur er where dr: "range_deserialize tc r = (lr, ur, er)" by (metis prod_cases3)
  obtain lq uq eq where dq: "range_deserialize tc q = (lq, uq, eq)" by (metis prod_cases3)
  have t: "rangetypid r = rangetypid q" "rangetypid q = rangetypid r"
    using ok_typid [OF r] ok_typid [OF q] by simp_all
  have E: "er \<or> eq" "eq \<or> er" "RangeIsEmpty r = er" "RangeIsEmpty q = eq"
    using e deserialize_fields(3) [OF dr] deserialize_fields(3) [OF dq] by auto
  note ops = internal_ops_empty [OF t(1) dr dq E(1)] internal_ops_empty(2) [OF t(2) dq dr E(2)]
  have five: "getQuadrant tc c x = 5" if "RangeIsEmpty x" for x using quadrant_empty that by blast
  have "strategy = RANGESTRAT_CONTAINS \<and> eq \<or> strategy = RANGESTRAT_CONTAINED_BY \<and> er \<or>
      strategy = RANGESTRAT_EQ \<and> er \<and> eq"
    using st leaf unfolding range_strategies_def
    by (elim insertE emptyE)
      (simp_all add: leaf_key_def strat_defs ops range_contained_by_internal_def)
  then have "\<exists>box w n. prefix_switch tc c tv strategy (Some q) lq uq eq which = Inr (box, w, n) \<and>
      \<not> strictEmpty box \<and> bit (box_nodes tc cl cu box w) (getQuadrant tc c r)"
    using bit E five [of r] five [of q]
    by (elim disjE conjE)
      (auto simp: prefix_switch_def strat_defs box_nodes_empty box_nodes_none bit_and_iff bit_exp_iff)
  then obtain box w n where s: "prefix_switch tc c tv strategy (Some q) lq uq eq which = Inr (box, w, n)"
    "\<not> strictEmpty box" "bit (box_nodes tc cl cu box w) (getQuadrant tc c r)" by blast
  show ?thesis
    by (rule prefix_key_finish [OF key_bounds_range [OF st dq] s(1) C]) (use s in simp_all)
qed

lemma elem_bounds_le:
  assumes "elem_bounds v = (l, u)"
  shows "cle (range_cmp_bounds tc) b l \<longleftrightarrow> cle (range_cmp_bounds tc) b (pt v)"
    and "cle (range_cmp_bounds tc) u b \<longleftrightarrow> cle (range_cmp_bounds tc) (pt v) b"
proof -
  have "l = (pt v)\<lparr>rb_lower := True\<rparr>" and "u = (pt v)\<lparr>rb_lower := False\<rparr>"
    using assms by (auto simp: elem_bounds_def pt_def)
  then have "range_cmp_bounds tc l (pt v) = 0" "range_cmp_bounds tc u (pt v) = 0"
    by (simp_all add: range_cmp_bounds_def)
  then have "cle (range_cmp_bounds tc) l (pt v)" "cle (range_cmp_bounds tc) (pt v) l"
    "cle (range_cmp_bounds tc) u (pt v)" "cle (range_cmp_bounds tc) (pt v) u"
    by (simp_all add: bnd.cmp_signs)
  then show "cle (range_cmp_bounds tc) b l \<longleftrightarrow> cle (range_cmp_bounds tc) b (pt v)"
    and "cle (range_cmp_bounds tc) u b \<longleftrightarrow> cle (range_cmp_bounds tc) (pt v) b"
    by (metis bnd.cle_trans)+
qed

lemma prefix_key_elem:
  assumes c: "centroid_ok tc cb c"
    and leaf: "leaf_key tc r (RANGESTRAT_CONTAINS_ELEM, QElem v) = Inr True"
    and bit: "bit which (getQuadrant tc c r)"
  shows "\<exists>w n. prefix_key tc c tv (RANGESTRAT_CONTAINS_ELEM, QElem v) which need = Inr (w, n, False) \<and>
    bit w (getQuadrant tc c r)"
proof -
  obtain cl cu where C: "range_deserialize tc c = (cl, cu, False)" using centroid_okD [OF c] by blast
  obtain lr ur er where dr: "range_deserialize tc r = (lr, ur, er)" by (metis prod_cases3)
  obtain l u where e: "elem_bounds v = (l, u)" by fastforce
  let ?box = "no_box\<lparr>strictEmpty := False, maxLower := Some l, minUpper := Some u\<rparr>"
  have "range_contains_elem_internal tc r v"
    using leaf by (simp add: leaf_key_def strat_defs)
  then have in_r: "\<not> er" "cle (range_cmp_bounds tc) lr (pt v)" "cle (range_cmp_bounds tc) (pt v) ur"
    using contains_elem_iff [OF dr] by simp_all
  then have dr: "range_deserialize tc r = (lr, ur, False)" using dr by simp
  have "box_holds ?box lr ur"
    using in_r by (simp add: box_holds_def elem_bounds_le [OF e])
  moreover have "bit (which AND mask [1, 2, 3, 4]) (getQuadrant tc c r)"
    using bit by (simp add: bit_and_iff quadrant_nonempty [OF C dr])
  ultimately have b: "bit (box_nodes tc cl cu ?box (which AND mask [1, 2, 3, 4])) (getQuadrant tc c r)"
    using box_nodes_keep [OF _ C dr refl] by blast
  have kb: "key_bounds tc (RANGESTRAT_CONTAINS_ELEM, QElem v) =
      Inr (RANGESTRAT_CONTAINS, None, l, u, False)"
    by (simp add: key_bounds_def e)
  have sw: "prefix_switch tc c tv RANGESTRAT_CONTAINS None l u False which =
      Inr (?box, which AND mask [1, 2, 3, 4], False)"
    by (simp add: strat_defs prefix_switch_def)
  show ?thesis
    by (rule prefix_key_finish [OF kb sw C]) (use b in simp_all)
qed

lemma prefix_key_sound:
  assumes c: "centroid_ok tc cb c" and r: "range_ok tc cb r" and query: "query_ok tc cb strategy query"
    and tv: "\<And>p. tv = Some p \<Longrightarrow> centroid_ok tc cb p \<and> getQuadrant tc p r = getQuadrant tc p c"
    and leaf: "leaf_key tc r (strategy, query) = Inr True" and bit: "bit which (getQuadrant tc c r)"
  shows "\<exists>w n. prefix_key tc c tv (strategy, query) which need = Inr (w, n, False) \<and>
    bit w (getQuadrant tc c r)"
proof (cases query)
  case (QElem v)
  then show ?thesis using query prefix_key_elem [OF c _ bit] leaf by simp
next
  case (QRange q)
  with query have st: "strategy \<in> range_strategies" and q: "range_ok tc cb q" by simp_all
  obtain lr ur er where dr: "range_deserialize tc r = (lr, ur, er)" by (metis prod_cases3)
  obtain lq uq eq where dq: "range_deserialize tc q = (lq, uq, eq)" by (metis prod_cases3)
  note leaf = leaf [unfolded QRange]
  show ?thesis
  proof (cases "RangeIsEmpty r \<or> RangeIsEmpty q")
    case True
    from prefix_key_empty [OF c r q True st leaf bit] show ?thesis by (simp add: QRange)
  next
    case False
    then have "\<not> er" "\<not> eq"
      using deserialize_fields(3) [OF dr] deserialize_fields(3) [OF dq] by simp_all
    then show ?thesis
      using prefix_key_nonempty [OF c r q _ _ tv st leaf bit] dr dq by (simp add: QRange)
  qed
qed

text \<open>A scan key of the index's type raises no error.\<close>

lemma prefix_key_defined:
  assumes c: "centroid_ok tc cb c" and query: "query_ok tc cb strategy query"
    and tv: "\<And>p. tv = Some p \<Longrightarrow> centroid_ok tc cb p"
  shows "\<exists>x. prefix_key tc c tv (strategy, query) which need = Inr x"
proof -
  obtain cl cu where C: "range_deserialize tc c = (cl, cu, False)" using centroid_okD [OF c] by blast
  have "\<exists>st ro l u e. key_bounds tc (strategy, query) = Inr (st, ro, l, u, e) \<and>
      (\<exists>x. prefix_switch tc c tv st ro l u e which = Inr x)"
  proof (cases query)
    case (QElem v)
    then show ?thesis
      using query by (auto simp: key_bounds_def elem_bounds_def prefix_switch_def strat_defs)
  next
    case (QRange q)
    with query have st: "strategy \<in> range_strategies" and q: "range_ok tc cb q" by simp_all
    obtain l u e where dq: "range_deserialize tc q = (l, u, e)" by (metis prod_cases3)
    have "\<exists>w. adjacent_nodes tc c tv l u = Inr w" if "\<not> e"
      using that adjacent_nodes_defined [OF c tv, of tv l u] range_okD(2-5) [OF q, of l u] dq by simp
    then have "\<exists>x. prefix_switch tc c tv strategy (Some q) l u e which = Inr x"
      using st unfolding range_strategies_def
      by (elim insertE emptyE) (auto simp: prefix_switch_def strat_defs ex_bool_eq)
    then show ?thesis by (simp add: QRange key_bounds_range [OF st dq])
  qed
  then show ?thesis
    by (elim exE conjE) (auto simp: prefix_key_def C Let_def)
qed

text \<open>The loops over the scan keys.\<close>

lemma prefix_loop_sound:
  assumes c: "centroid_ok tc cb c" and r: "range_ok tc cb r"
    and tv: "\<And>p. tv = Some p \<Longrightarrow> centroid_ok tc cb p \<and> getQuadrant tc p r = getQuadrant tc p c"
  shows "scankeys_ok tc cb keys \<Longrightarrow>
    leaf_loop tc r keys = Inr True \<Longrightarrow> bit which (getQuadrant tc c r) \<Longrightarrow>
    \<exists>w n. prefix_loop tc c tv keys which need = Inr (w, n) \<and> bit w (getQuadrant tc c r)"
proof (induction keys arbitrary: which need)
  case (Cons key keys)
  obtain strategy query where key: "key = (strategy, query)" by fastforce
  from Cons.prems(2) have leaf: "leaf_key tc r (strategy, query) = Inr True" "leaf_loop tc r keys = Inr True"
    by (auto simp: key rbind_Inr_iff split: if_splits)
  obtain w n where "prefix_key tc c tv (strategy, query) which need = Inr (w, n, False)"
    "bit w (getQuadrant tc c r)"
    using prefix_key_sound [where need = need and tv = tv, OF c r _ tv leaf(1) Cons.prems(3)] Cons.prems(1) key by auto
  with Cons.IH [OF _ leaf(2)] Cons.prems(1) show ?case by (simp add: key)
qed simp

lemma prefix_loop_defined:
  assumes c: "centroid_ok tc cb c" and tv: "\<And>p. tv = Some p \<Longrightarrow> centroid_ok tc cb p"
  shows "scankeys_ok tc cb keys \<Longrightarrow>
    \<exists>x. prefix_loop tc c tv keys which need = Inr x"
proof (induction keys arbitrary: which need)
  case (Cons key keys)
  obtain strategy query where key: "key = (strategy, query)" by fastforce
  obtain w n b where "prefix_key tc c tv key which need = Inr (w, n, b)"
    using prefix_key_defined [where strategy = strategy and query = query and tv = tv and which = which
        and need = need, OF c _ tv] Cons.prems key by auto
  with Cons.IH [of w n] Cons.prems show ?case by (cases b) simp_all
qed simp

lemma noprefix_key_sound:
  assumes r: "range_ok tc cb r" and query: "query_ok tc cb strategy query"
    and leaf: "leaf_key tc r (strategy, query) = Inr True"
    and bit: "bit which (if RangeIsEmpty r then 1 else 2)"
  shows "\<exists>w. noprefix_key (strategy, query) which = Inr w \<and> bit w (if RangeIsEmpty r then 1 else 2)"
proof (cases query)
  case (QElem v)
  obtain l u e where dr: "range_deserialize tc r = (l, u, e)" by (metis prod_cases3)
  have "\<not> RangeIsEmpty r"
    using query leaf contains_elem_iff [OF dr] deserialize_fields(3) [OF dr]
    by (simp add: QElem leaf_key_def strat_defs)
  with bit query QElem show ?thesis by (simp add: noprefix_key_def strat_defs bit_and_iff)
next
  case (QRange q)
  with query have st: "strategy \<in> range_strategies" and q: "range_ok tc cb q" by simp_all
  obtain lr ur er where dr: "range_deserialize tc r = (lr, ur, er)" by (metis prod_cases3)
  obtain lq uq eq where dq: "range_deserialize tc q = (lq, uq, eq)" by (metis prod_cases3)
  have t: "rangetypid r = rangetypid q" "rangetypid q = rangetypid r"
    using ok_typid [OF r] ok_typid [OF q] by simp_all
  note E = deserialize_fields(3) [OF dr, symmetric] deserialize_fields(3) [OF dq, symmetric]
  note ops = internal_ops_empty [OF t(1) dr dq] internal_ops_empty(2) [OF t(2) dq dr]
  have "(eq \<longrightarrow> strategy = RANGESTRAT_CONTAINS \<or> er \<and> strategy \<in> {RANGESTRAT_CONTAINED_BY, RANGESTRAT_EQ}) \<and>
    (er \<longrightarrow> strategy = RANGESTRAT_CONTAINED_BY \<or> eq \<and> strategy \<in> {RANGESTRAT_CONTAINS, RANGESTRAT_EQ})"
    using leaf st QRange unfolding range_strategies_def
    by (elim insertE emptyE) (auto simp: leaf_key_def range_contained_by_internal_def strat_defs ops)
  with bit E QRange st show ?thesis
    unfolding range_strategies_def
    by (elim insertE emptyE) (auto simp: noprefix_key_def strat_defs bit_and_iff)
qed

lemma noprefix_loop_sound:
  assumes r: "range_ok tc cb r"
  shows "scankeys_ok tc cb keys \<Longrightarrow>
    leaf_loop tc r keys = Inr True \<Longrightarrow> bit which (if RangeIsEmpty r then 1 else 2) \<Longrightarrow>
    \<exists>w. noprefix_loop keys which = Inr w \<and> bit w (if RangeIsEmpty r then 1 else 2)"
proof (induction keys arbitrary: which)
  case (Cons key keys)
  obtain strategy query where key: "key = (strategy, query)" by fastforce
  from Cons.prems(2) have leaf: "leaf_key tc r (strategy, query) = Inr True" "leaf_loop tc r keys = Inr True"
    by (auto simp: key rbind_Inr_iff split: if_splits)
  obtain w where w: "noprefix_key (strategy, query) which = Inr w" "bit w (if RangeIsEmpty r then 1 else 2)"
    using noprefix_key_sound [OF r _ leaf(1) Cons.prems(3)] Cons.prems(1) key by auto
  with Cons.IH [OF _ leaf(2) w(2)] Cons.prems(1) bit_not_zero [OF w(2)] show ?case by (simp add: key)
qed simp

lemma noprefix_loop_defined:
  "scankeys_ok tc cb keys \<Longrightarrow>
   \<exists>w. noprefix_loop keys which = Inr w"
proof (induction keys arbitrary: which)
  case (Cons key keys)
  obtain strategy query where key: "key = (strategy, query)" by fastforce
  have "\<exists>w. noprefix_key key which = Inr w"
    using Cons.prems by (cases query) (auto simp: key noprefix_key_def range_strategies_def strat_defs)
  with Cons show ?case by auto
qed simp

lemma leaf_loop_defined:
  assumes r: "range_ok tc cb r"
  shows "scankeys_ok tc cb keys \<Longrightarrow>
    \<exists>b. leaf_loop tc r keys = Inr b"
proof (induction keys)
  case (Cons key keys)
  obtain strategy query where key: "key = (strategy, query)" by fastforce
  obtain b where "leaf_key tc r key = Inr b"
    using consistent_defined(1) [OF ok_gist_key(1) [OF r], of strategy query] Cons.prems
    by (auto simp: key leaf_key_eq)
  with Cons show ?case by (cases b) (simp_all add: ex_bool_eq)
qed (simp add: ex_bool_eq)

end

section \<open>The range operator class meets the contract\<close>

text \<open>
  The invariant of an inner tuple. Its nodes are those \<open>spg_range_quad_picksplit\<close> makes,
  unless the access method has made it an \<open>allTheSame\<close> tuple; a key stands below the node
  \<open>spg_range_quad_choose\<close> selects for it; and the centroid of a tuple below stands in the
  quadrant of its node.
\<close>

definition spg_node_ok ::
  "('a::zero) TypeCacheEntry \<Rightarrow> ('a RangeBound \<Rightarrow> bool) \<Rightarrow> 'a spg_inner \<Rightarrow> nat \<Rightarrow> bool" where
  "spg_node_ok tc cb tuple nNodes \<longleftrightarrow>
     allTheSame tuple \<or>
     (case prefixDatum tuple of None \<Rightarrow> nNodes = 2
      | Some centroid \<Rightarrow> centroid_ok tc cb centroid \<and> nNodes \<in> {4, 5})"

definition spg_belongs :: "('a::zero) TypeCacheEntry \<Rightarrow> 'a spg_inner \<Rightarrow> nat \<Rightarrow> 'a RangeType \<Rightarrow> bool" where
  "spg_belongs tc tuple i r \<longleftrightarrow>
     allTheSame tuple \<or>
     (case prefixDatum tuple of None \<Rightarrow> i = (if RangeIsEmpty r then 0 else 1)
      | Some centroid \<Rightarrow> getQuadrant tc centroid r = i + 1)"

definition spg_nested :: "('a::zero) TypeCacheEntry \<Rightarrow> 'a spg_inner \<Rightarrow> nat \<Rightarrow> 'a spg_inner \<Rightarrow> bool" where
  "spg_nested tc tuple i below \<longleftrightarrow>
     allTheSame tuple \<or> allTheSame below \<or>
     (case (prefixDatum tuple, prefixDatum below) of
        (Some centroid, Some c) \<Rightarrow> getQuadrant tc centroid c = i + 1
      | _ \<Rightarrow> True)"

definition spg_passes :: "'a spg_inner \<Rightarrow> 'a RangeType \<Rightarrow> bool" where
  "spg_passes tuple v \<longleftrightarrow> \<not> allTheSame tuple \<and> prefixDatum tuple = Some v"

text \<open>What the access method reads of the results.\<close>

definition spg_inner_nodes ::
  "('a::zero) lookup \<Rightarrow> 'a fnx \<Rightarrow> 'a scankey list \<Rightarrow> 'a RangeType option \<Rightarrow> 'a spg_inner \<Rightarrow> nat
     \<Rightarrow> (nat \<times> 'a RangeType option) list res" where
  "spg_inner_nodes lk fx keys tv tuple nNodes =
     rbind (spg_range_quad_inner_consistent lk fx keys tv tuple nNodes) (\<lambda>(outs, fx'). Inr outs)"

definition spg_leaf_test :: "('a::zero) lookup \<Rightarrow> 'a fnx \<Rightarrow> 'a scankey list \<Rightarrow> 'a RangeType \<Rightarrow> bool res" where
  "spg_leaf_test lk fx keys r =
     rbind (spg_range_quad_leaf_consistent lk fx keys r) (\<lambda>((b, recheck, v), fx'). Inr b)"

context range_index
begin

lemma leaf_test_eq: "range_ok tc cb r \<Longrightarrow> spg_leaf_test lk fx keys r = leaf_loop tc r keys"
  using found ok_typid [of r]
  by (cases "leaf_loop tc r keys")
    (simp_all add: spg_leaf_test_def spg_range_quad_leaf_consistent_def)

lemma inner_nodes_all: "allTheSame n \<Longrightarrow> spg_inner_nodes lk fx keys tv n len = Inr (map (\<lambda>i. (i, None)) [0..<len])"
  by (simp add: spg_inner_nodes_def spg_range_quad_inner_consistent_def)

lemma inner_nodes_none:
  "\<not> allTheSame n \<Longrightarrow> prefixDatum n = None \<Longrightarrow> noprefix_loop keys (mask [1, 2]) = Inr w \<Longrightarrow>
   spg_inner_nodes lk fx keys tv n len = Inr (visit_nodes None len w False)"
  by (simp add: spg_inner_nodes_def spg_range_quad_inner_consistent_def)

lemma inner_nodes_some:
  "\<not> allTheSame n \<Longrightarrow> prefixDatum n = Some c \<Longrightarrow> centroid_ok tc cb c \<Longrightarrow>
   prefix_loop tc c tv keys (mask [1, 2, 3, 4, 5]) False = Inr (w, need) \<Longrightarrow>
   spg_inner_nodes lk fx keys tv n len = Inr (visit_nodes (Some c) len w need)"
  using found ok_typid [of c]
  by (simp add: spg_inner_nodes_def spg_range_quad_inner_consistent_def centroid_ok_def)

lemma inner_nodes_defined:
  assumes "scankeys_ok tc cb keys" and n: "spg_node_ok tc cb n len"
    and "\<And>v. tv = Some v \<Longrightarrow> \<exists>m l. spg_node_ok tc cb m l \<and> spg_passes m v"
  shows "\<exists>outs. spg_inner_nodes lk fx keys tv n len = Inr outs \<and>
    (\<forall>(i, tv') \<in> set outs. \<forall>v. tv' = Some v \<longrightarrow> spg_passes n v)"
proof (cases "allTheSame n")
  case True
  then show ?thesis by (auto simp: inner_nodes_all)
next
  case False
  have tv: "centroid_ok tc cb p" if "tv = Some p" for p
    using assms(3) [OF that] by (auto simp: spg_node_ok_def spg_passes_def)
  show ?thesis
  proof (cases "prefixDatum n")
    case None
    obtain w where "noprefix_loop keys (mask [1, 2]) = Inr w"
      using noprefix_loop_defined [OF assms(1)] by blast
    from inner_nodes_none [OF False None this] show ?thesis
      by (auto dest: visit_nodes_snd)
  next
    case (Some c)
    then have c: "centroid_ok tc cb c" using n False by (simp add: spg_node_ok_def)
    obtain w need where "prefix_loop tc c tv keys (mask [1, 2, 3, 4, 5]) False = Inr (w, need)"
      using prefix_loop_defined [where tv = tv, OF c tv assms(1)] by force
    from inner_nodes_some [OF False Some c this] show ?thesis
      using False Some by (auto simp: spg_passes_def dest: visit_nodes_snd)
  qed
qed

lemma inner_nodes_sound:
  assumes keys: "scankeys_ok tc cb keys" and n: "spg_node_ok tc cb n len" and r: "range_ok tc cb r"
    and i: "i < len" "spg_belongs tc n i r"
    and tv: "\<And>v. tv = Some v \<Longrightarrow> \<exists>m l j. spg_node_ok tc cb m l \<and> spg_passes m v \<and>
      spg_belongs tc m j r \<and> spg_nested tc m j n"
    and leaf: "leaf_loop tc r keys = Inr True"
    and outs: "spg_inner_nodes lk fx keys tv n len = Inr outs"
  shows "i \<in> fst ` set outs"
proof (cases "allTheSame n")
  case True
  then show ?thesis using outs i by (force simp: inner_nodes_all)
next
  case False
  show ?thesis
  proof (cases "prefixDatum n")
    case None
    then have e: "i + 1 = (if RangeIsEmpty r then 1 else 2)" using i False by (simp add: spg_belongs_def)
    have "bit (mask [1, 2]) (if RangeIsEmpty r then 1 else 2)" by simp
    from noprefix_loop_sound [OF r keys leaf this] obtain w
      where w: "noprefix_loop keys (mask [1, 2]) = Inr w" "bit w (i + 1)"
      unfolding e by blast
    from inner_nodes_none [OF False None w(1)] outs i(1) w(2) show ?thesis
      by (auto simp: visit_nodes_fst)
  next
    case (Some c)
    have c: "centroid_ok tc cb c" and e: "getQuadrant tc c r = i + 1"
      using n i Some False by (simp_all add: spg_node_ok_def spg_belongs_def)
    have t: "centroid_ok tc cb p \<and> getQuadrant tc p r = getQuadrant tc p c" if "tv = Some p" for p
      using tv [OF that] False Some
      by (auto simp: spg_node_ok_def spg_passes_def spg_belongs_def spg_nested_def)
    have "bit (mask [1, 2, 3, 4, 5]) (getQuadrant tc c r)" using quadrant_range [of c r] by auto
    from prefix_loop_sound [where tv = tv, OF c r t keys leaf this] obtain w need
      where w: "prefix_loop tc c tv keys (mask [1, 2, 3, 4, 5]) False = Inr (w, need)" "bit w (i + 1)"
      unfolding e by blast
    from inner_nodes_some [OF False Some c w(1)] outs i(1) w(2) show ?thesis
      by (auto simp: visit_nodes_fst)
  qed
qed

end

sublocale range_index \<subseteq>
  spg: spg_opclass "range_ok tc cb" "spg_node_ok tc cb" "spg_belongs tc" "spg_nested tc" spg_passes
    "scankeys_ok tc cb" "spg_inner_nodes lk fx" "spg_leaf_test lk fx"
proof
  show "\<exists>b. spg_leaf_test lk fx q k = Inr b" if "scankeys_ok tc cb q" "range_ok tc cb k" for q k
    using leaf_loop_defined [OF that(2,1)] leaf_test_eq [OF that(2)] by simp
  show "i \<in> fst ` set outs"
    if "scankeys_ok tc cb q" "spg_node_ok tc cb n len" "range_ok tc cb k" "i < len" "spg_belongs tc n i k"
      "\<And>v. tv = Some v \<Longrightarrow> \<exists>m l j. spg_node_ok tc cb m l \<and> spg_passes m v \<and>
        spg_belongs tc m j k \<and> spg_nested tc m j n"
      "spg_leaf_test lk fx q k = Inr True" "spg_inner_nodes lk fx q tv n len = Inr outs"
    for q n len k i tv outs
    using inner_nodes_sound [OF that(1-6) _ that(8)] that(7) leaf_test_eq [OF that(3)] by simp
qed (rule inner_nodes_defined)

context range_index
begin

lemmas spg_search_exact = spg.ssearch_exact
lemmas spg_leaves_ok = spg.sleaves_ok

lemma spg_passed_none: "spg.passed None t"
  by (simp add: spg.passed_def)

end

section \<open>Property\<close>

text \<open>An answer of the loop over the scan keys is the conjunction of the tests.\<close>

lemma leaf_loop_iff:
  "leaf_loop tc r keys = Inr True \<longleftrightarrow> list_all (\<lambda>key. leaf_key tc r key = Inr True) keys"
  by (induction keys) (auto simp: rbind_Inr_iff)

context range_index
begin

lemma leaf_test_operators:
  assumes "range_ok tc cb r" and "list_all (\<lambda>(strategy, query). query_ok tc cb strategy query) keys"
  shows "spg_leaf_test lk fx keys r = Inr True \<longleftrightarrow> list_all (\<lambda>key. operator_call lk fx r key = Inr True) keys"
proof -
  have "operator_call lk fx r key = leaf_key tc r key" if "key \<in> set keys" for key
    using assms(2) that leaf_is_operator [OF _ ok_typid [OF assms(1)]]
    by (cases key) (force simp: list_all_iff leaf_key_eq)
  then show ?thesis
    by (simp add: leaf_test_eq [OF assms(1)] leaf_loop_iff list_all_iff)
qed

end

text \<open>
  C39. A search of an SP-GiST index returns exactly the leaf ranges on which the SQL functions
  of the operators of all scan keys return true, for every operator of the operator class
  and any number of scan keys: no inner tuple leaves out a node with a match, whatever
  centroids are passed down on the way, no function raises an error, and the leaf test
  returns the leaf range itself and never asks for a recheck.
\<close>

theorem spg_range_search_exact:
  assumes "range_type tc cb" and "typcache_found lk fx tc"
    and "list_all (\<lambda>(strategy, query). query_ok tc cb strategy query) keys"
    and "spg_tree_ok (range_ok tc cb) (spg_node_ok tc cb) (spg_belongs tc) (spg_nested tc) t"
  shows "spg_search (spg_inner_nodes lk fx keys) (spg_leaf_test lk fx keys) None t =
    Inr (filter (\<lambda>r. list_all (\<lambda>key. operator_call lk fx r key = Inr True) keys) (spg_leaves t)) \<and>
    (\<forall>r b recheck leafValue fx'. spg_range_quad_leaf_consistent lk fx keys r = Inr ((b, recheck, leafValue), fx')
       \<longrightarrow> \<not> recheck \<and> leafValue = r)"
proof -
  have index: "range_index tc cb lk fx"
    using assms(1,2) by (intro range_index.intro range_index_axioms.intro)
  have "spg_leaf_test lk fx keys r = Inr True \<longleftrightarrow> list_all (\<lambda>key. operator_call lk fx r key = Inr True) keys"
    if "r \<in> set (spg_leaves t)" for r
    using range_index.leaf_test_operators [OF index range_index.spg_leaves_ok [OF index assms(4) that] assms(3)] .
  then have "filter (\<lambda>r. spg_leaf_test lk fx keys r = Inr True) (spg_leaves t) =
      filter (\<lambda>r. list_all (\<lambda>key. operator_call lk fx r key = Inr True) keys) (spg_leaves t)"
    by (intro filter_cong) simp_all
  with range_index.spg_search_exact [OF index assms(3,4) range_index.spg_passed_none [OF index]]
  have "spg_search (spg_inner_nodes lk fx keys) (spg_leaf_test lk fx keys) None t =
    Inr (filter (\<lambda>r. list_all (\<lambda>key. operator_call lk fx r key = Inr True) keys) (spg_leaves t))"
    by simp
  moreover have "\<not> recheck \<and> leafValue = r"
    if "spg_range_quad_leaf_consistent lk fx keys r = Inr ((b, recheck, leafValue), fx')"
    for r b recheck leafValue fx'
    using that by (auto simp: spg_range_quad_leaf_consistent_def with_typcache_def rbind_Inr_iff)
  ultimately show ?thesis by blast
qed

text \<open>
  An index with a tuple below a tuple; the scan asks for the ranges adjacent to \<open>[20, 30)\<close>
  that contain 35.
\<close>

definition sample_quads :: "(Datum spg_inner, Datum RangeType) spg_tree" where
  "sample_quads = SNode \<lparr>allTheSame = False, prefixDatum = Some (int4_rng 10 20)\<rparr>
     [SNode \<lparr>allTheSame = False, prefixDatum = Some (int4_rng 30 40)\<rparr>
        [SLeaf [int4_rng 30 50, int4_rng 31 41], SLeaf [int4_rng 30 36], SLeaf [int4_rng 12 21],
         SLeaf [int4_rng 25 60]],
      SLeaf [int4_rng 12 15], SLeaf [int4_rng 1 5], SLeaf [int4_rng 1 20],
      SLeaf [empty_repr int4range_typcache]]"

theorem spg_range_search_exact_witness:
  "spg_search
     (spg_inner_nodes int4_lookup None
       [(RANGESTRAT_ADJACENT, QRange (int4_rng 20 30)), (RANGESTRAT_CONTAINS_ELEM, QElem (Int32GetDatum 35))])
     (spg_leaf_test int4_lookup None
       [(RANGESTRAT_ADJACENT, QRange (int4_rng 20 30)), (RANGESTRAT_CONTAINS_ELEM, QElem (Int32GetDatum 35))])
     None sample_quads = Inr [int4_rng 30 50, int4_rng 30 36]"
proof -
  let ?keys = "[(RANGESTRAT_ADJACENT, QRange (int4_rng 20 30)),
    (RANGESTRAT_CONTAINS_ELEM, QElem (Int32GetDatum 35))]"
  have "list_all (\<lambda>(strategy, query). query_ok int4range_typcache int4_cb strategy query) ?keys"
    by code_simp
  moreover have "spg_tree_ok (range_ok int4range_typcache int4_cb) (spg_node_ok int4range_typcache int4_cb)
      (spg_belongs int4range_typcache) (spg_nested int4range_typcache) sample_quads"
    by code_simp
  moreover have "filter (\<lambda>r. list_all (\<lambda>key. operator_call int4_lookup None r key = Inr True) ?keys)
      (spg_leaves sample_quads) = [int4_rng 30 50, int4_rng 30 36]"
    by code_simp
  ultimately show ?thesis
    using spg_range_search_exact [OF int4.range_type_axioms int4_lookup_found, of ?keys sample_quads]
    by simp
qed

end
