(* ===== verification/Spgist_Picksplit.thy ===== *)
theory Spgist_Picksplit
  imports Range_Spgist
begin

text \<open>
  The split of an SP-GiST leaf (\<open>spg_range_quad_picksplit\<close>): the centroid made of the
  median bounds is a non-empty range, the nodes it assigns are those
  \<open>spg_range_quad_choose\<close> selects later on, and a split below another tuple keeps the
  invariant of the tree.
\<close>

section \<open>The centroid\<close>

context range_type
begin

lemma nonempty_bounds_set:
  "(l, u) \<in> set (nonempty_bounds tc ds) \<longleftrightarrow> (\<exists>r \<in> set ds. range_deserialize tc r = (l, u, False))"
  by (force simp: nonempty_bounds_def split: prod.splits)

lemma nonempty_bounds_empty: "nonempty_bounds tc ds = [] \<longleftrightarrow> (\<forall>r \<in> set ds. RangeIsEmpty r)"
proof -
  have "snd (snd (range_deserialize tc r)) = RangeIsEmpty r" for r
    using deserialize_fields(3) by (metis prod.collapse)
  then show ?thesis
    by (auto simp: nonempty_bounds_def case_prod_unfold concat_eq_Nil_conv)
qed

text \<open>
  The median bounds make a centroid, and each of its bounds is the bound of one of the
  ranges.
\<close>

lemma centroid_exists:
  assumes ok: "list_all (range_ok tc cb) ds" and bs: "bs = nonempty_bounds tc ds" "bs \<noteq> []"
  obtains c l u where
    "range_serialize tc (qsort_arg (bound_cmp tc) (map fst bs) ! (length bs div 2))
       (qsort_arg (bound_cmp tc) (map snd bs) ! (length bs div 2)) False = Inr c"
    and "centroid_ok tc cb c" and "range_deserialize tc c = (norm_bound l, norm_bound u, False)"
    and "l \<in> fst ` set bs" and "u \<in> snd ` set bs"
proof -
  have cmp: "bound_cmp tc = range_cmp_bounds tc" by (intro ext) (simp add: bound_cmp_def)
  let ?k = "length bs div 2"
  define l u where "l = qsort_arg (bound_cmp tc) (map fst bs) ! ?k"
    and "u = qsort_arg (bound_cmp tc) (map snd bs) ! ?k"
  have B: "rb_lower a \<and> \<not> rb_lower b \<and> cb a \<and> cb b \<and> cle (range_cmp_bounds tc) a b"
    if ab: "(a, b) \<in> set bs" for a b
  proof -
    obtain r where "r \<in> set ds" "range_deserialize tc r = (a, b, False)"
      using ab nonempty_bounds_set [of a b ds] unfolding bs(1) by blast
    then show ?thesis using range_okD(2-6) [of r a b False] ok by (simp add: list_all_iff)
  qed
  have k: "?k < length bs" using bs(2) by (cases bs) auto
  have le: "cle (range_cmp_bounds tc) l u"
    unfolding l_def u_def cmp
    by (rule bnd.order_statistics [OF _ mset_qsort_arg mset_qsort_arg bnd.sorted_qsort_arg bnd.sorted_qsort_arg])
      (use B k in \<open>auto simp: list_all2_conv_all_nth\<close>)
  have mem: "qsort_arg (bound_cmp tc) xs ! ?k \<in> set xs" if "length xs = length bs" for xs
    using k that mset_qsort_arg [of "bound_cmp tc" xs]
    by (metis mset_eq_length mset_eq_setD nth_mem)
  have l: "l \<in> fst ` set bs" and u: "u \<in> snd ` set bs"
    unfolding l_def u_def using mem [of "map fst bs"] mem [of "map snd bs"] by simp_all
  then have side: "rb_lower l" "\<not> rb_lower u" "cb l" "cb u" using B by force+
  have "range_serialize tc l u False = Inr (range_repr tc l u)"
    using serialize_cases [OF side(1,2)] cle_values [of l u] le side by simp
  moreover have "centroid_ok tc cb (range_repr tc l u)"
    using range_ok_range_repr [OF side le] by (simp add: centroid_ok_def)
  ultimately show ?thesis
    using that [OF _ _ deserialize_range_repr [OF side(1,2)] l u] by (simp add: l_def u_def)
qed

text \<open>Ranges in one quadrant of another centroid have their centroid there.\<close>

lemma centroid_quadrant:
  assumes c: "range_deserialize tc c = (norm_bound l, norm_bound u, False)"
    and l: "l \<in> fst ` set (nonempty_bounds tc ds)" and u: "u \<in> snd ` set (nonempty_bounds tc ds)"
    and j: "\<And>d. d \<in> set ds \<Longrightarrow> getQuadrant tc p d = j"
  shows "getQuadrant tc p c = j"
proof -
  obtain pl pu pe where p: "range_deserialize tc p = (pl, pu, pe)" by (metis prod_cases3)
  obtain d u' where d: "d \<in> set ds" "range_deserialize tc d = (l, u', False)"
    using l by (auto simp: nonempty_bounds_set)
  obtain e l' where e: "e \<in> set ds" "range_deserialize tc e = (l', u, False)"
    using u by (auto simp: nonempty_bounds_set)
  show ?thesis
    using quadrant_nonempty [OF p c] quadrant_nonempty [OF p d(2)] quadrant_nonempty [OF p e(2)]
      j [OF d(1)] j [OF e(1)] by (auto split: if_splits)
qed

end

section \<open>Property\<close>

text \<open>The inner tuple the access method makes of a split.\<close>

definition split_tuple :: "'a spgPickSplitOut \<Rightarrow> 'a spg_inner" where
  "split_tuple out = \<lparr>allTheSame = False, prefixDatum = out_prefix out\<rparr>"

text \<open>
  C40. A split of a leaf returns an inner tuple that is well formed: the centroid of the
  median bounds is a non-empty range in canonical form. Every range goes to an existing
  node, the one \<open>spg_range_quad_choose\<close> selects for it in the new tuple, and is stored
  unchanged; and when the ranges all stand in one quadrant of a tuple above, so does the
  new centroid. Empty ranges meet others in a leaf of the first level only.
\<close>

theorem spg_range_quad_picksplit_choose:
  assumes type: "range_type tc cb" and found: "typcache_found lk fx tc"
    and ds: "ds \<noteq> []" "list_all (range_ok tc cb) ds"
    and level: "level = 0 \<or> list_all RangeIsEmpty ds \<or> list_all (\<lambda>d. \<not> RangeIsEmpty d) ds"
  shows "\<exists>out. spg_range_quad_picksplit lk fx ds level = Inr (out, Some tc) \<and>
    spg_node_ok tc cb (split_tuple out) (out_nNodes out) \<and> leafTupleDatums out = ds \<and>
    list_all2 (\<lambda>d node. node < out_nNodes out \<and>
        spg_range_quad_choose lk fx (split_tuple out) d =
          Inr (\<lparr>nodeN = Some node, levelAdd = 1, restDatum = d\<rparr>, Some tc))
      ds (mapTuplesToNodes out) \<and>
    (\<forall>tuple i. list_all (spg_belongs tc tuple i) ds \<longrightarrow> spg_nested tc tuple i (split_tuple out))"
proof (cases "nonempty_bounds tc ds = []")
  case True
  have ids: "rangetypid d = type_id tc" if "d \<in> set ds" for d
    using ds(2) that range_type.ok_typid [OF type] by (auto simp: list_all_iff)
  have emp: "RangeIsEmpty d" if "d \<in> set ds" for d
    using True that range_type.nonempty_bounds_empty [OF type] by blast
  let ?out = "\<lparr>out_prefix = None, out_nNodes = 2, mapTuplesToNodes = map (\<lambda>_. 0) ds,
    leafTupleDatums = ds\<rparr>"
  have "spg_range_quad_picksplit lk fx ds level = Inr (?out, Some tc)"
    using ds(1) ids found True
    by (cases ds) (simp_all add: spg_range_quad_picksplit_def quad_picksplit_def)
  then show ?thesis
    using ids emp found
    by (intro exI [of _ ?out]) (auto simp: list_all2_conv_all_nth spg_node_ok_def split_tuple_def
        spg_range_quad_choose_def spg_nested_def split: option.splits)
next
  case False
  have ids: "rangetypid d = type_id tc" if "d \<in> set ds" for d
    using ds(2) that range_type.ok_typid [OF type] by (auto simp: list_all_iff)
  let ?bs = "nonempty_bounds tc ds"
  obtain c l u where c: "range_serialize tc (qsort_arg (bound_cmp tc) (map fst ?bs) ! (length ?bs div 2))
       (qsort_arg (bound_cmp tc) (map snd ?bs) ! (length ?bs div 2)) False = Inr c"
    "centroid_ok tc cb c" "range_deserialize tc c = (norm_bound l, norm_bound u, False)"
    "l \<in> fst ` set ?bs" "u \<in> snd ` set ?bs"
    using range_type.centroid_exists [OF type ds(2) refl False] by blast
  let ?out = "\<lparr>out_prefix = Some c, out_nNodes = if level = 0 then 5 else 4,
    mapTuplesToNodes = map (\<lambda>r. getQuadrant tc c r - 1) ds, leafTupleDatums = ds\<rparr>"
  have out: "spg_range_quad_picksplit lk fx ds level = Inr (?out, Some tc)"
    using ds(1) ids found False c(1)
    by (cases ds) (simp_all add: spg_range_quad_picksplit_def quad_picksplit_def Let_def)
  have q: "getQuadrant tc c d - 1 < out_nNodes ?out \<and>
      spg_range_quad_choose lk fx (split_tuple ?out) d =
        Inr (\<lparr>nodeN = Some (getQuadrant tc c d - 1), levelAdd = 1, restDatum = d\<rparr>, Some tc)"
    if "d \<in> set ds" for d
  proof -
    have "getQuadrant tc c d \<noteq> 5" if "level \<noteq> 0"
      using level that False \<open>d \<in> set ds\<close> range_type.nonempty_bounds_empty [OF type, of ds]
        range_type.quadrant_empty [OF type, of c d] by (auto simp: list_all_iff)
    then have "getQuadrant tc c d - 1 < out_nNodes ?out"
      using range_type.quadrant_range [OF type, of c d] by auto
    then show ?thesis using ids [OF that] found by (simp add: spg_range_quad_choose_def split_tuple_def)
  qed
  have "spg_nested tc tuple i (split_tuple ?out)" if "list_all (spg_belongs tc tuple i) ds" for tuple i
    using that range_type.centroid_quadrant [OF type c(3-5), of _ "i + 1"]
    by (auto simp: spg_nested_def split_tuple_def spg_belongs_def list_all_iff split: option.splits)
  with out q c(2) show ?thesis
    by (intro exI [of _ ?out]) (auto simp: list_all2_conv_all_nth spg_node_ok_def split_tuple_def)
qed

theorem spg_range_quad_picksplit_choose_witness:
  "\<exists>out. spg_range_quad_picksplit int4_lookup None
      [int4_rng 1 10, empty_repr int4range_typcache, int4_rng 5 20, int4_rng 10 30] 0 =
      Inr (out, Some int4range_typcache) \<and>
    mapTuplesToNodes out = [2, 4, 0, 0] \<and> out_prefix out = Some (int4_rng 5 20) \<and>
    spg_node_ok int4range_typcache int4_cb (split_tuple out) (out_nNodes out)"
proof -
  let ?ds = "[int4_rng 1 10, empty_repr int4range_typcache, int4_rng 5 20, int4_rng 10 30]"
  have "?ds \<noteq> []" "list_all (range_ok int4range_typcache int4_cb) ?ds" by simp code_simp
  from spg_range_quad_picksplit_choose [OF int4.range_type_axioms int4_lookup_found this, of 0]
  obtain out where out: "spg_range_quad_picksplit int4_lookup None ?ds 0 = Inr (out, Some int4range_typcache)"
    "spg_node_ok int4range_typcache int4_cb (split_tuple out) (out_nNodes out)" by blast
  have "case spg_range_quad_picksplit int4_lookup None ?ds 0 of Inl _ \<Rightarrow> False
    | Inr (out, _) \<Rightarrow> mapTuplesToNodes out = [2, 4, 0, 0] \<and> out_prefix out = Some (int4_rng 5 20)"
    by code_simp
  with out show ?thesis by auto
qed

end
