(* ===== verification/Spec2Isabelle.thy ===== *)
theory Spec2Isabelle
  imports Range_Core Qsort Range_Typanalyze Range_Selfuncs Range_Estimates Range_Joinsel Range_IO
    Gist_Picksplit Spgist_Picksplit
begin

text \<open>
  A verification development of the range type subsystem of PostgreSQL 13 as it stands in
  \<open>src/postgres-ramen\<close>, a fork that changes how statistics on range columns are gathered
  and used. Paths below are relative to \<open>src/postgres-ramen/src\<close>; \<open>adt\<close> stands for
  \<open>backend/utils/adt\<close>.

  \<^bold>\<open>The parts and how they interact.\<close> A range value is a varlena with a flags byte
  and up to two bounds. \<open>adt/rangetypes.c\<close> builds, reads, compares and combines such values;
  everything it knows of the element type it takes from a type cache entry. The ANALYZE
  command samples a column and calls \<open>adt/rangetypes_typanalyze.c\<close>, which sorts the bounds
  (\<open>port/qsort_arg.c\<close>) and leaves three histograms in \<open>pg_statistic\<close>. The planner calls
  \<open>adt/rangetypes_selfuncs.c\<close> and \<open>adt/geo_selfuncs.c\<close>, which read them back and
  estimate the fraction of rows a clause selects. The GiST and SP-GiST access methods call
  \<open>adt/rangetypes_gist.c\<close> and \<open>adt/rangetypes_spgist.c\<close> to build and search indexes.
  Input and output functions turn range values into text and messages and back.

  \<^bold>\<open>Conventions.\<close> An operation is a function of its arguments; \<open>ereport\<close> and
  \<open>elog(ERROR)\<close> are values of \<open>pg_error\<close>, and a fallible operation returns
  \<open>pg_error + 'a\<close>. \<open>Undefined_behavior\<close> is the error of a read outside an array or through
  an unset pointer. The \<open>fn_extra\<close> cache of a call site is an argument and part of the
  result; the type cache lookup is an argument (\<open>lookup\<close>), with \<open>typcache_found\<close> as the
  hypothesis that it knows the type at hand. A \<open>Datum\<close> of a built-in type is a 64-bit word,
  flags are an 8-bit word, C \<open>int\<close> arithmetic that may wrap is written out. A \<open>float8\<close>
  is a real number, an infinity or NaN: special values follow IEEE 754, finite arithmetic is
  exact. Properties are numbered C1 to C40 in the text before them; each with a hypothesis
  is applied to concrete values in the theorem that follows it.

  \<^bold>\<open>Theories.\<close>

  \<^item> \<open>Prelude\<close>: errors, the error monad \<open>rbind\<close>, and \<open>cmp_preorder\<close>, the laws of a
    three-way comparison function. \<open>Float8\<close>: the values of the estimators.

  \<^item> \<open>Range_Data\<close>: flags, bounds, the stored value and the type cache entry
    (\<open>include/utils/rangetypes.h\<close>), \<open>range_serialize\<close>, \<open>range_deserialize\<close>, \<open>make_range\<close>
    and the comparison of bounds. The locale \<open>range_opclass\<close> has the b-tree laws of the
    element comparison, \<open>range_type\<close> adds the contract of the canonicalization function;
    \<open>range_ok\<close> is the invariant of a stored range. \<open>Range_Ops\<close>: the operators, accessors,
    constructors, hash functions and set operations of \<open>rangetypes.c\<close>. \<open>Range_Algebra\<close>:
    what they compute, proved once in the locales. \<open>Range_Builtin\<close>: the element functions,
    canonicalization and subtype differences of \<open>int4range\<close>, \<open>int8range\<close>, \<open>daterange\<close> and
    the timestamp ranges, and the interpretations \<open>int4\<close>, \<open>int8\<close>, \<open>dater\<close>, \<open>tsr\<close> of the
    locales on them. \<open>Range_Core\<close> has the properties: union, difference and intersection are
    those of the element sets and fail exactly when the result is no range (C1 to C3), storing
    and reading are inverse (C4, C5), \<open>make_range\<close> keeps the invariant (C6), the order, the
    positional operators, containment, merge, adjacency and hashing (C7 to C12), extensional
    equality for the discrete types, exact error conditions, and independence of the
    cache (C13 to C15).

  \<^item> \<open>Qsort\<close>: \<open>qsort_arg\<close> step by step (presorted check, insertion sort, median of medians,
    three-way partition, recursion), proved to sort (C16), and order statistics.

  \<^item> \<open>Range_Typanalyze\<close>: \<open>compute_range_stats\<close> and the fork's frequency histogram: the
    bounds histogram is valid and ascending (C17); on ascending non-negative bounds below
    \<open>2 ^ 31 - 20\<close> the frequencies add up to the number of ranges and a surplus that is stated
    exactly, the buckets cover the span without overflow, and each entry counts the elements of
    the ranges in its bucket (C18, C19); the case in which the code reads unset arrays (C20).

  \<^item> \<open>Range_Selfuncs\<close>: \<open>rangesel\<close>, \<open>rangerestsel\<close> and the histogram estimators;
    \<open>Range_Estimates\<close>: what ANALYZE stores is what they need, every estimate is a
    probability, searches and interpolation are accurate (C21 to C25), and the \<open>&&\<close> estimate
    from the frequency histogram sums the histogram's buckets that meet the constant, where
    both functions use the same bucket length (C26). The locale \<open>range_subdiff\<close> is the
    contract of a subtype difference function.
    \<open>Range_Joinsel\<close>: the overlap join estimate, when its loops end and when it fails
    (C27, C28).

  \<^item> \<open>Num_IO\<close>: text input and output of \<open>int4\<close> and \<open>int8\<close> (\<open>adt/numutils.c\<close>);
    \<open>Range_IO\<close>: text and binary input and output of ranges with the message buffers and the
    lookup of the element type's functions. Output is read back as the same value
    (C29 to C33). The locale \<open>elem_io\<close> is the contract of an element type.

  \<^item> \<open>Range_Gist\<close>: union, consistent, same and penalty functions of the GiST operator
    class. The locale \<open>gist_opclass\<close> is what the access method asks of an operator class;
    with it a search is proved to return exactly the keys on which the SQL function of the
    operator (\<open>range_amop\<close>, from \<open>include/catalog/pg_amop.dat\<close>) is true, without recheck
    (C34), and unions are least covering keys (C35). \<open>range_index\<close> is an index on a range type. \<open>Gist_Split\<close>: the page split with its four methods;
    \<open>Gist_Picksplit\<close>: it returns, loses no entry, gives least covering keys and makes
    progress except in the double sorting split (C36 to C38).

  \<^item> \<open>Range_Spgist\<close>: the quad tree operator class of SP-GiST. The locale \<open>spg_opclass\<close> is
    what the access method asks; a search returns exactly the ranges on which the SQL functions
    of all scan keys are true (C39). \<open>Spgist_Picksplit\<close>: a split keeps the invariant of
    the tree and agrees with \<open>spg_range_quad_choose\<close> (C40).

  \<^bold>\<open>Loops.\<close> Recursion over data is structural or has a termination proof. The two bucket
  searches of the overlap join and the two outer searches of the double sorting split, whose
  end depends on the data, are partial functions into \<open>option\<close>; that they return is part of
  C27, C36 and C38. No fuel is used.

  \<^bold>\<open>Not modelled.\<close> \<open>numrange_subdiff\<close>, which needs arbitrary precision numerics;
  the byte layout of a datum inside the varlena (\<open>datum_write\<close> and its alignment: the
  bounds of a stored range are a list of datums); rounding of floating point arithmetic,
  so that the \<open>float4\<close> penalty and split ratio of the GiST class are exact numbers; assertions;
  the bootstrap branch of \<open>get_type_io_data\<close>; \<open>port/qsort.c\<close>, the same algorithm without the
  extra argument, for which \<open>qsort_arg\<close> stands in; memory contexts; text formats of dates and timestamps. The rest of the server is outside
  the development: parser, planner, executor, storage, the cores of the access methods (trees
  are given by their invariant), replication, client programs, extensions, and the scripts
  and benchmarks of the repository. They neither define nor change range values, and the
  parts above see them only through arguments: the results of catalog lookups, sample rows,
  the clause being estimated, the tree being searched.
\<close>

end
